(* ===== verification/Prelude.thy ===== *)
theory Prelude
  imports Main "HOL-Library.Word"
begin

text \<open>
  What every component of the development shares: the machine types, the values that stand
  for undefined behaviour of C (\<open>fault\<close>), a result type \<open>fault + 'a\<close> with its sequencing
  operator, a byte-addressed memory of allocated blocks with the operations of the allocator
  and of \<open>memcpy\<close>, and generic lemmas on lists and words.
\<close>

section \<open>Machine types\<close>

type_synonym byte = "8 word"
type_synonym uint8 = "8 word"
type_synonym size_t = "64 word"
type_synonym loff_t = "64 word"

text \<open>
  An allocated block is named by a number; a C pointer to the start of a block is an
  optional block name, with \<open>None\<close> for NULL.
\<close>

type_synonym addr = nat
type_synonym ptr = "addr option"

text \<open>\<open>'\n'\<close>, the value of both \<open>END_WRITE_CHAR\<close> and \<open>PACKET_ENDING\<close>.\<close>

definition newline :: byte where
  "newline = 10"

section \<open>Undefined behaviour as a value\<close>

datatype fault =
    NullDeref        \<comment> \<open>a NULL pointer was dereferenced\<close>
  | OutOfBounds      \<comment> \<open>an access outside an array or a block\<close>
  | UseAfterFree     \<comment> \<open>an access to a block that is not allocated\<close>
  | BadFree          \<comment> \<open>\<open>free\<close> of something not allocated (double free)\<close>
  | SignedOverflow   \<comment> \<open>signed integer arithmetic outside the range of its type\<close>
  | LockMisuse       \<comment> \<open>taking a mutex already held, or releasing one not held\<close>

definition bindE :: "'e + 'a \<Rightarrow> ('a \<Rightarrow> 'e + 'b) \<Rightarrow> 'e + 'b" where
  "bindE m k = (case m of Inl e \<Rightarrow> Inl e | Inr x \<Rightarrow> k x)"

lemma bindE_simps [simp]:
  "bindE (Inl e) k = Inl e"
  "bindE (Inr x) k = k x"
  by (simp_all add: bindE_def)

lemma bindE_cong [fundef_cong]:
  assumes "m = m'" and "\<And>x. m' = Inr x \<Longrightarrow> k x = k' x"
  shows "bindE m k = bindE m' k'"
  using assms by (cases m') simp_all

lemma bindE_eq_Inr: "bindE m k = Inr y \<longleftrightarrow> (\<exists>x. m = Inr x \<and> k x = Inr y)"
  by (cases m) simp_all

lemma bindE_assoc: "bindE (bindE m k) l = bindE m (\<lambda>x. bindE (k x) l)"
  by (cases m) simp_all

lemma bindE_split: "P (bindE m k) \<longleftrightarrow> (\<forall>e. m = Inl e \<longrightarrow> P (Inl e)) \<and> (\<forall>x. m = Inr x \<longrightarrow> P (k x))"
  by (cases m) simp_all

section \<open>Memory\<close>

named_theorems mem_simps \<open>reads and writes of the block memory\<close>

text \<open>
  The memory maps the name of each allocated block to its bytes. An access names the
  pointer, an offset in bytes and a length, and is checked against the block.
\<close>

type_synonym memory = "addr \<rightharpoonup> byte list"

definition mem_read :: "memory \<Rightarrow> ptr \<Rightarrow> nat \<Rightarrow> nat \<Rightarrow> fault + byte list" where
  "mem_read h p off n =
     (case p of
        None \<Rightarrow> Inl NullDeref
      | Some a \<Rightarrow>
          (case h a of
             None \<Rightarrow> Inl UseAfterFree
           | Some blk \<Rightarrow>
               if off + n \<le> length blk then Inr (take n (drop off blk)) else Inl OutOfBounds))"

definition mem_write :: "memory \<Rightarrow> ptr \<Rightarrow> nat \<Rightarrow> byte list \<Rightarrow> fault + memory" where
  "mem_write h p off bs =
     (case p of
        None \<Rightarrow> Inl NullDeref
      | Some a \<Rightarrow>
          (case h a of
             None \<Rightarrow> Inl UseAfterFree
           | Some blk \<Rightarrow>
               if off + length bs \<le> length blk
               then Inr (h(a \<mapsto> take off blk @ bs @ drop (off + length bs) blk))
               else Inl OutOfBounds))"

text \<open>
  The allocator's answer is \<open>None\<close> (out of memory) or a block name with the block's initial,
  unspecified contents. What \<open>kmalloc\<close> and \<open>malloc\<close> document of an answer to a request of
  \<open>n\<close> bytes is \<open>alloc_ok\<close>: the block is new and holds \<open>n\<close> bytes.
\<close>

type_synonym alloc_answer = "(addr \<times> byte list) option"

definition alloc_ok :: "memory \<Rightarrow> nat \<Rightarrow> alloc_answer \<Rightarrow> bool" where
  "alloc_ok h n ans =
     (case ans of None \<Rightarrow> True | Some (a, blk) \<Rightarrow> h a = None \<and> length blk = n)"

definition mem_alloc :: "memory \<Rightarrow> alloc_answer \<Rightarrow> ptr \<times> memory" where
  "mem_alloc h ans = (case ans of None \<Rightarrow> (None, h) | Some (a, blk) \<Rightarrow> (Some a, h(a \<mapsto> blk)))"

text \<open>\<open>kfree\<close> and \<open>free\<close>: freeing NULL does nothing.\<close>

definition mem_free :: "memory \<Rightarrow> ptr \<Rightarrow> fault + memory" where
  "mem_free h p =
     (case p of
        None \<Rightarrow> Inr h
      | Some a \<Rightarrow> (case h a of None \<Rightarrow> Inl BadFree | Some _ \<Rightarrow> Inr (h(a := None))))"

lemma mem_read_Some [mem_simps]:
  "h a = Some blk \<Longrightarrow> off + n \<le> length blk \<Longrightarrow> mem_read h (Some a) off n = Inr (take n (drop off blk))"
  by (simp add: mem_read_def)

lemma mem_write_Some [mem_simps]:
  "h a = Some blk \<Longrightarrow> off + length bs \<le> length blk \<Longrightarrow>
   mem_write h (Some a) off bs = Inr (h(a \<mapsto> take off blk @ bs @ drop (off + length bs) blk))"
  by (simp add: mem_write_def)

lemma mem_free_Some [mem_simps]:
  "h a = Some blk \<Longrightarrow> mem_free h (Some a) = Inr (h(a := None))"
  by (simp add: mem_free_def)

lemma mem_free_NULL [mem_simps]: "mem_free h None = Inr h"
  by (simp add: mem_free_def)

lemma mem_alloc_simps [mem_simps]:
  "mem_alloc h None = (None, h)"
  "mem_alloc h (Some (a, blk)) = (Some a, h(a \<mapsto> blk))"
  by (simp_all add: mem_alloc_def)

lemma alloc_ok_simps [mem_simps]:
  "alloc_ok h n None"
  "alloc_ok h n (Some (a, blk)) \<longleftrightarrow> h a = None \<and> length blk = n"
  by (simp_all add: alloc_ok_def)

text \<open>The first free name of a memory of any contents, for concrete allocators.\<close>

partial_function (option) first_free :: "(addr \<rightharpoonup> 'b) \<Rightarrow> addr \<Rightarrow> addr option" where
  "first_free h a = (if h a = None then Some a else first_free h (Suc a))"

lemma first_free_Some: "first_free h a = Some b \<Longrightarrow> h b = None"
  by (rule first_free.raw_induct[where P = "\<lambda>h a b. h b = None"]) (auto split: if_splits)

lemma first_free_total: "h b = None \<Longrightarrow> a \<le> b \<Longrightarrow> first_free h a \<noteq> None"
proof (induction "b - a" arbitrary: a)
  case 0
  then show ?case by (subst first_free.simps) simp
next
  case (Suc k)
  then have "first_free h (Suc a) \<noteq> None" by (intro Suc.hyps(1)) auto
  then show ?case by (subst first_free.simps) simp
qed

lemma first_free_finite: "finite (dom h) \<Longrightarrow> first_free h 0 \<noteq> None"
  using first_free_total ex_new_if_finite[OF infinite_UNIV_nat] by (metis domIff le0)

section \<open>Lists and words\<close>

definition take_last :: "nat \<Rightarrow> 'a list \<Rightarrow> 'a list" where
  "take_last n xs = drop (length xs - n) xs"

lemma length_take_last [simp]: "length (take_last n xs) = min n (length xs)"
  by (simp add: take_last_def)

lemma take_last_all [simp]: "length xs \<le> n \<Longrightarrow> take_last n xs = xs"
  by (simp add: take_last_def)

lemma take_last_Nil [simp]: "take_last n [] = []"
  by (simp add: take_last_def)

lemma take_last_append_take_last [simp]:
  "take_last n (take_last n xs @ ys) = take_last n (xs @ ys)"
  by (cases "length xs \<le> n") (auto simp: take_last_def add.commute)

text \<open>Reading inside one of the lists of a concatenation.\<close>

lemma take_drop_concat:
  assumes "k < length xss" "r + n \<le> length (xss ! k)"
  shows "take n (drop (length (concat (take k xss)) + r) (concat xss)) = take n (drop r (xss ! k))"
proof -
  have "concat xss = concat (take k xss) @ xss ! k @ concat (drop (Suc k) xss)"
    using id_take_nth_drop[OF assms(1)] by (metis concat.simps(2) concat_append)
  then show ?thesis using assms(2) by simp
qed

lemma sint_of_nat_64: "n < 2 ^ 63 \<Longrightarrow> sint (word_of_nat n :: 64 word) = int n"
  by (simp add: signed_of_nat signed_take_bit_int_eq_self)

lemma unat_less_pow: "unat (w :: 64 word) < 2 ^ 64"
  using unsigned_less [where w = w] by simp

lemma unat_of_nat_64: "n < 2 ^ 64 \<Longrightarrow> unat (word_of_nat n :: 64 word) = n"
  by (simp add: unat_of_nat take_bit_nat_eq_self)

lemma of_nat_unat_64: "word_of_nat (unat w) = (w :: 64 word)"
  by simp

lemma unat_add_64:
  "unat (a :: 64 word) + unat b < 2 ^ 64 \<Longrightarrow> unat (a + b) = unat a + unat b"
  by (simp add: unat_word_ariths)

lemma unat_sub_le: "b \<le> a \<Longrightarrow> unat (a - b :: 'a::len word) = unat a - unat b"
  by (rule unat_sub)

lemma unat_Suc_less:
  "unat (x :: 'a::len word) < n \<Longrightarrow> n < 2 ^ LENGTH('a) \<Longrightarrow> unat (x + 1) = Suc (unat x)"
  by (cases "LENGTH('a) = 1") (auto simp: unat_word_ariths unsigned_1)

end
