(* ===== verification/Bounded_Log.thy ===== *)
theory Bounded_Log
  imports Prelude
begin

text \<open>
  The contract of a log that keeps its last \<open>cap\<close> records, which the circular buffer provides
  to the driver and the driver provides to the programs that write lines to it. A log is
  described by its start states, its invariant, its view (the records kept, oldest first) and
  the relation of a successful append.
\<close>

text \<open>A run: one append for each record of a list.\<close>

primrec append_run :: "('s \<Rightarrow> 'a \<Rightarrow> 's \<Rightarrow> bool) \<Rightarrow> 's \<Rightarrow> 'a list \<Rightarrow> 's \<Rightarrow> bool" where
  "append_run app s [] t \<longleftrightarrow> s = t"
| "append_run app s (x # xs) t \<longleftrightarrow> (\<exists>s1. app s x s1 \<and> append_run app s1 xs t)"

locale bounded_log =
  fixes cap :: nat
    and start :: "'s \<Rightarrow> bool"
    and invar :: "'s \<Rightarrow> bool"
    and view :: "'s \<Rightarrow> 'a list"
    and app :: "'s \<Rightarrow> 'a \<Rightarrow> 's \<Rightarrow> bool"
  assumes start_invar: "start s \<Longrightarrow> invar s"
    and start_view: "start s \<Longrightarrow> view s = []"
    and app_invar: "invar s \<Longrightarrow> app s x t \<Longrightarrow> invar t"
    and app_view: "invar s \<Longrightarrow> app s x t \<Longrightarrow> view t = take_last cap (view s @ [x])"
begin

lemma run_from:
  assumes "append_run app s xs t" "invar s" "length (view s) \<le> cap"
  shows "invar t" "view t = take_last cap (view s @ xs)"
proof -
  have "invar t \<and> view t = take_last cap (view s @ xs)"
    using assms
  proof (induction xs arbitrary: s)
    case Nil
    then show ?case by simp
  next
    case (Cons x xs)
    then obtain s1 where s1: "app s x s1" "append_run app s1 xs t" by auto
    from s1(1) Cons.prems(2) have inv: "invar s1" and v: "view s1 = take_last cap (view s @ [x])"
      using app_invar app_view by blast+
    moreover from v have "length (view s1) \<le> cap" by simp
    ultimately show ?case using Cons.IH[OF s1(2)] by simp
  qed
  then show "invar t" "view t = take_last cap (view s @ xs)" by simp_all
qed

text \<open>What a log holds depends on its history only through its last \<open>cap\<close> records.\<close>

lemma run_view:
  assumes "start s" "append_run app s xs t"
  shows "view t = take_last cap xs"
  using run_from(2)[OF assms(2)] start_invar[OF assms(1)] start_view[OF assms(1)] by simp

lemma run_invar:
  assumes "start s" "append_run app s xs t"
  shows "invar t"
  using run_from(1)[OF assms(2)] start_invar[OF assms(1)] start_view[OF assms(1)] by simp

end

end
