(* ===== verification/Circular_Buffer.thy ===== *)
theory Circular_Buffer
  imports Prelude Bounded_Log
begin

text \<open>
  The circular buffer of \<^verbatim>\<open>aesd-char-driver/aesd-circular-buffer.c\<close>: its two structs, its five
  functions, the abstraction of a buffer to the queue of entries it holds (oldest first), and
  the reference definitions (\<open>ring_push\<close>, \<open>locate\<close>) that the code is shown to implement.

  An index outside the entry array is undefined behaviour in C and the value
  \<open>Inl OutOfBounds\<close> here. A pointer to an element of the entry array, which two of the
  functions return, is the element's index.
\<close>

section \<open>The structs\<close>

text \<open>\<open>AESDCHAR_MAX_WRITE_OPERATIONS_SUPPORTED\<close>.\<close>

abbreviation max_ops :: nat where
  "max_ops \<equiv> 10"

record aesd_buffer_entry =
  buffptr :: ptr
  entry_size :: size_t

record aesd_circular_buffer =
  entry :: "aesd_buffer_entry list"
  in_offs :: uint8
  out_offs :: uint8
  full :: bool
  empty :: bool

definition null_entry :: aesd_buffer_entry where
  "null_entry = \<lparr>buffptr = None, entry_size = 0\<rparr>"

definition get_entry :: "aesd_circular_buffer \<Rightarrow> nat \<Rightarrow> fault + aesd_buffer_entry" where
  "get_entry b i = (if i < length (entry b) then Inr (entry b ! i) else Inl OutOfBounds)"

definition set_entry ::
  "aesd_circular_buffer \<Rightarrow> nat \<Rightarrow> aesd_buffer_entry \<Rightarrow> fault + aesd_circular_buffer" where
  "set_entry b i e =
     (if i < length (entry b) then Inr (b\<lparr>entry := (entry b)[i := e]\<rparr>) else Inl OutOfBounds)"

section \<open>The operations\<close>

text \<open>The wrap-around of an offset, written out three times in the code.\<close>

definition next_offs :: "uint8 \<Rightarrow> uint8" where
  "next_offs x = (if x = 10 - 1 then 0 else x + 1)"

text \<open>
  The loop of the search: \<open>count\<close> slots are done, \<open>index\<close> is the slot to look at and \<open>left\<close>
  is \<open>char_offset_left\<close>. The result is NULL (\<open>None\<close>) or the entry found with the value stored
  through \<open>entry_offset_byte_rtn\<close>, which the code writes only when it finds an entry.
\<close>

function find_loop ::
  "aesd_circular_buffer \<Rightarrow> nat \<Rightarrow> nat \<Rightarrow> size_t \<Rightarrow> fault + (nat \<times> size_t) option" where
  "find_loop b count index left =
     (if count < max_ops
      then bindE (get_entry b index) (\<lambda>e.
             if left < entry_size e then Inr (Some (index, left))
             else find_loop b (Suc count)
                    (if index = max_ops - 1 then 0 else Suc index)
                    (left - entry_size e))
      else Inr None)"
  by pat_completeness auto
termination
  by (relation "measure (\<lambda>(b, count, index, left). max_ops - count)") auto

declare find_loop.simps [simp del]

definition aesd_circular_buffer_find_entry_offset_for_fpos ::
  "aesd_circular_buffer \<Rightarrow> size_t \<Rightarrow> fault + (nat \<times> size_t) option" where
  "aesd_circular_buffer_find_entry_offset_for_fpos b char_offset =
     find_loop b 0 (unat (out_offs b)) char_offset"

definition aesd_circular_buffer_add_entry ::
  "aesd_circular_buffer \<Rightarrow> aesd_buffer_entry \<Rightarrow> fault + ptr \<times> aesd_circular_buffer" where
  "aesd_circular_buffer_add_entry b add_entry =
     bindE (if full b then bindE (get_entry b (unat (in_offs b))) (\<lambda>e. Inr (buffptr e))
            else Inr None) (\<lambda>return_value.
     bindE (set_entry b (unat (in_offs b))
              \<lparr>buffptr = buffptr add_entry, entry_size = entry_size add_entry\<rparr>) (\<lambda>b1.
     let b2 = b1\<lparr>empty := False\<rparr>;
         b3 = b2\<lparr>in_offs := next_offs (in_offs b2)\<rparr>
     in if full b3 then Inr (return_value, b3\<lparr>out_offs := next_offs (out_offs b3)\<rparr>)
        else if in_offs b3 = out_offs b3 then Inr (return_value, b3\<lparr>full := True\<rparr>)
        else Inr (return_value, b3)))"

definition aesd_circular_buffer_remove_entry ::
  "aesd_circular_buffer \<Rightarrow> nat option \<times> aesd_circular_buffer" where
  "aesd_circular_buffer_remove_entry b =
     (if empty b = False then (None, b)
      else
        let return_ptr = unat (out_offs b);
            b1 = b\<lparr>out_offs := next_offs (out_offs b)\<rparr>;
            b2 = (if in_offs b1 = out_offs b1 then b1\<lparr>empty := True\<rparr> else b1)
        in (Some return_ptr, b2))"

text \<open>\<open>memset(buffer, 0, sizeof(struct aesd_circular_buffer))\<close>: every field becomes zero.\<close>

definition aesd_circular_buffer_init :: "aesd_circular_buffer \<Rightarrow> aesd_circular_buffer" where
  "aesd_circular_buffer_init b =
     \<lparr>entry = replicate max_ops null_entry, in_offs = 0, out_offs = 0,
      full = False, empty = False\<rparr>"

section \<open>Printing\<close>

text \<open>
  The debug print. \<open>%s\<close> reads the buffer up to a NUL byte, past the end of the block when
  there is none.
\<close>

datatype print_line =
    PrintingBuffer
  | PrintIndex nat "byte list"
  | PrintNone nat

fun c_string :: "byte list \<Rightarrow> fault + byte list" where
  "c_string [] = Inl OutOfBounds"
| "c_string (c # cs) = (if c = 0 then Inr [] else bindE (c_string cs) (\<lambda>s. Inr (c # s)))"

definition read_c_string :: "memory \<Rightarrow> ptr \<Rightarrow> fault + byte list" where
  "read_c_string h p =
     (case p of
        None \<Rightarrow> Inl NullDeref
      | Some a \<Rightarrow> (case h a of None \<Rightarrow> Inl UseAfterFree | Some blk \<Rightarrow> c_string blk))"

text \<open>\<open>AESD_CIRCULAR_BUFFER_FOREACH\<close>: the body runs on the indices below the array's length.\<close>

fun foreach_entry ::
  "aesd_circular_buffer \<Rightarrow> nat list \<Rightarrow> (nat \<Rightarrow> aesd_buffer_entry \<Rightarrow> fault + 'a) \<Rightarrow> fault + 'a list" where
  "foreach_entry b [] body = Inr []"
| "foreach_entry b (i # is) body =
     bindE (get_entry b i) (\<lambda>e.
     bindE (body i e) (\<lambda>x.
     bindE (foreach_entry b is body) (\<lambda>xs. Inr (x # xs))))"

definition print_entry :: "memory \<Rightarrow> nat \<Rightarrow> aesd_buffer_entry \<Rightarrow> fault + print_line" where
  "print_entry h index temp_ptr =
     (if buffptr temp_ptr \<noteq> None
      then bindE (read_c_string h (buffptr temp_ptr)) (\<lambda>s. Inr (PrintIndex index s))
      else Inr (PrintNone index))"

definition aesd_buffer_print :: "memory \<Rightarrow> aesd_circular_buffer \<Rightarrow> fault + print_line list" where
  "aesd_buffer_print h b =
     bindE (foreach_entry b [0..<max_ops] (print_entry h)) (\<lambda>lines. Inr (PrintingBuffer # lines))"

section \<open>Abstraction and invariant\<close>

text \<open>
  \<open>slot b k\<close> is the \<open>k\<close>-th slot counted from the read offset; the first \<open>held_count b\<close> of
  them hold the entries, oldest first.
\<close>

definition slot :: "aesd_circular_buffer \<Rightarrow> nat \<Rightarrow> aesd_buffer_entry" where
  "slot b k = entry b ! ((unat (out_offs b) + k) mod max_ops)"

definition held_count :: "aesd_circular_buffer \<Rightarrow> nat" where
  "held_count b =
     (if full b then max_ops
      else (unat (in_offs b) + max_ops - unat (out_offs b)) mod max_ops)"

definition held :: "aesd_circular_buffer \<Rightarrow> aesd_buffer_entry list" where
  "held b = map (slot b) [0..<held_count b]"

text \<open>
  What the operations keep: the array has its size, the offsets are inside it, a full buffer
  has its offsets equal, and a slot that holds no entry is zero (the search reads all ten
  slots). The last conjunct records what the code does with the flag \<open>empty\<close>.
\<close>

definition ring_inv :: "aesd_circular_buffer \<Rightarrow> bool" where
  "ring_inv b \<longleftrightarrow>
     length (entry b) = max_ops \<and> unat (in_offs b) < max_ops \<and> unat (out_offs b) < max_ops \<and>
     (full b \<longrightarrow> in_offs b = out_offs b) \<and>
     (\<forall>k. held_count b \<le> k \<and> k < max_ops \<longrightarrow> slot b k = null_entry) \<and>
     \<not> empty b"

text \<open>Adding to a bounded queue: the oldest element leaves a full one.\<close>

definition ring_push :: "'a list \<Rightarrow> 'a \<Rightarrow> 'a list" where
  "ring_push q x = take_last max_ops (q @ [x])"

text \<open>
  The position a character offset denotes in a list of entries: the entry's place in the
  list and the offset inside it.
\<close>

fun locate :: "aesd_buffer_entry list \<Rightarrow> nat \<Rightarrow> (nat \<times> nat) option" where
  "locate [] off = None"
| "locate (e # es) off =
     (if off < unat (entry_size e) then Some (0, off)
      else map_option (\<lambda>(k, o'). (Suc k, o')) (locate es (off - unat (entry_size e))))"

section \<open>Basic facts\<close>

lemma unat_next_offs:
  assumes "unat x < max_ops"
  shows "unat (next_offs x) = (unat x + 1) mod max_ops"
proof (cases "x = 9")
  case True
  then show ?thesis by (simp add: next_offs_def)
next
  case False
  then have "unat x \<noteq> 9" by (auto simp: word_unat_eq_iff)
  with assms have "unat x < 9" by simp
  moreover from this have "unat (x + 1) = Suc (unat x)"
    by (rule unat_Suc_less) simp
  ultimately show ?thesis using False by (simp add: next_offs_def)
qed

lemma length_held [simp]: "length (held b) = held_count b"
  by (simp add: held_def)

lemma nth_held: "k < held_count b \<Longrightarrow> held b ! k = slot b k"
  by (simp add: held_def)

lemma held_count_le: "held_count b \<le> max_ops"
  by (simp add: held_count_def order_less_imp_le)

lemma ring_invD:
  assumes "ring_inv b"
  shows "length (entry b) = max_ops" "unat (in_offs b) < max_ops" "unat (out_offs b) < max_ops"
    "full b \<Longrightarrow> in_offs b = out_offs b" "\<not> empty b"
    "held_count b \<le> k \<Longrightarrow> k < max_ops \<Longrightarrow> slot b k = null_entry"
  using assms by (auto simp: ring_inv_def)

text \<open>In a buffer that is not full, the write offset is the slot after the last entry held.\<close>

lemma in_offs_slot:
  assumes "ring_inv b"
  shows "unat (in_offs b) = (unat (out_offs b) + held_count b) mod max_ops"
proof (cases "full b")
  case True
  with ring_invD[OF assms] show ?thesis by (simp add: held_count_def)
next
  case False
  with ring_invD(2,3)[OF assms] show ?thesis
    by (simp add: held_count_def mod_if)
qed

lemma full_iff: "ring_inv b \<Longrightarrow> full b \<longleftrightarrow> held_count b = max_ops"
  by (simp add: held_count_def less_imp_neq)

text \<open>Offsets from the read offset that stay below the array's length name distinct slots.\<close>

lemma mod_max_ops: "r < max_ops \<Longrightarrow> k < max_ops \<Longrightarrow>
    (r + k) mod max_ops = (if r + k < max_ops then r + k else r + k - max_ops)"
  by (simp add: mod_if)

lemma slot_index_eq:
  fixes d :: nat
  assumes "k < max_ops" "n < max_ops"
  shows "(d + k) mod max_ops = (d + n) mod max_ops \<longleftrightarrow> k = n"
proof -
  define r where "r = d mod max_ops"
  have "r < max_ops" by (simp add: r_def)
  then have "(r + k) mod max_ops = (r + n) mod max_ops \<longleftrightarrow> k = n"
    using assms by (auto simp: mod_max_ops)
  then show ?thesis by (simp add: r_def mod_add_left_eq)
qed

section \<open>Adding an entry\<close>

lemma init_inv: "ring_inv (aesd_circular_buffer_init b)"
  by (simp add: ring_inv_def aesd_circular_buffer_init_def slot_def)

lemma init_held: "held (aesd_circular_buffer_init b) = []"
  by (simp add: held_def held_count_def aesd_circular_buffer_init_def)

text \<open>The state after an addition to a buffer that satisfies the invariant.\<close>

definition add_result :: "aesd_circular_buffer \<Rightarrow> aesd_buffer_entry \<Rightarrow> aesd_circular_buffer" where
  "add_result b e =
     b\<lparr>entry := (entry b)[unat (in_offs b) := e], empty := False,
       in_offs := next_offs (in_offs b),
       out_offs := (if full b then next_offs (out_offs b) else out_offs b),
       full := (full b \<or> next_offs (in_offs b) = out_offs b)\<rparr>"

lemma add_entry_eq:
  assumes "ring_inv b"
  shows "aesd_circular_buffer_add_entry b e =
    Inr (if full b then buffptr (hd (held b)) else None, add_result b e)"
proof -
  have e: "\<lparr>buffptr = buffptr e, entry_size = entry_size e\<rparr> = e" by simp
  have "full b \<Longrightarrow> entry b ! unat (in_offs b) = hd (held b)"
    using ring_invD[OF assms]
    by (simp add: held_def held_count_def slot_def upt_rec[of 0] hd_map)
  then show ?thesis
    using ring_invD[OF assms]
    by (auto simp: aesd_circular_buffer_add_entry_def get_entry_def set_entry_def add_result_def
        Let_def e)
qed

lemma slot_add_result:
  assumes "ring_inv b" "k < max_ops"
  shows "slot (add_result b e) k =
    (if full b then (if k = max_ops - 1 then e else slot b (Suc k))
     else (if k = held_count b then e else slot b k))"
proof -
  note inv = ring_invD[OF assms(1)]
  have n: "held_count b \<le> max_ops" by (rule held_count_le)
  show ?thesis
  proof (cases "full b")
    case True
    have "(unat (out_offs b) + Suc k) mod max_ops = unat (out_offs b) mod max_ops \<longleftrightarrow>
        k = max_ops - 1"
      using slot_index_eq[of "Suc k" 0 "unat (out_offs b)"] assms(2) by (cases "k = 9") auto
    with True inv show ?thesis
      by (auto simp: slot_def add_result_def unat_next_offs mod_add_left_eq nth_list_update)
  next
    case False
    with inv n assms have "held_count b < max_ops"
      using full_iff[OF assms(1)] by simp
    then have "(unat (out_offs b) + k) mod max_ops = unat (in_offs b) \<longleftrightarrow> k = held_count b"
      unfolding in_offs_slot[OF assms(1)] using assms(2) by (intro slot_index_eq)
    with False inv show ?thesis
      by (auto simp: slot_def add_result_def nth_list_update)
  qed
qed

lemma held_count_add_result:
  assumes "ring_inv b"
  shows "held_count (add_result b e) = min max_ops (Suc (held_count b))"
proof (cases "full b")
  case True
  with ring_invD[OF assms] show ?thesis by (simp add: held_count_def add_result_def)
next
  case False
  note inv = ring_invD[OF assms]
  have lt: "held_count b < max_ops"
    using False full_iff[OF assms] held_count_le[of b] by simp
  have nx: "unat (next_offs (in_offs b)) = (unat (out_offs b) + Suc (held_count b)) mod max_ops"
    using unat_next_offs[OF inv(2)] by (simp add: in_offs_slot[OF assms] mod_simps)
  have eq: "next_offs (in_offs b) = out_offs b \<longleftrightarrow> Suc (held_count b) = max_ops"
    using nx inv(3) lt slot_index_eq[of "Suc (held_count b)" 0 "unat (out_offs b)"]
    by (cases "held_count b = 9") (auto simp: word_unat_eq_iff)
  show ?thesis
  proof (cases "Suc (held_count b) = max_ops")
    case True
    with False eq show ?thesis by (simp add: held_count_def add_result_def)
  next
    case F: False
    with lt have "Suc (held_count b) < max_ops" by simp
    then show ?thesis
      using False F eq nx inv(3)
      by (subst held_count_def) (auto simp: add_result_def mod_if)
  qed
qed

lemma add_result_inv:
  assumes "ring_inv b"
  shows "ring_inv (add_result b e)"
proof -
  note inv = ring_invD[OF assms]
  have offs: "unat (next_offs x) < max_ops" if "unat x < max_ops" for x
    using that by (simp add: unat_next_offs)
  have rest: "slot (add_result b e) k = null_entry"
    if "held_count (add_result b e) \<le> k" "k < max_ops" for k
    using that inv(6)[of k] full_iff[OF assms]
    by (auto simp: slot_add_result[OF assms] held_count_add_result[OF assms] min_def
        split: if_splits)
  show ?thesis
    unfolding ring_inv_def
    using inv(1-4) rest by (simp add: add_result_def offs)
qed

lemma held_add_result:
  assumes "ring_inv b"
  shows "held (add_result b e) = ring_push (held b) e"
proof (rule nth_equalityI)
  show len: "length (held (add_result b e)) = length (ring_push (held b) e)"
    using held_count_add_result[OF assms] by (simp add: ring_push_def)
  fix k
  assume "k < length (held (add_result b e))"
  then have k: "k < max_ops" "k \<le> held_count b"
    using held_count_add_result[OF assms, of e] by simp_all
  show "held (add_result b e) ! k = ring_push (held b) e ! k"
  proof (cases "full b")
    case True
    then have "held_count b = max_ops" using full_iff[OF assms] by simp
    with True k show ?thesis
      using slot_add_result[OF assms k(1), of e] held_count_add_result[OF assms, of e]
      by (auto simp: nth_held ring_push_def take_last_def nth_append)
  next
    case False
    then have "held_count b < max_ops"
      using full_iff[OF assms] held_count_le[of b] by simp
    with False k show ?thesis
      using slot_add_result[OF assms k(1), of e] held_count_add_result[OF assms, of e]
      by (auto simp: nth_held ring_push_def take_last_def nth_append)
  qed
qed

section \<open>Searching\<close>

lemma locate_Some_iff:
  "locate es off = Some (k, o') \<longleftrightarrow>
     k < length es \<and> o' < unat (entry_size (es ! k)) \<and>
     off = (\<Sum>e\<leftarrow>take k es. unat (entry_size e)) + o'"
proof (induction es arbitrary: off k)
  case Nil
  then show ?case by simp
next
  case (Cons e es)
  show ?case
  proof (cases k)
    case 0
    then show ?thesis by (auto split: option.splits)
  next
    case (Suc k')
    then show ?thesis using Cons.IH[of "off - unat (entry_size e)" k'] by auto
  qed
qed

lemma locate_None_iff:
  "locate es off = None \<longleftrightarrow> (\<Sum>e\<leftarrow>es. unat (entry_size e)) \<le> off"
  by (induction es off rule: locate.induct) auto

lemma locate_append_nulls:
  "list_all (\<lambda>e. entry_size e = 0) ns \<Longrightarrow> locate (es @ ns) off = locate es off"
proof (induction es arbitrary: off)
  case Nil
  then show ?case by (induction ns) auto
qed simp

definition found_at :: "aesd_circular_buffer \<Rightarrow> nat \<times> nat \<Rightarrow> nat \<times> size_t" where
  "found_at b = (\<lambda>(k, o'). ((unat (out_offs b) + k) mod max_ops, word_of_nat o'))"

text \<open>The loop from any slot on is \<open>locate\<close> on the slots not yet looked at.\<close>

lemma find_loop_locate:
  assumes "length (entry b) = max_ops" "count \<le> max_ops"
  shows "find_loop b count ((unat (out_offs b) + count) mod max_ops) left =
    Inr (map_option (\<lambda>(k, o'). found_at b (count + k, o'))
      (locate (map (slot b) [count..<max_ops]) (unat left)))"
  using assms(2)
proof (induction "max_ops - count" arbitrary: count left)
  case 0
  then show ?case by (simp add: find_loop.simps)
next
  case (Suc n)
  then have lt: "count < max_ops" by simp
  let ?i = "(unat (out_offs b) + count) mod max_ops"
  have wrap: "(if ?i = max_ops - 1 then 0 else Suc ?i) = (unat (out_offs b) + Suc count) mod max_ops"
    by (simp add: mod_Suc)
  have get: "get_entry b ?i = Inr (slot b count)"
    using assms(1) by (simp add: get_entry_def slot_def)
  have IH: "find_loop b (Suc count) ((unat (out_offs b) + Suc count) mod max_ops) l =
    Inr (map_option (\<lambda>(k, o'). found_at b (Suc count + k, o'))
      (locate (map (slot b) [Suc count..<max_ops]) (unat l)))" for l
    using Suc.hyps(1)[of "Suc count" l] Suc.hyps(2) lt by simp
  have upt: "[count..<max_ops] = count # [Suc count..<max_ops]"
    using lt by (simp add: upt_conv_Cons)
  show ?case
  proof (cases "left < entry_size (slot b count)")
    case True
    then show ?thesis
      using lt get by (subst find_loop.simps)
        (simp add: upt found_at_def word_less_nat_alt del: upt_Suc)
  next
    case False
    then have "unat (left - entry_size (slot b count)) = unat left - unat (entry_size (slot b count))"
      by (intro unat_sub_le) simp
    with False lt get wrap IH show ?thesis
      by (subst find_loop.simps)
        (simp add: upt word_less_nat_alt option.map_comp comp_def case_prod_unfold del: upt_Suc)
  qed
qed

lemma slots_split: 
  assumes "ring_inv b"
  shows "map (slot b) [0..<max_ops] = held b @ replicate (max_ops - held_count b) null_entry"
proof (rule nth_equalityI)
  show "length (map (slot b) [0..<max_ops]) =
      length (held b @ replicate (max_ops - held_count b) null_entry)"
    using held_count_le[of b] by simp
next
  fix k assume "k < length (map (slot b) [0..<max_ops])"
  then show "map (slot b) [0..<max_ops] ! k =
      (held b @ replicate (max_ops - held_count b) null_entry) ! k"
    using ring_invD(6)[OF assms, of k] by (auto simp: nth_append nth_held simp del: upt_Suc)
qed

lemma find_entry_locate:
  assumes "ring_inv b"
  shows "aesd_circular_buffer_find_entry_offset_for_fpos b off =
    Inr (map_option (found_at b) (locate (held b) (unat off)))"
proof -
  have nulls: "list_all (\<lambda>e. entry_size e = 0) (replicate n null_entry)" for n
    by (simp add: list_all_iff null_entry_def)
  have "find_loop b 0 (unat (out_offs b)) off =
      Inr (map_option (found_at b) (locate (map (slot b) [0..<max_ops]) (unat off)))"
    using find_loop_locate[of b 0 off] ring_invD(1,3)[OF assms] by simp
  then show ?thesis
    by (simp only: slots_split[OF assms] locate_append_nulls[OF nulls]
        aesd_circular_buffer_find_entry_offset_for_fpos_def)
qed

lemma find_loop_Some:
  "find_loop b count index left = Inr (Some (i, r)) \<Longrightarrow>
   \<exists>e. get_entry b i = Inr e \<and> r < entry_size e"
proof (induction b count index left rule: find_loop.induct)
  case (1 b count index left)
  then show ?case
    by (subst (asm) (2) find_loop.simps) (auto simp: bindE_eq_Inr split: if_splits)
qed

section \<open>The buffer as a bounded log\<close>

definition ring_start :: "aesd_circular_buffer \<Rightarrow> bool" where
  "ring_start b \<longleftrightarrow> (\<exists>b0. b = aesd_circular_buffer_init b0)"

definition ring_adds :: "aesd_circular_buffer \<Rightarrow> aesd_buffer_entry \<Rightarrow> aesd_circular_buffer \<Rightarrow> bool" where
  "ring_adds b e b' \<longleftrightarrow> (\<exists>r. aesd_circular_buffer_add_entry b e = Inr (r, b'))"

lemma ring_addsD:
  assumes "ring_inv b" "ring_adds b e b'"
  shows "b' = add_result b e"
  using assms by (auto simp: ring_adds_def add_entry_eq)

interpretation ring_log: bounded_log max_ops ring_start ring_inv held ring_adds
proof unfold_locales
  fix b e b'
  show "ring_inv b \<Longrightarrow> ring_adds b e b' \<Longrightarrow> ring_inv b'"
    using ring_addsD add_result_inv by blast
  show "ring_inv b \<Longrightarrow> ring_adds b e b' \<Longrightarrow> held b' = take_last max_ops (held b @ [e])"
    using ring_addsD held_add_result by (force simp: ring_push_def)
qed (auto simp: ring_start_def init_inv init_held)

lemma ring_adds_run: "ring_inv b \<Longrightarrow> \<exists>b'. append_run ring_adds b es b'"
proof (induction es arbitrary: b)
  case Nil
  then show ?case by simp
next
  case (Cons e es)
  then have "ring_adds b e (add_result b e)" by (simp add: ring_adds_def add_entry_eq)
  with Cons.IH[OF add_result_inv[OF Cons.prems]] show ?case by (metis append_run.simps(2))
qed

text \<open>The states the functions of the file can produce from an initialised buffer.\<close>

inductive ring_reachable :: "aesd_circular_buffer \<Rightarrow> bool" where
  initialised: "ring_reachable (aesd_circular_buffer_init b)"
| added: "ring_reachable b \<Longrightarrow> aesd_circular_buffer_add_entry b e = Inr (r, b') \<Longrightarrow> ring_reachable b'"
| removed: "ring_reachable b \<Longrightarrow> aesd_circular_buffer_remove_entry b = (p, b') \<Longrightarrow> ring_reachable b'"

lemma remove_entry_inv:
  "ring_inv b \<Longrightarrow> aesd_circular_buffer_remove_entry b = (None, b)"
  by (simp add: aesd_circular_buffer_remove_entry_def ring_invD)

lemma ring_reachable_inv: "ring_reachable b \<Longrightarrow> ring_inv b"
proof (induction rule: ring_reachable.induct)
  case (initialised b)
  show ?case by (rule init_inv)
next
  case (added b e r b')
  then show ?case by (auto simp: add_entry_eq add_result_inv)
next
  case (removed b p b')
  then show ?case by (simp add: remove_entry_inv)
qed

lemma ring_reachable_add: "ring_reachable b \<Longrightarrow> ring_reachable (add_result b e)"
  using ring_reachable.added[OF _ add_entry_eq[OF ring_reachable_inv]] by blast

section \<open>Properties\<close>

text \<open>A buffer used by the examples: two entries of three and five bytes were added.\<close>

definition ring_ex :: aesd_circular_buffer where
  "ring_ex = add_result (add_result (aesd_circular_buffer_init undefined)
     \<lparr>buffptr = Some 1, entry_size = 3\<rparr>) \<lparr>buffptr = Some 2, entry_size = 5\<rparr>"

lemma ring_ex_inv: "ring_inv ring_ex"
  by (simp add: ring_ex_def add_result_inv init_inv)

lemma ring_ex_held:
  "held ring_ex = [\<lparr>buffptr = Some 1, entry_size = 3\<rparr>, \<lparr>buffptr = Some 2, entry_size = 5\<rparr>]"
  by (simp add: ring_ex_def held_add_result add_result_inv init_inv init_held ring_push_def)

text \<open>
  C14. Adding an entry never leaves the array, keeps the buffer's invariant, appends the entry
  to the queue of entries held and drops the oldest one exactly when ten are held; the pointer
  returned is the dropped entry's buffer, and NULL when nothing is dropped.
\<close>

theorem add_entry_refines_push:
  assumes "ring_inv b"
  shows "\<exists>b'. aesd_circular_buffer_add_entry b e =
      Inr (if length (held b) = max_ops then buffptr (hd (held b)) else None, b') \<and>
    ring_inv b' \<and> held b' = ring_push (held b) e"
  using add_entry_eq[OF assms, of e] add_result_inv[OF assms, of e] held_add_result[OF assms, of e]
    full_iff[OF assms] by auto

theorem add_entry_refines_push_witness:
  "\<exists>b'. aesd_circular_buffer_add_entry ring_ex \<lparr>buffptr = Some 7, entry_size = 2\<rparr> = Inr (None, b') \<and>
    ring_inv b' \<and>
    held b' = [\<lparr>buffptr = Some 1, entry_size = 3\<rparr>, \<lparr>buffptr = Some 2, entry_size = 5\<rparr>,
               \<lparr>buffptr = Some 7, entry_size = 2\<rparr>]"
  using add_entry_refines_push[OF ring_ex_inv, of "\<lparr>buffptr = Some 7, entry_size = 2\<rparr>"]
  by (simp only: ring_ex_held) (simp add: ring_push_def)

text \<open>
  C15. The search for a character position is the search in the concatenation of the entries
  held, oldest first: it finds an entry exactly when the position is below the total size, and
  then returns the slot of the entry that covers the position and the offset inside it.
\<close>

theorem find_entry_correct:
  assumes "ring_inv b"
  shows "case aesd_circular_buffer_find_entry_offset_for_fpos b off of
      Inl f \<Rightarrow> False
    | Inr None \<Rightarrow> (\<Sum>e\<leftarrow>held b. unat (entry_size e)) \<le> unat off
    | Inr (Some (i, r)) \<Rightarrow>
        (\<exists>k < length (held b). get_entry b i = Inr (held b ! k) \<and>
           r < entry_size (held b ! k) \<and>
           unat off = (\<Sum>e\<leftarrow>take k (held b). unat (entry_size e)) + unat r)"
proof (cases "locate (held b) (unat off)")
  case None
  then have "(\<Sum>e\<leftarrow>held b. unat (entry_size e)) \<le> unat off"
    by (simp only: locate_None_iff)
  with None show ?thesis by (simp add: find_entry_locate[OF assms])
next
  case (Some kn)
  then obtain k n where loc: "locate (held b) (unat off) = Some (k, n)" by (cases kn) simp
  then have k: "k < length (held b)" and n: "n < unat (entry_size (held b ! k))"
    and off: "unat off = (\<Sum>e\<leftarrow>take k (held b). unat (entry_size e)) + n"
    by (auto simp: locate_Some_iff)
  have r: "unat (word_of_nat n :: size_t) = n"
    using n less_trans[OF _ unat_less_pow] by (simp add: unat_of_nat_64)
  have "get_entry b ((unat (out_offs b) + k) mod max_ops) = Inr (held b ! k)"
    using k ring_invD(1)[OF assms] by (simp add: get_entry_def nth_held slot_def)
  then show ?thesis
    using loc k n off r
    by (auto simp: find_entry_locate[OF assms] found_at_def word_less_nat_alt intro!: exI[of _ k])
qed

theorem find_entry_correct_witness:
  "aesd_circular_buffer_find_entry_offset_for_fpos ring_ex 4 = Inr (Some (1, 1)) \<and>
   get_entry ring_ex 1 = Inr (held ring_ex ! 1) \<and>
   (\<exists>k < length (held ring_ex). get_entry ring_ex 1 = Inr (held ring_ex ! k) \<and>
      (1 :: size_t) < entry_size (held ring_ex ! k) \<and>
      unat (4 :: size_t) = (\<Sum>e\<leftarrow>take k (held ring_ex). unat (entry_size e)) + unat (1 :: size_t))"
proof -
  have "out_offs ring_ex = 0"
    by (simp add: ring_ex_def add_result_def aesd_circular_buffer_init_def next_offs_def)
  then have f: "aesd_circular_buffer_find_entry_offset_for_fpos ring_ex 4 = Inr (Some (1, 1))"
    by (simp add: find_entry_locate[OF ring_ex_inv] ring_ex_held found_at_def)
  moreover have "get_entry ring_ex 1 = Inr (held ring_ex ! 1)"
    by (simp add: ring_ex_held)
      (simp add: get_entry_def ring_ex_def add_result_def aesd_circular_buffer_init_def next_offs_def
        null_entry_def)
  ultimately show ?thesis
    using find_entry_correct[OF ring_ex_inv, of 4] by simp
qed

text \<open>
  Whatever was added to a freshly initialised buffer, it holds the last ten entries added,
  in order.
\<close>

theorem ring_keeps_last_ten:
  "append_run ring_adds (aesd_circular_buffer_init b) es b' \<Longrightarrow> held b' = take_last max_ops es"
  by (rule ring_log.run_view) (auto simp: ring_start_def)

theorem ring_keeps_last_ten_witness:
  "\<exists>b'. append_run ring_adds (aesd_circular_buffer_init undefined) (replicate 11 \<lparr>buffptr = Some 1, entry_size = 3\<rparr>) b'
    \<and> held b' = replicate 10 \<lparr>buffptr = Some 1, entry_size = 3\<rparr>"
proof -
  let ?e = "\<lparr>buffptr = Some 1, entry_size = 3\<rparr>"
  obtain b' where run: "append_run ring_adds (aesd_circular_buffer_init undefined) (replicate 11 ?e) b'"
    using ring_adds_run[OF init_inv] by blast
  have "held b' = replicate 10 ?e"
    using ring_keeps_last_ten[OF run] by (simp add: take_last_def numeral_eq_Suc)
  with run show ?thesis by blast
qed

text \<open>
  C34. In every state the functions can produce, the flag \<open>empty\<close> is false, also when the buffer
  holds nothing, so removing an entry returns NULL and changes nothing, also when the buffer
  holds entries.
\<close>

theorem remove_entry_never_removes:
  assumes "ring_reachable b"
  shows "\<not> empty b \<and> aesd_circular_buffer_remove_entry b = (None, b)"
  using ring_reachable_inv[OF assms] remove_entry_inv ring_invD(5) by blast

theorem remove_entry_never_removes_witness:
  "held ring_ex \<noteq> [] \<and> \<not> empty ring_ex \<and> aesd_circular_buffer_remove_entry ring_ex = (None, ring_ex)"
proof -
  have "ring_reachable ring_ex"
    unfolding ring_ex_def by (intro ring_reachable_add ring_reachable.initialised)
  then show ?thesis using remove_entry_never_removes ring_ex_held by simp
qed

lemma c_string_ok_iff: "(\<exists>s. c_string bs = Inr s) \<longleftrightarrow> 0 \<in> set bs"
  by (induction bs) (auto simp: bindE_eq_Inr)

lemma foreach_entry_ok_iff:
  "\<forall>i \<in> set is. i < length (entry b) \<Longrightarrow>
   (\<exists>xs. foreach_entry b is body = Inr xs) \<longleftrightarrow> (\<forall>i \<in> set is. \<exists>x. body i (entry b ! i) = Inr x)"
  by (induction "is") (auto simp: bindE_eq_Inr get_entry_def)

text \<open>
  C35. The debug print returns exactly when every buffer in the array is an allocated block
  with a NUL byte in it; a buffer without one, as the driver stores them, is read past its end.
\<close>

theorem buffer_print_returns_iff:
  assumes "length (entry b) = max_ops"
  shows "(\<exists>out. aesd_buffer_print h b = Inr out) \<longleftrightarrow>
    (\<forall>i < max_ops. \<forall>a. buffptr (entry b ! i) = Some a \<longrightarrow> (\<exists>blk. h a = Some blk \<and> 0 \<in> set blk))"
proof -
  have "(\<exists>x. print_entry h i e = Inr x) \<longleftrightarrow>
      (\<forall>a. buffptr e = Some a \<longrightarrow> (\<exists>blk. h a = Some blk \<and> 0 \<in> set blk))" for i e
    by (auto simp: print_entry_def read_c_string_def bindE_eq_Inr c_string_ok_iff
        split: option.splits)
  moreover have "(\<exists>out. aesd_buffer_print h b = Inr out) \<longleftrightarrow>
      (\<exists>xs. foreach_entry b [0..<max_ops] (print_entry h) = Inr xs)"
    by (simp add: aesd_buffer_print_def bindE_eq_Inr)
  ultimately show ?thesis
    using foreach_entry_ok_iff[of "[0..<max_ops]" b "print_entry h"] assms
    by (simp add: Ball_def del: upt_Suc)
qed

theorem buffer_print_returns_iff_witness:
  "\<not> (\<exists>out. aesd_buffer_print [1 \<mapsto> [104, 105, 10], 2 \<mapsto> [98, 111, 111, 107, 10]] ring_ex = Inr out)"
proof -
  have len: "length (entry ring_ex) = max_ops"
    using ring_ex_inv by (rule ring_invD)
  have "buffptr (entry ring_ex ! 0) = Some 1"
    by (simp add: ring_ex_def add_result_def aesd_circular_buffer_init_def next_offs_def)
  then show ?thesis
    unfolding buffer_print_returns_iff[OF len] by (intro notI) (drule spec[of _ 0], simp)
qed

end
