(* ===== verification/Aesd_Driver.thy ===== *)
theory Aesd_Driver
  imports Circular_Buffer
begin

text \<open>
  The character driver of \<^verbatim>\<open>aesd-char-driver/main.c\<close> over the circular buffer: open, release,
  read, write, module initialisation and clean-up, with every error path, and the memory the
  driver allocates. The kernel's answers (the mutex, the allocator, the copies between user and
  kernel space, the registration calls) are arguments of the handlers.
\<close>

section \<open>State\<close>

text \<open>Kernel error numbers.\<close>

definition ERESTARTSYS :: int where "ERESTARTSYS = 512"
definition ENOMEM :: int where "ENOMEM = 12"
definition EFAULT :: int where "EFAULT = 14"

text \<open>
  The embedded \<open>struct cdev\<close>: whether its operations table is \<open>aesd_fops\<close> and whether the
  kernel has it registered.
\<close>

record cdev_struct =
  fops_set :: bool
  cdev_added :: bool

record aesd_dev =
  cdev :: cdev_struct
  buffer :: aesd_circular_buffer
  entry_temp :: aesd_buffer_entry
  buffer_lock :: bool

text \<open>
  The driver's world: its one device, the blocks it has allocated, its major number and
  whether its device number region is registered.
\<close>

record driver = aesd_dev +
  mem :: memory
  aesd_major :: nat
  region :: bool

text \<open>There is one device, so a pointer to a device is NULL or that device's.\<close>

datatype dev_ref = Aesd_device

record inode =
  i_cdev :: dev_ref

record filp =
  private_data :: "dev_ref option"

text \<open>
  The kernel as seen by one call: the result of \<open>mutex_lock_interruptible\<close>, the allocator's
  answer to a request, and the number of bytes that \<open>copy_from_user\<close> (given the length) and
  \<open>copy_to_user\<close> (given the offset in the user's buffer and the length) leave uncopied.
  \<open>kernel_ok\<close> states what these functions document.
\<close>

record kernel =
  lock_rv :: int
  kmalloc :: "memory \<Rightarrow> size_t \<Rightarrow> alloc_answer"
  copy_from_user :: "size_t \<Rightarrow> size_t"
  copy_to_user :: "size_t \<Rightarrow> size_t \<Rightarrow> size_t"

definition kernel_ok :: "kernel \<Rightarrow> bool" where
  "kernel_ok k \<longleftrightarrow>
     (\<forall>h n. alloc_ok h (unat n) (kmalloc k h n)) \<and>
     (\<forall>n. copy_from_user k n \<le> n) \<and> (\<forall>off n. copy_to_user k off n \<le> n)"

section \<open>Locking, open and release\<close>

definition get_lock :: "kernel \<Rightarrow> driver \<Rightarrow> fault + int \<times> driver" where
  "get_lock k s =
     (let return_value = lock_rv k
      in if return_value \<noteq> 0 then Inr (- ERESTARTSYS, s)
         else if buffer_lock s then Inl LockMisuse
         else Inr (0, s\<lparr>buffer_lock := True\<rparr>))"

definition release_lock :: "driver \<Rightarrow> fault + driver" where
  "release_lock s =
     (if buffer_lock s then Inr (s\<lparr>buffer_lock := False\<rparr>) else Inl LockMisuse)"

definition aesd_open :: "inode \<Rightarrow> filp \<Rightarrow> int \<times> filp" where
  "aesd_open inode filp = (0, filp\<lparr>private_data := Some (i_cdev inode)\<rparr>)"

definition aesd_release :: "inode \<Rightarrow> filp \<Rightarrow> int" where
  "aesd_release inode filp = 0"

section \<open>Reading\<close>

text \<open>
  The copy loop. \<open>out\<close> is what the user's buffer has received. The result is a flag for the
  early return on a failed copy, the final \<open>bytes_read\<close> and the user's bytes; a failed copy
  still delivers the bytes it could copy.
\<close>

lemma bytes_to_copy_progress:
  fixes count bytes_read n :: size_t
  assumes "bytes_read < count" "0 < n" "n \<le> count - bytes_read"
  shows "unat (bytes_read + n) = unat bytes_read + unat n" "bytes_read + n \<le> count"
proof -
  have c: "unat (count - bytes_read) = unat count - unat bytes_read"
    using assms(1) by (intro unat_sub_le) simp
  with assms have n: "unat n \<le> unat count - unat bytes_read" "unat bytes_read < unat count"
    by (simp_all add: word_le_nat_alt word_less_nat_alt)
  with unat_less_pow[of count] show s: "unat (bytes_read + n) = unat bytes_read + unat n"
    by (intro unat_add_64) simp
  with n show "bytes_read + n \<le> count" by (simp add: word_le_nat_alt)
qed

definition bytes_to_copy :: "size_t \<Rightarrow> size_t \<Rightarrow> size_t \<Rightarrow> size_t" where
  "bytes_to_copy entry_bytes count bytes_read =
     (if entry_bytes \<ge> count - bytes_read then count - bytes_read else entry_bytes)"

lemma bytes_to_copy_bounds:
  assumes "bytes_read < count" "r < e"
  shows "0 < bytes_to_copy (e - r) count bytes_read"
    "bytes_to_copy (e - r) count bytes_read \<le> count - bytes_read"
  using assms
  by (auto simp: bytes_to_copy_def word_gt_0 not_le)

function read_loop ::
  "kernel \<Rightarrow> driver \<Rightarrow> size_t \<Rightarrow> loff_t \<Rightarrow> size_t \<Rightarrow> byte list \<Rightarrow> fault + bool \<times> size_t \<times> byte list"
where
  "read_loop k s count f_pos bytes_read out =
     (if bytes_read < count
      then bindE (aesd_circular_buffer_find_entry_offset_for_fpos (buffer s) (f_pos + bytes_read))
             (\<lambda>read_pointer.
               case read_pointer of
                 None \<Rightarrow> Inr (True, bytes_read, out)
               | Some (i, char_returned) \<Rightarrow>
                   bindE (get_entry (buffer s) i) (\<lambda>e.
                   let n = bytes_to_copy (entry_size e - char_returned) count bytes_read;
                       bytes_not_copied = copy_to_user k bytes_read n
                   in bindE (mem_read (mem s) (buffptr e) (unat char_returned) (unat n)) (\<lambda>bs.
                      if bytes_not_copied > 0
                      then Inr (False, bytes_read, out @ take (unat n - unat bytes_not_copied) bs)
                      else read_loop k s count f_pos (bytes_read + n) (out @ bs))))
      else Inr (True, bytes_read, out))"
  by pat_completeness auto
termination
proof (relation "measure (\<lambda>(k, s, count, f_pos, bytes_read, out). unat count - unat bytes_read)",
    goal_cases)
  case 1
  then show ?case by simp
next
  case (2 k s count f_pos bytes_read out read_pointer p i char_returned e n unc bs)
  from 2 have "char_returned < entry_size e"
    using find_loop_Some[of "buffer s" 0 _ _ i char_returned]
    by (fastforce simp: aesd_circular_buffer_find_entry_offset_for_fpos_def)
  with 2(1) have "0 < n" "n \<le> count - bytes_read"
    unfolding 2(6) by (rule bytes_to_copy_bounds)+
  from bytes_to_copy_progress[OF 2(1) this] this(1) 2(1) show ?case
    by (simp add: word_less_nat_alt)
qed

declare read_loop.simps [simp del]

text \<open>
  The result is the return value, the bytes delivered to the user, the new file position and
  the new state.
\<close>

definition aesd_read ::
  "kernel \<Rightarrow> driver \<Rightarrow> filp \<Rightarrow> size_t \<Rightarrow> loff_t \<Rightarrow> fault + int \<times> byte list \<times> loff_t \<times> driver" where
  "aesd_read k s filp count f_pos =
     (case private_data filp of
        None \<Rightarrow> Inl NullDeref
      | Some Aesd_device \<Rightarrow>
          bindE (get_lock k s) (\<lambda>(get_lock_rv, s1).
          if get_lock_rv \<noteq> 0 then Inr (- ERESTARTSYS, [], f_pos, s1)
          else bindE (read_loop k s1 count f_pos 0 []) (\<lambda>(copied, bytes_read, out).
            bindE (release_lock s1) (\<lambda>s2.
              if copied then Inr (sint bytes_read, out, f_pos + bytes_read, s2)
              else Inr (- EFAULT, out, f_pos, s2)))))"

section \<open>Writing\<close>

text \<open>
  \<open>copy_from_user\<close> into the block at an offset: what cannot be copied is zero-filled by the
  kernel, so the whole range is written.
\<close>

definition copy_in ::
  "kernel \<Rightarrow> memory \<Rightarrow> ptr \<Rightarrow> nat \<Rightarrow> byte list \<Rightarrow> size_t \<Rightarrow> fault + size_t \<times> memory" where
  "copy_in k m dst off buf n =
     (let unc = copy_from_user k n
      in bindE (mem_write m dst off (take (unat n - unat unc) buf @ replicate (unat unc) 0))
           (\<lambda>m'. Inr (unc, m')))"

text \<open>
  The last part of the handler, run when the working entry is complete: it goes into the
  circular buffer, the working entry is reset, and the block of the entry that fell out of a
  full buffer is freed.
\<close>

definition write_complete_entry :: "driver \<Rightarrow> fault + driver" where
  "write_complete_entry s =
     bindE (aesd_circular_buffer_add_entry (buffer s) (entry_temp s)) (\<lambda>(overwritten_entry, b).
     let s1 = s\<lparr>buffer := b, entry_temp := \<lparr>buffptr = None, entry_size = 0\<rparr>\<rparr>
     in if overwritten_entry \<noteq> None
        then bindE (mem_free (mem s1) overwritten_entry) (\<lambda>m. Inr (s1\<lparr>mem := m\<rparr>))
        else Inr s1)"

definition aesd_write ::
  "kernel \<Rightarrow> driver \<Rightarrow> filp \<Rightarrow> byte list \<Rightarrow> size_t \<Rightarrow> fault + int \<times> driver" where
  "aesd_write k s filp buf count =
     (case private_data filp of
        None \<Rightarrow> Inl NullDeref
      | Some Aesd_device \<Rightarrow>
          bindE (get_lock k s) (\<lambda>(get_lock_rv, s1).
          if get_lock_rv \<noteq> 0 then Inr (- ERESTARTSYS, s1)
          else
            let temp = entry_temp s1;
                (new_buffer, m1) =
                  mem_alloc (mem s1)
                    (kmalloc k (mem s1)
                      (if buffptr temp = None then count else entry_size temp + count))
            in if new_buffer = None
               then bindE (release_lock (s1\<lparr>mem := m1\<rparr>)) (\<lambda>s2. Inr (- ENOMEM, s2))
               else
                 bindE (if buffptr temp \<noteq> None
                        then bindE (mem_read m1 (buffptr temp) 0 (unat (entry_size temp)))
                               (\<lambda>old. mem_write m1 new_buffer 0 old)
                        else Inr m1) (\<lambda>m2.
                 bindE (copy_in k m2 new_buffer (unat (entry_size temp)) buf count)
                   (\<lambda>(bytes_not_copied, m3).
                 if bytes_not_copied > 0
                 then bindE (release_lock (s1\<lparr>mem := m3\<rparr>)) (\<lambda>s2.
                      bindE (mem_free (mem s2) new_buffer) (\<lambda>m4.
                      Inr (- EFAULT, s2\<lparr>mem := m4\<rparr>)))
                 else
                   bindE (if buffptr temp \<noteq> None then mem_free m3 (buffptr temp) else Inr m3)
                     (\<lambda>m4.
                   let s2 = s1\<lparr>mem := m4,
                               entry_temp := \<lparr>buffptr = new_buffer,
                                              entry_size = entry_size temp + count\<rparr>\<rparr>
                   in bindE (mem_read (mem s2) (buffptr (entry_temp s2))
                               (unat (entry_size (entry_temp s2) - 1)) 1) (\<lambda>end_char.
                      bindE (if end_char = [newline] then write_complete_entry s2 else Inr s2)
                        (\<lambda>s3.
                      bindE (release_lock s3) (\<lambda>s4. Inr (sint count, s4))))))))
    )"

section \<open>Module initialisation and clean-up\<close>

text \<open>
  The arguments \<open>region_rv\<close>, \<open>major\<close> and \<open>add_rv\<close> are the results of
  \<open>alloc_chrdev_region\<close>, of \<open>MAJOR\<close> on the region it returns, and of \<open>cdev_add\<close>.
\<close>

definition aesd_setup_cdev :: "int \<Rightarrow> driver \<Rightarrow> int \<times> driver" where
  "aesd_setup_cdev add_rv s =
     (let err = add_rv
      in (err, s\<lparr>cdev := \<lparr>fops_set = True, cdev_added = (err = 0)\<rparr>\<rparr>))"

definition aesd_init_module :: "int \<Rightarrow> nat \<Rightarrow> int \<Rightarrow> driver \<Rightarrow> int \<times> driver" where
  "aesd_init_module region_rv major add_rv s =
     (let s1 = s\<lparr>aesd_major := major\<rparr>
      in if region_rv < 0 then (region_rv, s1)
         else
           let s2 = s1\<lparr>region := True,
                       cdev := \<lparr>fops_set = False, cdev_added = False\<rparr>,
                       buffer := aesd_circular_buffer_init (buffer s1),
                       entry_temp := \<lparr>buffptr = None, entry_size = 0\<rparr>,
                       buffer_lock := False\<rparr>;
               (result, s3) = aesd_setup_cdev add_rv s2
           in if result \<noteq> 0 then (result, s3\<lparr>region := False\<rparr>) else (result, s3))"

text \<open>The loop that is meant to free the entries of the buffer.\<close>

function cleanup_loop :: "driver \<Rightarrow> fault + driver" where
  "cleanup_loop s =
     (if \<not> empty (buffer s)
      then (case aesd_circular_buffer_remove_entry (buffer s) of
              (None, b) \<Rightarrow> Inr (s\<lparr>buffer := b\<rparr>)
            | (Some i, b) \<Rightarrow>
                bindE (get_entry b i) (\<lambda>e.
                bindE (if buffptr e \<noteq> None then mem_free (mem s) (buffptr e) else Inr (mem s)) (\<lambda>m.
                cleanup_loop (s\<lparr>buffer := b, mem := m\<rparr>))))
      else Inr s)"
  by pat_completeness auto
termination
  by (relation "measure (\<lambda>s. 0)")
    (auto simp: aesd_circular_buffer_remove_entry_def Let_def split: if_splits)

declare cleanup_loop.simps [simp del]

definition aesd_cleanup_module :: "driver \<Rightarrow> fault + driver" where
  "aesd_cleanup_module s =
     (let s1 = s\<lparr>cdev := (cdev s)\<lparr>cdev_added := False\<rparr>\<rparr>
      in bindE (cleanup_loop s1) (\<lambda>s2.
         let s3 = s2\<lparr>buffer := aesd_circular_buffer_init (buffer s2)\<rparr>
         in bindE (if buffptr (entry_temp s3) \<noteq> None
                   then bindE (mem_free (mem s3) (buffptr (entry_temp s3))) (\<lambda>m.
                        Inr (s3\<lparr>mem := m, entry_temp := (entry_temp s3)\<lparr>buffptr := None\<rparr>\<rparr>))
                   else Inr s3) (\<lambda>s4.
            Inr (s4\<lparr>entry_temp := (entry_temp s4)\<lparr>entry_size := 0\<rparr>, region := False\<rparr>))))"

section \<open>Invariant and abstraction\<close>

definition contents :: "memory \<Rightarrow> aesd_buffer_entry \<Rightarrow> byte list" where
  "contents m e = (case buffptr e of None \<Rightarrow> [] | Some a \<Rightarrow> (case m a of None \<Rightarrow> [] | Some blk \<Rightarrow> blk))"

definition entry_ok :: "memory \<Rightarrow> aesd_buffer_entry \<Rightarrow> bool" where
  "entry_ok m e \<longleftrightarrow>
     (\<exists>a blk. buffptr e = Some a \<and> m a = Some blk \<and> length blk = unat (entry_size e) \<and> blk \<noteq> [])"

text \<open>The blocks the driver owns: those of the entries held and that of the working entry.\<close>

definition owned_of :: "aesd_circular_buffer \<Rightarrow> aesd_buffer_entry \<Rightarrow> addr list" where
  "owned_of b temp = map (the \<circ> buffptr) (held b) @ (case buffptr temp of None \<Rightarrow> [] | Some a \<Rightarrow> [a])"

abbreviation owned :: "driver \<Rightarrow> addr list" where
  "owned s \<equiv> owned_of (buffer s) (entry_temp s)"

text \<open>
  Every entry held is a line (it ends with a newline), the working entry is empty or holds
  some bytes, no two of them share a block, and the blocks allocated are exactly those: nothing
  is leaked and nothing owned is freed.
\<close>

definition store_inv :: "aesd_circular_buffer \<Rightarrow> aesd_buffer_entry \<Rightarrow> memory \<Rightarrow> bool" where
  "store_inv b temp m \<longleftrightarrow>
     ring_inv b \<and>
     (\<forall>e \<in> set (held b). entry_ok m e \<and> last (contents m e) = newline) \<and>
     (temp = null_entry \<or> entry_ok m temp) \<and>
     distinct (owned_of b temp) \<and> dom m = set (owned_of b temp)"

text \<open>Between calls the mutex is free and the working entry is a proper beginning of a line.\<close>

definition dev_inv :: "driver \<Rightarrow> bool" where
  "dev_inv s \<longleftrightarrow>
     store_inv (buffer s) (entry_temp s) (mem s) \<and>
     (entry_temp s = null_entry \<or> last (contents (mem s) (entry_temp s)) \<noteq> newline) \<and>
     \<not> buffer_lock s"

text \<open>The abstract state: the complete lines kept and the line being written.\<close>

definition held_lines :: "driver \<Rightarrow> byte list list" where
  "held_lines s = map (contents (mem s)) (held (buffer s))"

definition pending :: "driver \<Rightarrow> byte list" where
  "pending s = contents (mem s) (entry_temp s)"

definition spec_write :: "byte list list \<times> byte list \<Rightarrow> byte list \<Rightarrow> byte list list \<times> byte list" where
  "spec_write = (\<lambda>(ls, p) data.
     if last (p @ data) = newline then (ring_push ls (p @ data), []) else (ls, p @ data))"

section \<open>Lemmas on the store\<close>

lemma contents_upd: "buffptr e \<noteq> Some a \<Longrightarrow> contents (m(a := x)) e = contents m e"
  by (auto simp: contents_def split: option.splits)

lemma contents_Some: "buffptr e = Some a \<Longrightarrow> m a = Some blk \<Longrightarrow> contents m e = blk"
  by (simp add: contents_def)

lemma contents_null [simp]: "contents m null_entry = []"
  by (simp add: contents_def null_entry_def)

lemma buffptr_null [simp]: "buffptr null_entry = None" "entry_size null_entry = 0"
  by (simp_all add: null_entry_def)

lemma entry_ok_upd: "buffptr e \<noteq> Some a \<Longrightarrow> entry_ok (m(a := x)) e = entry_ok m e"
  by (auto simp: entry_ok_def)

lemma entry_okE:
  assumes "entry_ok m e"
  obtains a where "buffptr e = Some a" "m a = Some (contents m e)"
    "length (contents m e) = unat (entry_size e)" "contents m e \<noteq> []"
  using assms by (auto simp: entry_ok_def contents_def)

lemma store_invD:
  assumes "store_inv b temp m"
  shows "ring_inv b" "e \<in> set (held b) \<Longrightarrow> entry_ok m e"
    "e \<in> set (held b) \<Longrightarrow> last (contents m e) = newline"
    "temp = null_entry \<or> entry_ok m temp"
    "distinct (owned_of b temp)" "dom m = set (owned_of b temp)"
  using assms by (auto simp: store_inv_def)

lemma held_owned: "e \<in> set (held b) \<Longrightarrow> buffptr e = Some a \<Longrightarrow> a \<in> set (owned_of b temp)"
  by (force simp: owned_of_def)

lemma temp_not_held:
  assumes "store_inv b temp m" "buffptr temp = Some a" "e \<in> set (held b)"
  shows "buffptr e \<noteq> Some a"
  using store_invD(5)[OF assms(1)] assms(2,3) by (force simp: owned_of_def)

text \<open>The working entry's size is the length of its contents, empty or not.\<close>

lemma temp_length:
  assumes "store_inv b temp m"
  shows "length (contents m temp) = unat (entry_size temp)"
  using store_invD(4)[OF assms] by (auto elim: entry_okE)

text \<open>Replacing the working entry by a new block.\<close>

definition swap_temp :: "memory \<Rightarrow> ptr \<Rightarrow> addr \<Rightarrow> byte list \<Rightarrow> memory" where
  "swap_temp m old a bs = (case old of None \<Rightarrow> m(a \<mapsto> bs) | Some a0 \<Rightarrow> (m(a \<mapsto> bs))(a0 := None))"

lemma swap_temp_held:
  assumes "store_inv b temp m" "m a = None" "e \<in> set (held b)"
  shows "contents (swap_temp m (buffptr temp) a bs) e = contents m e"
    "entry_ok (swap_temp m (buffptr temp) a bs) e"
proof -
  from store_invD(2)[OF assms(1,3)] obtain c where c: "buffptr e = Some c" "m c \<noteq> None"
    by (auto elim: entry_okE)
  with assms(2) have "buffptr e \<noteq> Some a" by auto
  with temp_not_held[OF assms(1) _ assms(3)] store_invD(2)[OF assms(1,3)]
  show "contents (swap_temp m (buffptr temp) a bs) e = contents m e"
    "entry_ok (swap_temp m (buffptr temp) a bs) e"
    by (auto simp: swap_temp_def contents_upd entry_ok_upd split: option.splits)
qed

lemma swap_temp_inv:
  assumes "store_inv b temp m" "m a = None" "length bs = unat sz" "bs \<noteq> []"
  shows "store_inv b \<lparr>buffptr = Some a, entry_size = sz\<rparr> (swap_temp m (buffptr temp) a bs)"
    and "contents (swap_temp m (buffptr temp) a bs) \<lparr>buffptr = Some a, entry_size = sz\<rparr> = bs"
proof -
  let ?m = "swap_temp m (buffptr temp) a bs" and ?t = "\<lparr>buffptr = Some a, entry_size = sz\<rparr>"
  have fresh: "a \<notin> set (owned_of b temp)"
    using assms(2) store_invD(6)[OF assms(1)] by auto
  then have "buffptr temp \<noteq> Some a" by (auto simp: owned_of_def)
  then have ma: "?m a = Some bs" by (auto simp: swap_temp_def split: option.splits)
  then show "contents ?m ?t = bs" by (simp add: contents_def)
  have "entry_ok ?m ?t" using ma assms(3,4) by (simp add: entry_ok_def)
  moreover have "distinct (owned_of b ?t)"
    using store_invD(5)[OF assms(1)] fresh by (auto simp: owned_of_def)
  moreover have "dom ?m = set (owned_of b ?t)"
    using store_invD(5,6)[OF assms(1)] fresh
    by (auto simp: owned_of_def swap_temp_def split: option.splits)
  ultimately show "store_inv b ?t ?m"
    using store_invD(1,3)[OF assms(1)] swap_temp_held[OF assms(1,2)] by (simp add: store_inv_def)
qed

section \<open>Completing an entry\<close>

text \<open>The memory after the oldest entry of a full buffer was dropped.\<close>

definition evict :: "aesd_circular_buffer \<Rightarrow> memory \<Rightarrow> memory" where
  "evict b m = (if full b then m(the (buffptr (hd (held b))) := None) else m)"

lemma full_held:
  assumes "ring_inv b" "full b"
  obtains e es where "held b = e # es" "length es = max_ops - 1"
  using full_iff[OF assms(1)] assms(2) length_held[of b] by (cases "held b") auto

lemma held_add_full:
  assumes "ring_inv b" "full b"
  shows "held (add_result b x) = tl (held b) @ [x]"
proof -
  from full_held[OF assms] obtain e es where "held b = e # es" "length es = max_ops - 1" by metis
  then show ?thesis by (simp add: held_add_result[OF assms(1)] ring_push_def take_last_def)
qed

lemma held_add_free:
  "ring_inv b \<Longrightarrow> \<not> full b \<Longrightarrow> held (add_result b x) = held b @ [x]"
  using full_iff[of b] held_count_le[of b] by (simp add: held_add_result ring_push_def)

lemma write_complete_entry_eq:
  assumes "store_inv (buffer s) (entry_temp s) (mem s)"
  shows "write_complete_entry s =
    Inr (s\<lparr>buffer := add_result (buffer s) (entry_temp s), entry_temp := null_entry,
           mem := evict (buffer s) (mem s)\<rparr>)"
proof -
  note inv = store_invD[OF assms]
  show ?thesis
  proof (cases "full (buffer s)")
    case True
    with inv(1) obtain e es where h: "held (buffer s) = e # es" by (rule full_held)
    with inv(2)[of e] obtain a where a: "buffptr e = Some a" "mem s a = Some (contents (mem s) e)"
      by (auto elim: entry_okE)
    with True h inv(1) show ?thesis
      by (simp add: write_complete_entry_def add_entry_eq evict_def mem_free_Some null_entry_def)
  next
    case False
    with inv(1) show ?thesis
      by (simp add: write_complete_entry_def add_entry_eq evict_def null_entry_def)
  qed
qed

lemma add_temp_inv:
  assumes "store_inv b temp m" "temp \<noteq> null_entry" "last (contents m temp) = newline"
  shows "store_inv (add_result b temp) null_entry (evict b m)"
    and "map (contents (evict b m)) (held (add_result b temp)) =
      ring_push (map (contents m) (held b)) (contents m temp)"
proof -
  note inv = store_invD[OF assms(1)]
  let ?b = "add_result b temp"
  from assms(2) inv(4) obtain t where t: "buffptr temp = Some t" "entry_ok m temp"
    by (auto elim: entry_okE)
  have "store_inv ?b null_entry (evict b m) \<and>
    map (contents (evict b m)) (held ?b) = ring_push (map (contents m) (held b)) (contents m temp)"
  proof (cases "full b")
    case False
    have h: "held ?b = held b @ [temp]" using held_add_free[OF inv(1) False] .
    have "held_count b < max_ops" using False full_iff[OF inv(1)] held_count_le[of b] by simp
    then show ?thesis
      using False inv t assms(3) add_result_inv[OF inv(1), of temp]
      by (auto simp: store_inv_def h evict_def owned_of_def ring_push_def)
  next
    case True
    from full_held[OF inv(1) True] obtain e es
      where e: "held b = e # es" "length es = max_ops - 1" by metis
    have h: "held ?b = es @ [temp]" using held_add_full[OF inv(1) True, of temp] e by simp
    from inv(2)[of e] e obtain a where a: "buffptr e = Some a" by (auto elim: entry_okE)
    have ev: "evict b m = m(a := None)" using True e a by (simp add: evict_def)
    have d: "distinct (a # map (the \<circ> buffptr) es @ [t])" "dom m = insert a (set (map (the \<circ> buffptr) es @ [t]))"
      using inv(5,6) e a t by (auto simp: owned_of_def)
    have other: "buffptr x \<noteq> Some a" if "x \<in> set (es @ [temp])" for x
      using that d(1) t by force
    have keep: "contents (evict b m) x = contents m x" "entry_ok (evict b m) x = entry_ok m x"
      if "x \<in> set (es @ [temp])" for x
      using other[OF that] by (simp_all add: ev contents_upd entry_ok_upd)
    have "store_inv ?b null_entry (evict b m)"
      using inv(2,3) e t assms(3) add_result_inv[OF inv(1), of temp] d keep
      by (auto simp: store_inv_def h owned_of_def ev)
    moreover have "map (contents (evict b m)) (held ?b) =
        ring_push (map (contents m) (held b)) (contents m temp)"
      using keep e by (simp add: h ring_push_def take_last_def)
    ultimately show ?thesis ..
  qed
  then show "store_inv ?b null_entry (evict b m)"
    "map (contents (evict b m)) (held ?b) = ring_push (map (contents m) (held b)) (contents m temp)"
    by simp_all
qed

section \<open>The write handler\<close>

lemma mem_read_last:
  assumes "m a = Some bs" "bs \<noteq> []" "length bs = unat (sz :: size_t)"
  shows "mem_read m (Some a) (unat (sz - 1)) 1 = Inr [last bs]"
proof -
  have "sz \<noteq> 0" using assms(2,3) by auto
  then have "1 \<le> sz" by (simp add: word_le_nat_alt unat_gt_0 Suc_le_eq)
  then have "unat (sz - 1) = length bs - 1" using assms(3) by (simp add: unat_sub_le)
  moreover have "drop (length bs - 1) bs = [last bs]"
    using assms(2) by (metis append_butlast_last_id append_eq_conv_conj length_butlast)
  moreover have "0 < length bs" using assms(2) by simp
  ultimately show ?thesis using assms(1) by (simp add: mem_read_def Suc_le_eq)
qed

lemma copy_in_ok:
  assumes "m a = Some blk" "length blk = off + unat n" "length buf = unat n" "copy_from_user k n = 0"
  shows "copy_in k m (Some a) off buf n = Inr (0, m(a \<mapsto> take off blk @ buf))"
  using assms by (simp add: copy_in_def mem_write_Some)

text \<open>The size \<open>kmalloc\<close> is asked for.\<close>

definition write_request :: "driver \<Rightarrow> size_t \<Rightarrow> size_t" where
  "write_request s count =
     (if buffptr (entry_temp s) = None then count else entry_size (entry_temp s) + count)"

definition write_result :: "driver \<Rightarrow> addr \<Rightarrow> byte list \<Rightarrow> size_t \<Rightarrow> driver" where
  "write_result s a buf count =
     (let t = \<lparr>buffptr = Some a, entry_size = entry_size (entry_temp s) + count\<rparr>;
          m = swap_temp (mem s) (buffptr (entry_temp s)) a (pending s @ buf)
      in if last (pending s @ buf) = newline
         then s\<lparr>buffer := add_result (buffer s) t, entry_temp := null_entry,
                mem := evict (buffer s) m\<rparr>
         else s\<lparr>mem := m, entry_temp := t\<rparr>)"

lemma unlock_id: "\<not> buffer_lock s \<Longrightarrow> s\<lparr>buffer_lock := False\<rparr> = (s :: driver)"
  by simp

lemma dev_invD:
  assumes "dev_inv s"
  shows "store_inv (buffer s) (entry_temp s) (mem s)" "\<not> buffer_lock s"
    "length (pending s) = unat (entry_size (entry_temp s))"
    "buffptr (entry_temp s) = None \<Longrightarrow> entry_temp s = null_entry"
    "buffptr (entry_temp s) = Some a \<Longrightarrow> mem s a = Some (pending s)"
    "pending s \<noteq> [] \<Longrightarrow> last (pending s) \<noteq> newline"
  using assms temp_length[of "buffer s" "entry_temp s" "mem s"]
  by (auto simp: dev_inv_def pending_def dest!: store_invD(4) elim: entry_okE)

text \<open>
  What a call of the write handler may rely on: the invariant, a kernel that behaves as
  documented, a user buffer of \<open>count\<close> bytes, and sizes whose sum does not wrap.
\<close>

definition write_pre :: "kernel \<Rightarrow> driver \<Rightarrow> byte list \<Rightarrow> size_t \<Rightarrow> bool" where
  "write_pre k s buf count \<longleftrightarrow>
     dev_inv s \<and> kernel_ok k \<and> length buf = unat count \<and>
     unat (entry_size (entry_temp s)) + unat count < 2 ^ 64"

lemma write_preD:
  assumes "write_pre k s buf count"
  shows "dev_inv s" "kernel_ok k" "length buf = unat count"
    "unat (entry_size (entry_temp s) + count) = length (pending s) + length buf"
  using assms unat_add_64 by (auto simp: write_pre_def dev_invD(3))

lemma write_alloc:
  assumes "write_pre k s buf count" "kmalloc k (mem s) (write_request s count) = Some (a, blk)"
  shows "mem s a = None" "length blk = length (pending s) + length buf"
proof -
  note pre = write_preD[OF assms(1)]
  have "alloc_ok (mem s) (unat (write_request s count)) (Some (a, blk))"
    using pre(2) assms(2) by (metis kernel_ok_def)
  then show "mem s a = None" "length blk = length (pending s) + length buf"
    using dev_invD(3,4)[OF pre(1)] pre(3,4) by (auto simp: mem_simps write_request_def split: if_splits)
qed

lemma aesd_write_ok:
  assumes pre: "write_pre k s buf count"
    and ans: "kmalloc k (mem s) (write_request s count) = Some (a, blk)"
      "lock_rv k = 0" "copy_from_user k count = 0" "private_data filp = Some Aesd_device"
    and ne: "buf \<noteq> []"
  shows "aesd_write k s filp buf count = Inr (sint count, write_result s a buf count)"
proof -
  note inv = dev_invD[OF write_preD(1)[OF pre]] and alloc = write_alloc[OF pre ans(1)]
    and pre' = write_preD[OF pre]
  let ?T = "entry_temp s" and ?t = "\<lparr>buffptr = Some a, entry_size = entry_size (entry_temp s) + count\<rparr>"
  let ?m = "swap_temp (mem s) (buffptr ?T) a (pending s @ buf)"
  let ?s2 = "s\<lparr>buffer_lock := True, mem := ?m, entry_temp := ?t\<rparr>"
  have swap: "store_inv (buffer s) ?t ?m" "contents ?m ?t = pending s @ buf"
    using swap_temp_inv[OF inv(1) alloc(1), of "pending s @ buf" "entry_size ?T + count"] pre' ne
    by simp_all
  have "?m a = Some (pending s @ buf)"
    using inv(5) alloc(1) by (auto simp: swap_temp_def split: option.splits)
  then have last: "mem_read ?m (Some a) (unat (entry_size ?T + count - 1)) 1 =
      Inr [last (pending s @ buf)]"
    using pre' ne by (intro mem_read_last) simp_all
  have fin: "write_complete_entry ?s2 =
    Inr (?s2\<lparr>buffer := add_result (buffer s) ?t, entry_temp := null_entry,
             mem := evict (buffer s) ?m\<rparr>)"
    using write_complete_entry_eq[of ?s2] swap(1) by simp
  have req: "(if buffptr ?T = None then count else entry_size ?T + count) = write_request s count"
    by (simp add: write_request_def)
  show ?thesis
  proof (cases "buffptr ?T")
    case None
    then have "entry_size ?T = 0" "pending s = []" using inv(3,4) by auto
    then show ?thesis
      using None ans alloc pre' last fin inv(2) req
      by (simp add: aesd_write_def get_lock_def mem_simps copy_in_ok release_lock_def
          write_result_def Let_def swap_temp_def)
  next
    case (Some o')
    have old: "mem s o' = Some (pending s)" using inv(5) Some by simp
    with alloc(1) have ne': "o' \<noteq> a" by auto
    show ?thesis
      using Some ans alloc pre' last fin inv(2,3) req old ne'
      by (simp add: aesd_write_def get_lock_def mem_simps copy_in_ok release_lock_def
          write_result_def Let_def swap_temp_def)
  qed
qed

lemma write_result_refines:
  assumes pre: "write_pre k s buf count"
    and ans: "kmalloc k (mem s) (write_request s count) = Some (a, blk)"
    and ne: "buf \<noteq> []"
  shows "dev_inv (write_result s a buf count)"
    and "(held_lines (write_result s a buf count), pending (write_result s a buf count)) =
      spec_write (held_lines s, pending s) buf"
proof -
  note inv = dev_invD[OF write_preD(1)[OF pre]] and alloc = write_alloc[OF pre ans]
    and pre' = write_preD[OF pre]
  let ?T = "entry_temp s" and ?t = "\<lparr>buffptr = Some a, entry_size = entry_size (entry_temp s) + count\<rparr>"
  let ?m = "swap_temp (mem s) (buffptr ?T) a (pending s @ buf)"
  have swap: "store_inv (buffer s) ?t ?m" "contents ?m ?t = pending s @ buf"
    using swap_temp_inv[OF inv(1) alloc(1), of "pending s @ buf" "entry_size ?T + count"] pre' ne
    by simp_all
  have held: "map (contents ?m) (held (buffer s)) = held_lines s"
    using swap_temp_held(1)[OF inv(1) alloc(1)] by (simp add: held_lines_def)
  have "dev_inv (write_result s a buf count) \<and>
    (held_lines (write_result s a buf count), pending (write_result s a buf count)) =
      spec_write (held_lines s, pending s) buf"
  proof (cases "last (pending s @ buf) = newline")
    case True
    have "?t \<noteq> null_entry" by (simp add: null_entry_def)
    note added = add_temp_inv[OF swap(1) this, unfolded swap(2), OF True]
    from added(1) True inv(2) have "dev_inv (write_result s a buf count)"
      by (simp add: write_result_def dev_inv_def Let_def)
    moreover from added(2) True held
    have "held_lines (write_result s a buf count) = ring_push (held_lines s) (pending s @ buf)"
      by (simp add: write_result_def held_lines_def Let_def)
    ultimately show ?thesis
      using True by (simp add: spec_write_def pending_def write_result_def Let_def)
  next
    case False
    then show ?thesis
      using swap inv(2) held
      by (auto simp: write_result_def dev_inv_def Let_def spec_write_def pending_def held_lines_def)
  qed
  then show "dev_inv (write_result s a buf count)"
    "(held_lines (write_result s a buf count), pending (write_result s a buf count)) =
      spec_write (held_lines s, pending s) buf" by simp_all
qed

lemma aesd_write_lock_error:
  "lock_rv k \<noteq> 0 \<Longrightarrow> private_data filp = Some Aesd_device \<Longrightarrow>
   aesd_write k s filp buf count = Inr (- ERESTARTSYS, s)"
  by (simp add: aesd_write_def get_lock_def ERESTARTSYS_def Let_def)

lemma aesd_write_alloc_error:
  assumes "write_pre k s buf count" "kmalloc k (mem s) (write_request s count) = None"
    "lock_rv k = 0" "private_data filp = Some Aesd_device"
  shows "aesd_write k s filp buf count = Inr (- ENOMEM, s)"
  using assms dev_invD(2)[OF write_preD(1)[OF assms(1)]]
  by (simp add: aesd_write_def get_lock_def release_lock_def mem_simps write_request_def)

lemma aesd_write_copy_error:
  assumes pre: "write_pre k s buf count"
    and ans: "kmalloc k (mem s) (write_request s count) = Some (a, blk)"
      "lock_rv k = 0" "copy_from_user k count > 0" "private_data filp = Some Aesd_device"
  shows "aesd_write k s filp buf count = Inr (- EFAULT, s)"
proof -
  note inv = dev_invD[OF write_preD(1)[OF pre]] and alloc = write_alloc[OF pre ans(1)]
    and pre' = write_preD[OF pre]
  let ?T = "entry_temp s"
  let ?fill = "take (unat count - unat (copy_from_user k count)) buf @
    replicate (unat (copy_from_user k count)) 0"
  have le: "unat (copy_from_user k count) \<le> unat count"
    using pre'(2) by (simp add: kernel_ok_def word_le_nat_alt)
  then have fill: "length ?fill = unat count" using pre'(3) by simp
  have copy: "copy_in k m (Some a) off buf count =
      Inr (copy_from_user k count, m(a \<mapsto> take off b @ ?fill))"
    if "m a = Some b" "length b = off + unat count" for m b off
    using that fill by (simp add: copy_in_def mem_write_def Let_def)
  have req: "(if buffptr ?T = None then count else entry_size ?T + count) = write_request s count"
    by (simp add: write_request_def)
  show ?thesis
  proof (cases "buffptr ?T")
    case None
    then have "entry_size ?T = 0" "pending s = []" using inv(3,4) by auto
    then show ?thesis
      using None ans alloc pre' inv(2) req copy
      by (simp add: aesd_write_def get_lock_def mem_simps release_lock_def Let_def fun_upd_idem)
  next
    case (Some o')
    have old: "mem s o' = Some (pending s)" using inv(5) Some by simp
    with alloc(1) have ne': "o' \<noteq> a" by auto
    show ?thesis
      using Some ans alloc pre' inv(2,3) req old ne' copy
      by (simp add: aesd_write_def get_lock_def mem_simps release_lock_def Let_def fun_upd_idem)
  qed
qed

section \<open>The read handler\<close>

text \<open>The bytes of the device: its lines one after the other.\<close>

abbreviation device_bytes :: "driver \<Rightarrow> byte list" where
  "device_bytes s \<equiv> concat (held_lines s)"

lemma sizes_held:
  assumes "store_inv b temp m"
  shows "(\<Sum>e\<leftarrow>take k (held b). unat (entry_size e)) = length (concat (take k (map (contents m) (held b))))"
proof -
  have "e \<in> set (take k (held b)) \<Longrightarrow> length (contents m e) = unat (entry_size e)" for e
    using store_invD(2)[OF assms in_set_takeD] by (auto elim: entry_okE)
  then show ?thesis
    by (simp add: length_concat take_map comp_def cong: map_cong)
qed

lemma total_held:
  assumes "store_inv (buffer s) temp (mem s)"
  shows "(\<Sum>e\<leftarrow>held (buffer s). unat (entry_size e)) = length (device_bytes s)"
  using sizes_held[OF assms, of "length (held (buffer s))"] by (simp add: held_lines_def)

text \<open>
  What a search at position \<open>p\<close> finds: nothing from the end of the device on, and before it a
  non-empty rest of an entry whose bytes are the device's bytes from \<open>p\<close> on.
\<close>

lemma find_device_None:
  assumes "store_inv (buffer s) temp (mem s)" "length (device_bytes s) \<le> unat p"
  shows "aesd_circular_buffer_find_entry_offset_for_fpos (buffer s) p = Inr None"
  using assms total_held[OF assms(1)]
  by (simp add: find_entry_locate[OF store_invD(1)] locate_None_iff)

lemma find_device_Some:
  assumes inv: "store_inv (buffer s) temp (mem s)" and lt: "unat p < length (device_bytes s)"
  obtains i r e where
    "aesd_circular_buffer_find_entry_offset_for_fpos (buffer s) p = Inr (Some (i, r))"
    "get_entry (buffer s) i = Inr e" "r < entry_size e"
    "\<And>n. n \<le> unat (entry_size e - r) \<Longrightarrow>
       mem_read (mem s) (buffptr e) (unat r) n = Inr (take n (drop (unat p) (device_bytes s))) \<and>
       n \<le> length (device_bytes s) - unat p"
proof -
  let ?b = "buffer s" and ?m = "mem s"
  note ring = store_invD(1)[OF inv]
  obtain k n where loc: "locate (held ?b) (unat p) = Some (k, n)"
    using lt total_held[OF inv] by (cases "locate (held ?b) (unat p)") (auto simp: locate_None_iff)
  let ?e = "held ?b ! k" and ?i = "(unat (out_offs ?b) + k) mod max_ops" and ?r = "word_of_nat n :: size_t"
  from loc have k: "k < length (held ?b)" and n: "n < unat (entry_size ?e)"
    and off: "unat p = (\<Sum>e\<leftarrow>take k (held ?b). unat (entry_size e)) + n"
    by (auto simp: locate_Some_iff)
  have r: "unat ?r = n" using n less_trans[OF _ unat_less_pow] by (simp add: unat_of_nat_64)
  from k inv have "entry_ok ?m ?e" by (intro store_invD(2)[OF inv]) simp
  then obtain a where a: "buffptr ?e = Some a" "?m a = Some (contents ?m ?e)"
      "length (contents ?m ?e) = unat (entry_size ?e)" by (rule entry_okE)
  have pos: "unat p = length (concat (take k (held_lines s))) + n"
    using off sizes_held[OF inv, of k] by (simp add: held_lines_def)
  show thesis
  proof (rule that[of ?i ?r ?e])
    show "aesd_circular_buffer_find_entry_offset_for_fpos ?b p = Inr (Some (?i, ?r))"
      using loc by (simp add: find_entry_locate[OF ring] found_at_def)
    show "get_entry ?b ?i = Inr ?e"
      using k ring_invD(1)[OF ring] by (simp add: get_entry_def nth_held slot_def)
    show lt': "?r < entry_size ?e" using r n by (simp add: word_less_nat_alt)
    fix j assume "j \<le> unat (entry_size ?e - ?r)"
    then have j: "n + j \<le> length (contents ?m ?e)"
      using lt' r n a(3) by (simp add: unat_sub_le)
    then have eq: "take j (drop (unat p) (device_bytes s)) = take j (drop n (contents ?m ?e))"
      using take_drop_concat[of k "held_lines s" n j] k by (simp add: pos held_lines_def)
    from j a r have "mem_read ?m (buffptr ?e) (unat ?r) j = Inr (take j (drop (unat p) (device_bytes s)))"
      by (simp add: mem_read_Some eq)
    moreover have "length (take j (drop (unat p) (device_bytes s))) = j"
      using j by (simp only: eq) simp
    ultimately show "mem_read ?m (buffptr ?e) (unat ?r) j = Inr (take j (drop (unat p) (device_bytes s))) \<and>
        j \<le> length (device_bytes s) - unat p" by simp
  qed
qed

text \<open>
  The loop, from any number of bytes already read: it delivers the device's bytes from the
  current position on, all that were asked for and are there unless a copy fails, and never
  touches memory it must not touch.
\<close>

definition read_ok :: "kernel \<Rightarrow> byte list \<Rightarrow> nat \<Rightarrow> nat \<Rightarrow> byte list \<Rightarrow> bool \<times> size_t \<times> byte list \<Rightarrow> bool" where
  "read_ok k D want done_before out = (\<lambda>(copied, br, out').
     \<exists>n. out' = out @ take n D \<and> n \<le> min want (length D) \<and>
       (copied \<longrightarrow> n = min want (length D) \<and> unat br = done_before + n) \<and>
       ((\<forall>off m. copy_to_user k off m = 0) \<longrightarrow> copied))"

lemma read_okI:
  "n \<le> min want (length D) \<Longrightarrow> (copied \<longrightarrow> n = min want (length D) \<and> unat br = bef + n) \<Longrightarrow>
   ((\<forall>off m. copy_to_user k off m = 0) \<longrightarrow> copied) \<Longrightarrow>
   read_ok k D want bef out (copied, br, out @ take n D)"
  by (auto simp: read_ok_def)

text \<open>One more chunk of \<open>j\<close> bytes in front.\<close>

lemma read_ok_step:
  assumes "read_ok k (drop j D) (want - j) (bef + j) (out @ take j D) res" "j \<le> want" "j \<le> length D"
  shows "read_ok k D want bef out res"
proof -
  obtain copied br out' where res: "res = (copied, br, out')" by (cases res) auto
  from assms(1) obtain n where n: "out' = out @ take j D @ take n (drop j D)"
      "n \<le> want - j \<and> n \<le> length D - j"
      "copied \<longrightarrow> n = min (want - j) (length D - j) \<and> unat br = bef + j + n"
      "(\<forall>off m. copy_to_user k off m = 0) \<longrightarrow> copied"
    by (auto simp: read_ok_def res)
  have eq: "out' = out @ take (j + n) D" using n(1) by (simp add: take_add)
  then show ?thesis
    unfolding res eq using n(2-4) assms(2,3)
    by (intro read_okI) (auto simp: min_def)
qed

text \<open>One pass of the loop.\<close>

lemma read_loop_at_end:
  assumes "store_inv (buffer s) temp (mem s)" "unat f_pos + unat bytes_read < 2 ^ 64"
    "length (device_bytes s) \<le> unat f_pos + unat bytes_read \<or> bytes_read = count"
  shows "read_loop k s count f_pos bytes_read out = Inr (True, bytes_read, out)"
proof (cases "bytes_read = count")
  case True
  then show ?thesis by (subst read_loop.simps) simp
next
  case False
  have "unat (f_pos + bytes_read) = unat f_pos + unat bytes_read" using assms(2) by (rule unat_add_64)
  with assms(1,3) False
  have "aesd_circular_buffer_find_entry_offset_for_fpos (buffer s) (f_pos + bytes_read) = Inr None"
    by (intro find_device_None) simp_all
  then show ?thesis by (subst read_loop.simps) simp
qed

lemma read_loop_pass:
  assumes "store_inv (buffer s) temp (mem s)" "bytes_read < count"
    "unat f_pos + unat bytes_read < 2 ^ 64" "unat f_pos + unat bytes_read < length (device_bytes s)"
  defines "D \<equiv> drop (unat f_pos + unat bytes_read) (device_bytes s)"
  shows "\<exists>n. 0 < n \<and> n \<le> count - bytes_read \<and> unat n \<le> length D \<and>
    read_loop k s count f_pos bytes_read out =
      (if copy_to_user k bytes_read n > 0
       then Inr (False, bytes_read, out @ take (unat n - unat (copy_to_user k bytes_read n)) D)
       else read_loop k s count f_pos (bytes_read + n) (out @ take (unat n) D))"
proof -
  have p: "unat (f_pos + bytes_read) = unat f_pos + unat bytes_read" using assms(3) by (rule unat_add_64)
  with assms(4) obtain i r e where f:
    "aesd_circular_buffer_find_entry_offset_for_fpos (buffer s) (f_pos + bytes_read) = Inr (Some (i, r))"
    "get_entry (buffer s) i = Inr e" "r < entry_size e"
    and rd: "\<And>n. n \<le> unat (entry_size e - r) \<Longrightarrow>
      mem_read (mem s) (buffptr e) (unat r) n = Inr (take n D) \<and> n \<le> length D"
    unfolding D_def length_drop using find_device_Some[OF assms(1), of "f_pos + bytes_read"] by metis
  define n where "n = bytes_to_copy (entry_size e - r) count bytes_read"
  have n: "0 < n" "n \<le> count - bytes_read" "n \<le> entry_size e - r"
    unfolding n_def using bytes_to_copy_bounds[OF assms(2) f(3)] by (auto simp: bytes_to_copy_def)
  have m: "mem_read (mem s) (buffptr e) (unat r) (unat n) = Inr (take (unat n) D)" "unat n \<le> length D"
    using rd[of "unat n"] n(3) by (simp_all add: word_le_nat_alt)
  have "read_loop k s count f_pos bytes_read out =
      (if copy_to_user k bytes_read n > 0
       then Inr (False, bytes_read, out @ take (unat n - unat (copy_to_user k bytes_read n)) D)
       else read_loop k s count f_pos (bytes_read + n) (out @ take (unat n) D))"
    using assms(2) f m(1) by (subst read_loop.simps) (simp add: n_def[symmetric] min_def)
  with n(1,2) m(2) show ?thesis by blast
qed

lemma read_loop_correct:
  assumes "store_inv (buffer s) temp (mem s)" "length (device_bytes s) < 2 ^ 64"
    "kernel_ok k" "unat f_pos + unat bytes_read < 2 ^ 64" "bytes_read \<le> count"
  shows "\<exists>res. read_loop k s count f_pos bytes_read out = Inr res \<and>
    read_ok k (drop (unat f_pos + unat bytes_read) (device_bytes s))
      (unat count - unat bytes_read) (unat bytes_read) out res"
  using assms(4,5)
proof (induction "unat count - unat bytes_read" arbitrary: bytes_read out rule: less_induct)
  case less
  let ?D = "drop (unat f_pos + unat bytes_read) (device_bytes s)"
  show ?case
  proof (cases "length (device_bytes s) \<le> unat f_pos + unat bytes_read \<or> bytes_read = count")
    case True
    then have "read_ok k ?D (unat count - unat bytes_read) (unat bytes_read) out (True, bytes_read, out)"
      by (auto simp: read_ok_def)
    with read_loop_at_end[OF assms(1) less.prems(1) True, of k out] show ?thesis by blast
  next
    case False
    then have lt: "bytes_read < count" "unat f_pos + unat bytes_read < length (device_bytes s)"
      using less.prems(2) by auto
    obtain n where n: "0 < n" "n \<le> count - bytes_read" "unat n \<le> length ?D"
      and loop: "read_loop k s count f_pos bytes_read out =
        (if copy_to_user k bytes_read n > 0
         then Inr (False, bytes_read, out @ take (unat n - unat (copy_to_user k bytes_read n)) ?D)
         else read_loop k s count f_pos (bytes_read + n) (out @ take (unat n) ?D))"
      using read_loop_pass[OF assms(1) lt(1) less.prems(1) lt(2), of k out] by blast
    note prog = bytes_to_copy_progress[OF lt(1) n(1,2)]
    have nw: "unat n \<le> unat count - unat bytes_read" using prog by (simp add: word_le_nat_alt)
    show ?thesis
    proof (cases "copy_to_user k bytes_read n > 0")
      case True
      then have "\<not> (\<forall>off m. copy_to_user k off m = 0)" by (metis word_gt_0)
      with True n(3) nw show ?thesis by (simp add: loop) (intro read_okI, auto)
    next
      case False
      have bound: "unat f_pos + unat (bytes_read + n) < 2 ^ 64" "unat count - unat (bytes_read + n) < unat count - unat bytes_read"
        using n(1,3) nw prog(1) assms(2) lt(2) by (simp_all add: word_less_nat_alt)
      from less.hyps[OF bound(2,1) prog(2), of "out @ take (unat n) ?D"] obtain res where
        res: "read_loop k s count f_pos (bytes_read + n) (out @ take (unat n) ?D) = Inr res"
        "read_ok k (drop (unat n) ?D) (unat count - unat bytes_read - unat n) (unat bytes_read + unat n)
           (out @ take (unat n) ?D) res"
        unfolding prog(1) by (auto simp: add.commute add.left_commute)
      from read_ok_step[OF res(2) nw n(3)] res(1) False show ?thesis by (simp add: loop)
    qed
  qed
qed

lemma aesd_read_lock_error:
  "lock_rv k \<noteq> 0 \<Longrightarrow> private_data filp = Some Aesd_device \<Longrightarrow>
   aesd_read k s filp count f_pos = Inr (- ERESTARTSYS, [], f_pos, s)"
  by (simp add: aesd_read_def get_lock_def ERESTARTSYS_def Let_def)

text \<open>
  With the lock taken, the handler returns the loop's result and leaves the device as it was;
  a failed copy leaves the file position too.
\<close>

lemma aesd_read_eq:
  assumes "dev_inv s" "length (device_bytes s) < 2 ^ 63" "kernel_ok k"
    "lock_rv k = 0" "private_data filp = Some Aesd_device"
  shows "\<exists>n copied. n \<le> min (unat count) (length (device_bytes s) - unat f_pos) \<and>
    aesd_read k s filp count f_pos =
      Inr (if copied then int n else - EFAULT, take n (drop (unat f_pos) (device_bytes s)),
           if copied then f_pos + word_of_nat n else f_pos, s) \<and>
    (copied \<longrightarrow> n = min (unat count) (length (device_bytes s) - unat f_pos)) \<and>
    ((\<forall>off m. copy_to_user k off m = 0) \<longrightarrow> copied)"
proof -
  let ?s1 = "s\<lparr>buffer_lock := True\<rparr>" and ?L = "device_bytes s"
  have lines: "device_bytes ?s1 = ?L" by (simp add: held_lines_def)
  have inv: "store_inv (buffer ?s1) (entry_temp s) (mem ?s1)"
    using dev_invD(1)[OF assms(1)] by simp
  obtain copied br out where loop: "read_loop k ?s1 count f_pos 0 [] = Inr (copied, br, out)"
    and ok: "read_ok k (drop (unat f_pos) ?L) (unat count) 0 [] (copied, br, out)"
    using read_loop_correct[OF inv _ assms(3), of f_pos 0 count "[]"] assms(2) unat_less_pow[of f_pos]
    by (auto simp: lines)
  from ok obtain n where n: "out = take n (drop (unat f_pos) ?L)"
    "n \<le> min (unat count) (length ?L - unat f_pos)"
    "copied \<longrightarrow> n = min (unat count) (length ?L - unat f_pos) \<and> unat br = n"
    "(\<forall>off m. copy_to_user k off m = 0) \<longrightarrow> copied"
    by (auto simp: read_ok_def)
  have br: "br = word_of_nat n" "sint br = int n" if copied
  proof -
    show "br = word_of_nat n" using n(3) that of_nat_unat_64[of br] by simp
    moreover have "n < 2 ^ 63" using n(2) assms(2) by auto
    ultimately show "sint br = int n" by (simp only: sint_of_nat_64)
  qed
  have "aesd_read k s filp count f_pos =
      Inr (if copied then int n else - EFAULT, out, if copied then f_pos + word_of_nat n else f_pos, s)"
    using loop assms(4,5) dev_invD(2)[OF assms(1)] br
    by (simp add: aesd_read_def get_lock_def release_lock_def)
  with n show ?thesis by blast
qed

section \<open>Initialisation and clean-up\<close>

lemma init_module_ok:
  assumes "region_rv \<ge> 0" "mem s = Map.empty"
  shows "\<exists>s'. aesd_init_module region_rv major 0 s = (0, s') \<and> dev_inv s' \<and>
    held_lines s' = [] \<and> pending s' = [] \<and> region s' \<and> cdev_added (cdev s')"
  using assms init_inv[of "buffer s"]
  by (auto simp: aesd_init_module_def aesd_setup_cdev_def Let_def dev_inv_def store_inv_def
      init_held owned_of_def null_entry_def held_lines_def pending_def contents_def)

lemma cleanup_loop_eq: "ring_inv (buffer s) \<Longrightarrow> cleanup_loop s = Inr s"
  by (subst cleanup_loop.simps) (simp add: remove_entry_inv ring_invD(5))

lemma cleanup_module_eq:
  assumes "dev_inv s"
  shows "\<exists>s'. aesd_cleanup_module s = Inr s' \<and> held_lines s' = [] \<and> entry_temp s' = null_entry \<and>
    \<not> region s' \<and> \<not> cdev_added (cdev s') \<and>
    dom (mem s') = (the \<circ> buffptr) ` set (held (buffer s))"
proof -
  note inv = dev_invD[OF assms]
  note st = store_invD[OF inv(1)]
  let ?s1 = "s\<lparr>cdev := (cdev s)\<lparr>cdev_added := False\<rparr>\<rparr>"
  have loop: "cleanup_loop ?s1 = Inr ?s1" using st(1) by (simp add: cleanup_loop_eq)
  show ?thesis
  proof (cases "buffptr (entry_temp s)")
    case None
    then show ?thesis
      using loop st(6) inv(4)
      by (simp add: aesd_cleanup_module_def init_held held_lines_def owned_of_def null_entry_def)
  next
    case (Some a)
    then show ?thesis
      using loop st(5,6) inv(5)[OF Some]
      by (auto simp: aesd_cleanup_module_def init_held held_lines_def owned_of_def null_entry_def
          mem_simps)
  qed
qed

section \<open>The driver as a bounded log of lines\<close>

text \<open>
  A successful write of some bytes, and the append of one line: a run of successful writes
  whose pieces make up the line, of which only the last piece ends with a newline.
\<close>

definition wrote :: "driver \<Rightarrow> byte list \<Rightarrow> driver \<Rightarrow> bool" where
  "wrote s data s' \<longleftrightarrow> data \<noteq> [] \<and>
     (\<exists>k filp count. write_pre k s data count \<and> private_data filp = Some Aesd_device \<and>
        aesd_write k s filp data count = Inr (sint count, s') \<and> lock_rv k = 0 \<and>
        copy_from_user k count = 0 \<and> kmalloc k (mem s) (write_request s count) \<noteq> None)"

definition split_line :: "byte list list \<Rightarrow> byte list \<Rightarrow> bool" where
  "split_line ps l \<longleftrightarrow> concat ps = l \<and> ps \<noteq> [] \<and> (\<forall>p \<in> set ps. p \<noteq> []) \<and> last l = newline \<and>
     (\<forall>p \<in> set (butlast ps). last p \<noteq> newline)"

definition logged :: "driver \<Rightarrow> byte list \<Rightarrow> driver \<Rightarrow> bool" where
  "logged s l s' \<longleftrightarrow> (\<exists>ps. split_line ps l \<and> append_run wrote s ps s')"

definition fresh_device :: "driver \<Rightarrow> bool" where
  "fresh_device s \<longleftrightarrow> (\<exists>region_rv major s0.
     region_rv \<ge> 0 \<and> mem s0 = Map.empty \<and> aesd_init_module region_rv major 0 s0 = (0, s))"

definition line_inv :: "driver \<Rightarrow> bool" where
  "line_inv s \<longleftrightarrow> dev_inv s \<and> pending s = []"

lemma wrote_refines:
  assumes "wrote s data s'"
  shows "dev_inv s'" "(held_lines s', pending s') = spec_write (held_lines s, pending s) data"
proof -
  from assms obtain k filp count a blk
    where pre: "write_pre k s data count" "data \<noteq> []"
      and ans: "kmalloc k (mem s) (write_request s count) = Some (a, blk)" "lock_rv k = 0"
        "copy_from_user k count = 0" "private_data filp = Some Aesd_device"
      and res: "aesd_write k s filp data count = Inr (sint count, s')"
    by (auto simp: wrote_def)
  have "s' = write_result s a data count"
    using aesd_write_ok[OF pre(1) ans pre(2)] res by simp
  then show "dev_inv s'" "(held_lines s', pending s') = spec_write (held_lines s, pending s) data"
    using write_result_refines[OF pre(1) ans(1) pre(2)] by simp_all
qed

lemma wrote_pieces:
  assumes "append_run wrote s ps s'" "\<forall>p \<in> set ps. p \<noteq> []" "ps \<noteq> []"
    "\<forall>p \<in> set (butlast ps). last p \<noteq> newline"
  shows "dev_inv s' \<and> (held_lines s', pending s') =
    spec_write (held_lines s, pending s) (concat ps)"
  using assms
proof (induction ps arbitrary: s)
  case Nil
  then show ?case by simp
next
  case (Cons p ps)
  then obtain s1 where s1: "wrote s p s1" "append_run wrote s1 ps s'" by auto
  note w = wrote_refines[OF s1(1)]
  show ?case
  proof (cases "ps = []")
    case True
    with s1(2) w show ?thesis by simp
  next
    case False
    with Cons.prems(2,4) have "p \<noteq> []" "last p \<noteq> newline" by auto
    with w(2) have a: "held_lines s1 = held_lines s" "pending s1 = pending s @ p"
      by (auto simp: spec_write_def)
    have "dev_inv s' \<and> (held_lines s', pending s') = spec_write (held_lines s1, pending s1) (concat ps)"
      using Cons.prems(2,4) False by (intro Cons.IH[OF s1(2)]) auto
    then show ?thesis by (simp add: a spec_write_def)
  qed
qed

lemma logged_refines:
  assumes "line_inv s" "logged s l s'"
  shows "line_inv s'" "held_lines s' = ring_push (held_lines s) l"
proof -
  from assms(2) obtain ps where ps: "split_line ps l" "append_run wrote s ps s'"
    by (auto simp: logged_def)
  then have "dev_inv s'" "(held_lines s', pending s') = spec_write (held_lines s, pending s) l"
    using wrote_pieces[OF ps(2)] by (auto simp: split_line_def)
  with assms(1) ps(1) show "line_inv s'" "held_lines s' = ring_push (held_lines s) l"
    by (auto simp: line_inv_def spec_write_def split_line_def)
qed

lemma fresh_device_inv:
  assumes "fresh_device s"
  shows "line_inv s" "held_lines s = []"
proof -
  from assms obtain region_rv major s0 where
    r: "region_rv \<ge> 0" "mem s0 = Map.empty" "aesd_init_module region_rv major 0 s0 = (0, s)"
    by (auto simp: fresh_device_def)
  show "line_inv s" "held_lines s = []"
    using init_module_ok[OF r(1,2), of major] r(3) by (auto simp: line_inv_def)
qed

interpretation line_log: bounded_log max_ops fresh_device line_inv held_lines logged
  using fresh_device_inv logged_refines by unfold_locales (auto simp: ring_push_def)

end
