(* ===== verification/Aesd_Driver_Props.thy ===== *)
theory Aesd_Driver_Props
  imports Aesd_Driver
begin

text \<open>
  The properties of the character driver, over the lemmas of \<open>Aesd_Driver\<close>: what each handler
  does on every branch, the reachable states, and the driver as a log of its last ten lines.
\<close>

section \<open>Reachable states\<close>

text \<open>
  A loaded module, then any sequence of calls with any kernel answers: writes of at least one
  byte whose sizes do not wrap, and reads.
\<close>

inductive driver_reachable :: "driver \<Rightarrow> bool" where
  loaded: "fresh_device s \<Longrightarrow> driver_reachable s"
| written: "driver_reachable s \<Longrightarrow> kernel_ok k \<Longrightarrow> length buf = unat count \<Longrightarrow> buf \<noteq> [] \<Longrightarrow>
    unat (entry_size (entry_temp s)) + unat count < 2 ^ 64 \<Longrightarrow>
    aesd_write k s filp buf count = Inr (r, s') \<Longrightarrow> driver_reachable s'"
| read_from: "driver_reachable s \<Longrightarrow> kernel_ok k \<Longrightarrow> length (device_bytes s) < 2 ^ 63 \<Longrightarrow>
    aesd_read k s filp count f_pos = Inr (r, out, f_pos', s') \<Longrightarrow> driver_reachable s'"

lemma aesd_write_total:
  assumes pre: "write_pre k s buf count" "buf \<noteq> []" and dev: "private_data filp = Some Aesd_device"
  shows "\<exists>r s'. aesd_write k s filp buf count = Inr (r, s') \<and> dev_inv s'"
proof (cases "kmalloc k (mem s) (write_request s count)")
  case None
  then show ?thesis
    using aesd_write_lock_error[OF _ dev] aesd_write_alloc_error[OF pre(1) None _ dev]
      write_preD(1)[OF pre(1)] by (cases "lock_rv k = 0") auto
next
  case (Some ab)
  obtain a blk where ab: "kmalloc k (mem s) (write_request s count) = Some (a, blk)"
    using Some by (cases ab) simp
  consider "lock_rv k \<noteq> 0" | "lock_rv k = 0" "copy_from_user k count > 0"
    | "lock_rv k = 0" "copy_from_user k count = 0" by (auto simp: word_gt_0)
  then show ?thesis
    using aesd_write_lock_error[OF _ dev] aesd_write_copy_error[OF pre(1) ab _ _ dev]
      aesd_write_ok[OF pre(1) ab _ _ dev pre(2)] write_result_refines(1)[OF pre(1) ab pre(2)]
      write_preD(1)[OF pre(1)]
    by cases auto
qed

lemma aesd_read_total:
  assumes "dev_inv s" "length (device_bytes s) < 2 ^ 63" "kernel_ok k"
    "private_data filp = Some Aesd_device"
  shows "\<exists>r out f_pos'. aesd_read k s filp count f_pos = Inr (r, out, f_pos', s)"
proof (cases "lock_rv k = 0")
  case True
  from aesd_read_eq[OF assms(1-3) True assms(4)] show ?thesis by blast
next
  case False
  from aesd_read_lock_error[OF False assms(4)] show ?thesis by blast
qed

lemma no_device_faults:
  "private_data filp = None \<Longrightarrow> aesd_write k s filp buf count = Inl NullDeref"
  "private_data filp = None \<Longrightarrow> aesd_read k s filp count f_pos = Inl NullDeref"
  by (simp_all add: aesd_write_def aesd_read_def)

lemma Some_device: "p = Some d \<Longrightarrow> p = Some Aesd_device"
  by (cases d) simp

lemma driver_reachable_inv: "driver_reachable s \<Longrightarrow> dev_inv s"
proof (induction rule: driver_reachable.induct)
  case (loaded s)
  then show ?case using fresh_device_inv(1) by (simp add: line_inv_def)
next
  case (written s k buf count filp r s')
  then have pre: "write_pre k s buf count" by (simp add: write_pre_def)
  show ?case
  proof (cases "private_data filp")
    case None
    then show ?thesis using written by (simp add: no_device_faults)
  next
    case (Some d)
    from aesd_write_total[OF pre written.hyps(4) Some_device[OF Some]] written.hyps(6)
    show ?thesis by auto
  qed
next
  case (read_from s k filp count f_pos r out f_pos' s')
  show ?case
  proof (cases "private_data filp")
    case None
    then show ?thesis using read_from by (simp add: no_device_faults)
  next
    case (Some d)
    from aesd_read_total[OF read_from.IH read_from.hyps(3,2) Some_device[OF Some], of count f_pos]
      read_from.hyps(4) read_from.IH
    show ?thesis by auto
  qed
qed

section \<open>A concrete kernel and device\<close>

text \<open>A kernel that grants every request, with the lowest free block name below 32.\<close>

definition demo_kernel :: kernel where
  "demo_kernel =
     \<lparr>lock_rv = 0,
      kmalloc = (\<lambda>h n. map_option (\<lambda>a. (a, replicate (unat n) 0)) (List.find (\<lambda>a. h a = None) [0..<32])),
      copy_from_user = (\<lambda>n. 0), copy_to_user = (\<lambda>off n. 0)\<rparr>"

lemma demo_kernel_ok: "kernel_ok demo_kernel"
  by (auto simp: kernel_ok_def demo_kernel_def alloc_ok_def find_Some_iff simp del: upt_Suc
      split: option.splits)

lemma demo_kernel_grants:
  "lock_rv demo_kernel = 0" "copy_from_user demo_kernel n = 0" "copy_to_user demo_kernel off n = 0"
  "h 0 = None \<Longrightarrow> kmalloc demo_kernel h n = Some (0, replicate (unat n) 0)"
  by (simp_all add: demo_kernel_def upt_rec)

definition demo_unloaded :: driver where
  "demo_unloaded =
     \<lparr>cdev = \<lparr>fops_set = False, cdev_added = False\<rparr>,
      buffer = \<lparr>entry = [], in_offs = 0, out_offs = 0, full = False, empty = False\<rparr>,
      entry_temp = null_entry, buffer_lock = False, mem = Map.empty, aesd_major = 0,
      region = False\<rparr>"

definition demo_device :: driver where
  "demo_device = snd (aesd_init_module 0 240 0 demo_unloaded)"

lemma demo_device_fresh: "fresh_device demo_device"
proof -
  have "aesd_init_module 0 240 0 demo_unloaded = (0, demo_device)"
    by (simp add: demo_device_def aesd_init_module_def aesd_setup_cdev_def)
  moreover have "mem demo_unloaded = Map.empty" by (simp add: demo_unloaded_def)
  ultimately show ?thesis unfolding fresh_device_def by (metis order_refl)
qed

lemma demo_device_state:
  "dev_inv demo_device" "held_lines demo_device = []" "pending demo_device = []"
  "mem demo_device = Map.empty" "entry_temp demo_device = null_entry"
proof -
  show "dev_inv demo_device" "held_lines demo_device = []" "pending demo_device = []"
    using fresh_device_inv[OF demo_device_fresh] by (auto simp: line_inv_def)
  show "mem demo_device = Map.empty" "entry_temp demo_device = null_entry"
    by (simp_all add: demo_device_def aesd_init_module_def aesd_setup_cdev_def null_entry_def
        demo_unloaded_def)
qed

definition demo_filp :: filp where
  "demo_filp = snd (aesd_open \<lparr>i_cdev = Aesd_device\<rparr> \<lparr>private_data = None\<rparr>)"

lemma demo_filp_device: "private_data demo_filp = Some Aesd_device"
  by (simp add: demo_filp_def aesd_open_def)

text \<open>The line \<open>hi\<close> as bytes, and what a first write of it to the fresh device.\<close>

definition demo_line :: "byte list" where
  "demo_line = [104, 105, 10]"

lemma demo_pre: "length buf < 2 ^ 63 \<Longrightarrow> write_pre demo_kernel demo_device buf (word_of_nat (length buf))"
  using demo_device_state demo_kernel_ok by (simp add: write_pre_def unat_of_nat_64)

lemma demo_request: "kmalloc demo_kernel (mem demo_device) n = Some (0, replicate (unat n) 0)"
  by (simp add: demo_kernel_grants demo_device_state)

text \<open>The device after that write.\<close>

definition demo_written :: driver where
  "demo_written = write_result demo_device 0 demo_line 3"

lemma demo_write:
  "aesd_write demo_kernel demo_device demo_filp demo_line 3 = Inr (3, demo_written)"
  using aesd_write_ok[of demo_kernel demo_device demo_line 3 0 _ demo_filp] demo_pre[of demo_line]
    demo_filp_device demo_request
  by (simp add: demo_kernel_grants demo_line_def demo_written_def)

lemma demo_written_state:
  "driver_reachable demo_written" "dev_inv demo_written" "held_lines demo_written = [[104, 105, 10]]"
  "pending demo_written = []"
proof -
  show "driver_reachable demo_written"
    using driver_reachable.written[OF driver_reachable.loaded[OF demo_device_fresh] demo_kernel_ok
        _ _ _ demo_write] by (simp add: demo_line_def demo_device_state)
  then show "dev_inv demo_written" by (rule driver_reachable_inv)
  show "held_lines demo_written = [[104, 105, 10]]" "pending demo_written = []"
    using write_result_refines(2)[of demo_kernel demo_device demo_line 3 0] demo_pre[of demo_line]
      demo_request demo_device_state
    by (auto simp: demo_line_def demo_written_def spec_write_def newline_def ring_push_def)
qed

section \<open>Properties of the write handler\<close>

text \<open>
  C11. A write that the kernel grants returns the number of bytes written and appends them to
  the line being written; when the last of them is a newline the line becomes the newest of
  the device's lines, the oldest of ten is dropped and its block freed, and the device's
  invariant (its blocks are exactly those it still needs) is kept.
\<close>

theorem write_appends:
  assumes "write_pre k s buf count" "buf \<noteq> []" "private_data filp = Some Aesd_device"
    "lock_rv k = 0" "kmalloc k (mem s) (write_request s count) \<noteq> None" "copy_from_user k count = 0"
  shows "\<exists>s'. aesd_write k s filp buf count = Inr (sint count, s') \<and> dev_inv s' \<and>
    (held_lines s', pending s') = spec_write (held_lines s, pending s) buf"
proof -
  from assms(5) obtain a blk
    where a: "kmalloc k (mem s) (write_request s count) = Some (a, blk)" by auto
  show ?thesis
    using aesd_write_ok[OF assms(1) a assms(4,6,3,2)] write_result_refines[OF assms(1) a assms(2)]
    by blast
qed

theorem write_appends_witness:
  "\<exists>s'. aesd_write demo_kernel demo_device demo_filp demo_line 3 = Inr (3, s') \<and> dev_inv s' \<and>
    held_lines s' = [[104, 105, 10]] \<and> pending s' = []"
  using write_appends[of demo_kernel demo_device demo_line 3 demo_filp]
    demo_pre[of demo_line] demo_filp_device demo_request demo_device_state
  by (auto simp: demo_kernel_grants demo_line_def spec_write_def newline_def ring_push_def)

text \<open>
  C31. When the lock is interrupted, no memory is left or the bytes cannot be copied in, the
  write returns the matching error and leaves the device and its memory exactly as they were.
\<close>

theorem write_error_changes_nothing:
  assumes "write_pre k s buf count" "private_data filp = Some Aesd_device"
    "lock_rv k \<noteq> 0 \<or> kmalloc k (mem s) (write_request s count) = None \<or> copy_from_user k count > 0"
  shows "aesd_write k s filp buf count =
    Inr (if lock_rv k \<noteq> 0 then - ERESTARTSYS
         else if kmalloc k (mem s) (write_request s count) = None then - ENOMEM
         else - EFAULT, s)"
proof (cases "lock_rv k = 0 \<and> kmalloc k (mem s) (write_request s count) \<noteq> None")
  case True
  then obtain a blk where a: "kmalloc k (mem s) (write_request s count) = Some (a, blk)" by auto
  with True assms show ?thesis by (simp add: aesd_write_copy_error)
next
  case False
  with assms show ?thesis
    by (cases "lock_rv k = 0") (simp_all add: aesd_write_lock_error aesd_write_alloc_error)
qed

theorem write_error_changes_nothing_witness:
  "aesd_write (demo_kernel\<lparr>copy_from_user := (\<lambda>n. if 2 \<le> n then 2 else 0)\<rparr>) demo_device demo_filp
     demo_line 3 = Inr (- 14, demo_device)"
proof -
  let ?k = "demo_kernel\<lparr>copy_from_user := (\<lambda>n. if 2 \<le> n then 2 else 0)\<rparr>"
  have "write_pre ?k demo_device demo_line 3"
    using demo_pre[of demo_line] by (auto simp: write_pre_def kernel_ok_def demo_line_def)
  from write_error_changes_nothing[OF this demo_filp_device] show ?thesis
    using demo_request by (simp add: demo_kernel_grants EFAULT_def)
qed

text \<open>
  C33. A write of zero bytes while no line is being written makes the handler look at the byte
  before the start of the new block.
\<close>

theorem write_zero_bytes_out_of_bounds:
  assumes "dev_inv s" "pending s = []" "kernel_ok k" "private_data filp = Some Aesd_device"
    "lock_rv k = 0" "kmalloc k (mem s) 0 \<noteq> None"
  shows "aesd_write k s filp [] 0 = Inl OutOfBounds"
proof -
  note inv = dev_invD[OF assms(1)]
  have T: "entry_temp s = null_entry"
    using inv(3,4) assms(2) store_invD(4)[OF inv(1)] by (auto elim: entry_okE simp: pending_def)
  from assms(6) obtain a blk where a: "kmalloc k (mem s) 0 = Some (a, blk)" by auto
  then have "alloc_ok (mem s) 0 (Some (a, blk))" using assms(3) by (metis kernel_ok_def unat_0)
  moreover have "copy_from_user k 0 \<le> 0" using assms(3) by (simp only: kernel_ok_def)
  ultimately show ?thesis
    using T a assms(4,5) inv(2)
    by (simp add: aesd_write_def get_lock_def mem_simps copy_in_def mem_write_def mem_read_def
        Let_def)
qed

theorem write_zero_bytes_out_of_bounds_witness:
  "aesd_write demo_kernel demo_device demo_filp [] 0 = Inl OutOfBounds"
  using write_zero_bytes_out_of_bounds[OF demo_device_state(1,3) demo_kernel_ok demo_filp_device]
    demo_request by (simp add: demo_kernel_grants)

section \<open>Properties of the read handler\<close>

text \<open>A kernel on which every copy to the user fails.\<close>

lemma aesd_read_first_copy_fails:
  assumes "dev_inv s" "unat f_pos < length (device_bytes s)" "0 < count"
    "lock_rv k = 0" "private_data filp = Some Aesd_device" "\<And>off m. 0 < m \<Longrightarrow> 0 < copy_to_user k off m"
  shows "\<exists>out. aesd_read k s filp count f_pos = Inr (- EFAULT, out, f_pos, s)"
proof -
  let ?s1 = "s\<lparr>buffer_lock := True\<rparr>"
  have inv: "store_inv (buffer ?s1) (entry_temp s) (mem ?s1)" using dev_invD(1)[OF assms(1)] by simp
  have "unat f_pos < length (device_bytes ?s1)" using assms(2) by (simp add: held_lines_def)
  with inv obtain i r e where f:
    "aesd_circular_buffer_find_entry_offset_for_fpos (buffer ?s1) f_pos = Inr (Some (i, r))"
    "get_entry (buffer ?s1) i = Inr e" "r < entry_size e"
    and rd: "\<And>n. n \<le> unat (entry_size e - r) \<Longrightarrow>
      mem_read (mem ?s1) (buffptr e) (unat r) n = Inr (take n (drop (unat f_pos) (device_bytes ?s1))) \<and>
      n \<le> length (device_bytes ?s1) - unat f_pos"
    by (rule find_device_Some) blast
  let ?n = "bytes_to_copy (entry_size e - r) count 0"
  have n: "0 < ?n" "?n \<le> entry_size e - r"
    using bytes_to_copy_bounds(1)[OF assms(3) f(3)] by (auto simp: bytes_to_copy_def)
  have "\<exists>out. read_loop k ?s1 count f_pos 0 [] = Inr (False, 0, out)"
    using assms(3) f rd[of "unat ?n"] n(2) assms(6)[OF n(1)]
    by (subst read_loop.simps) (simp add: word_le_nat_alt Let_def)
  then obtain out where "read_loop k ?s1 count f_pos 0 [] = Inr (False, 0, out)" by blast
  then show ?thesis
    using assms(4,5) dev_invD(2)[OF assms(1)] by (simp add: aesd_read_def get_lock_def release_lock_def)
qed

lemma read_delivers_eq:
  assumes "dev_inv s" "length (device_bytes s) < 2 ^ 63" "kernel_ok k"
    "lock_rv k = 0" "private_data filp = Some Aesd_device" "\<forall>off m. copy_to_user k off m = 0"
  shows "aesd_read k s filp count f_pos =
    (let data = take (unat count) (drop (unat f_pos) (device_bytes s))
     in Inr (int (length data), data, f_pos + word_of_nat (length data), s))"
proof -
  from aesd_read_eq[OF assms(1-5), of count f_pos] assms(6)
  have "aesd_read k s filp count f_pos =
      (let n = min (unat count) (length (device_bytes s) - unat f_pos)
       in Inr (int n, take n (drop (unat f_pos) (device_bytes s)), f_pos + word_of_nat n, s))"
    by (auto simp: Let_def)
  moreover have "take (min c (length D - p)) (drop p D) = take c (drop p D)" for c p and D :: "byte list"
    by (simp add: min_def)
  ultimately show ?thesis by (simp add: Let_def min.commute)
qed

text \<open>
  C13. A read from any position delivers the device's bytes (its lines one after the other)
  from that position, as many as were asked for and exist, returns their number, moves the
  position past them and leaves the device as it was; at the end it returns zero.
\<close>

theorem read_delivers_device_bytes:
  assumes "dev_inv s" "length (device_bytes s) < 2 ^ 63" "kernel_ok k"
    "lock_rv k = 0" "private_data filp = Some Aesd_device" "\<forall>off m. copy_to_user k off m = 0"
  shows "aesd_read k s filp count f_pos =
    (let data = take (unat count) (drop (unat f_pos) (device_bytes s))
     in Inr (int (length data), data, f_pos + word_of_nat (length data), s))"
  using assms by (rule read_delivers_eq)

theorem read_delivers_device_bytes_witness:
  "aesd_read demo_kernel demo_written demo_filp 8 1 = Inr (2, [105, 10], 3, demo_written)"
  using read_delivers_device_bytes[of demo_written demo_kernel demo_filp 8 1] demo_written_state
    demo_kernel_ok demo_filp_device
  by (simp add: demo_kernel_grants)

text \<open>
  When a copy to the user fails, the read returns \<open>-EFAULT\<close> and changes neither the device
  nor the file position, although the user's buffer may already hold a beginning of the data.
\<close>

theorem read_failure_keeps_position:
  assumes "dev_inv s" "length (device_bytes s) < 2 ^ 63" "kernel_ok k"
    "lock_rv k = 0" "private_data filp = Some Aesd_device"
    "aesd_read k s filp count f_pos = Inr (r, out, f_pos', s')" "r < 0"
  shows "r = - EFAULT \<and> f_pos' = f_pos \<and> s' = s \<and>
    (\<exists>n \<le> unat count. out = take n (drop (unat f_pos) (device_bytes s)))"
  using aesd_read_eq[OF assms(1-5), of count f_pos] assms(6,7) by (auto split: if_splits)

theorem read_failure_keeps_position_witness:
  "\<exists>out. aesd_read (demo_kernel\<lparr>copy_to_user := (\<lambda>off n. n)\<rparr>) demo_written demo_filp 8 1 =
      Inr (- 14, out, 1, demo_written) \<and> (\<exists>n \<le> 8. out = take n [105, 10])"
proof -
  let ?k = "demo_kernel\<lparr>copy_to_user := (\<lambda>off n. n)\<rparr>"
  have ok: "kernel_ok ?k" using demo_kernel_ok by (simp add: kernel_ok_def)
  have small: "length (device_bytes demo_written) < 2 ^ 63"
    and pos: "unat (1 :: loff_t) < length (device_bytes demo_written)"
    using demo_written_state(3) by simp_all
  have lock: "lock_rv ?k = 0" by (simp add: demo_kernel_grants)
  obtain out where r: "aesd_read ?k demo_written demo_filp 8 1 = Inr (- EFAULT, out, 1, demo_written)"
    using aesd_read_first_copy_fails[OF demo_written_state(2) pos _ lock demo_filp_device, of 8] by auto
  have "- EFAULT < 0" by (simp add: EFAULT_def)
  from read_failure_keeps_position[OF demo_written_state(2) small ok lock demo_filp_device r this] r
  show ?thesis using demo_written_state(3) by (auto simp: EFAULT_def)
qed

section \<open>Properties of the module\<close>

text \<open>
  C24. In every state that calls can reach, the allocated blocks are exactly those of the lines
  kept and of the line being written, each of them once: nothing is leaked or freed early, and
  at most eleven blocks are ever allocated.
\<close>

theorem reachable_memory_is_owned:
  assumes "driver_reachable s"
  shows "dom (mem s) = set (owned s) \<and> distinct (owned s) \<and> card (dom (mem s)) \<le> max_ops + 1"
proof -
  from driver_reachable_inv[OF assms] have inv: "store_inv (buffer s) (entry_temp s) (mem s)"
    by (rule dev_invD)
  have "card (set (owned s)) \<le> length (owned s)" by (rule card_length)
  also have "\<dots> \<le> max_ops + 1"
    using held_count_le[of "buffer s"] by (simp add: owned_of_def split: option.splits)
  finally show ?thesis using store_invD(5,6)[OF inv] by simp
qed

theorem reachable_memory_is_owned_witness:
  "dom (mem demo_written) = set (owned demo_written) \<and> distinct (owned demo_written) \<and>
   card (dom (mem demo_written)) \<le> max_ops + 1"
  by (rule reachable_memory_is_owned[OF demo_written_state(1)])

text \<open>
  C32. Cleaning up the module unregisters the device and frees the line being written, but the
  blocks of the lines in the circular buffer stay allocated although the buffer is reset: the
  loop that is meant to free them stops before the first one.
\<close>

theorem cleanup_leaks_held_lines:
  assumes "driver_reachable s"
  shows "\<exists>s'. aesd_cleanup_module s = Inr s' \<and> held_lines s' = [] \<and> pending s' = [] \<and>
    \<not> region s' \<and> \<not> cdev_added (cdev s') \<and> card (dom (mem s')) = length (held_lines s)"
proof -
  have inv: "dev_inv s" using assms by (rule driver_reachable_inv)
  from cleanup_module_eq[OF inv] obtain s'
    where s': "aesd_cleanup_module s = Inr s'" "held_lines s' = []" "entry_temp s' = null_entry"
      "\<not> region s'" "\<not> cdev_added (cdev s')" "dom (mem s') = (the \<circ> buffptr) ` set (held (buffer s))"
    by blast
  have "distinct (map (the \<circ> buffptr) (held (buffer s)))"
    using store_invD(5)[OF dev_invD(1)[OF inv]] by (simp add: owned_of_def)
  then have "card (set (map (the \<circ> buffptr) (held (buffer s)))) = length (held_lines s)"
    by (simp only: distinct_card) (simp add: held_lines_def)
  then have "card (dom (mem s')) = length (held_lines s)"
    unfolding s'(6) set_map[symmetric] .
  with s' show ?thesis by (auto simp: pending_def)
qed

theorem cleanup_leaks_held_lines_witness:
  "\<exists>s'. aesd_cleanup_module demo_written = Inr s' \<and> held_lines s' = [] \<and> card (dom (mem s')) = 1"
  using cleanup_leaks_held_lines[OF demo_written_state(1)] demo_written_state(3) by auto

text \<open>
  C12. After any number of lines were written to a freshly loaded device, each in any number
  of pieces, reading from the start gives exactly the last ten lines, in order.
\<close>

theorem device_keeps_last_ten_lines:
  assumes "fresh_device s0" "append_run logged s0 ls s"
    and "length (concat ls) < 2 ^ 63" "length (concat (take_last max_ops ls)) \<le> unat count"
    and "kernel_ok k" "lock_rv k = 0" "\<forall>off m. copy_to_user k off m = 0"
    and "private_data filp = Some Aesd_device"
  shows "\<exists>f_pos'. aesd_read k s filp count 0 =
    Inr (int (length (concat (take_last max_ops ls))), concat (take_last max_ops ls), f_pos', s)"
proof -
  have inv: "line_inv s" and lines: "held_lines s = take_last max_ops ls"
    using line_log.run_invar[OF assms(1,2)] line_log.run_view[OF assms(1,2)] by simp_all
  from inv have dev: "dev_inv s" by (simp add: line_inv_def)
  have "length (concat (take_last max_ops ls)) \<le> length (concat ls)"
    unfolding take_last_def
    by (metis append_take_drop_id concat_append le_add2 length_append)
  then have "length (device_bytes s) < 2 ^ 63" using assms(3) lines by simp
  from read_delivers_eq[OF dev this assms(5,6,8,7), of count 0] show ?thesis
    using assms(4) by (simp add: lines Let_def)
qed

lemma demo_logged: "append_run logged demo_device [demo_line] demo_written"
proof -
  have "wrote demo_device demo_line demo_written"
    unfolding wrote_def
    using demo_pre[of demo_line] demo_filp_device demo_write demo_request
    by (intro conjI exI[of _ demo_kernel] exI[of _ demo_filp] exI[of _ 3])
      (auto simp: demo_line_def demo_kernel_grants)
  moreover have "split_line [demo_line] demo_line"
    by (simp add: split_line_def demo_line_def newline_def)
  ultimately have "logged demo_device demo_line demo_written"
    unfolding logged_def by (intro exI[of _ "[demo_line]"]) simp
  then show ?thesis by simp
qed

theorem device_keeps_last_ten_lines_witness:
  "\<exists>f_pos'. aesd_read demo_kernel demo_written demo_filp 64 0 =
    Inr (3, [104, 105, 10], f_pos', demo_written)"
  using device_keeps_last_ten_lines[OF demo_device_fresh demo_logged _ _ demo_kernel_ok, of 64 demo_filp]
  by (simp add: demo_kernel_grants demo_filp_device demo_line_def)

text \<open>
  Initialising the module leaves it registered with an empty device, or, when the kernel
  refuses the device numbers or the device, returns the error with nothing registered; the
  device's memory is untouched in every case.
\<close>

theorem init_module_cases:
  assumes "aesd_init_module region_rv major add_rv s = (r, s')"
    and "\<not> region s" "\<not> cdev_added (cdev s)" "mem s = Map.empty"
  shows "mem s' = Map.empty \<and>
    r = (if region_rv < 0 then region_rv else add_rv) \<and>
    (if region_rv \<ge> 0 \<and> add_rv = 0
     then region s' \<and> cdev_added (cdev s') \<and> dev_inv s' \<and> held_lines s' = [] \<and> pending s' = []
     else \<not> region s' \<and> \<not> cdev_added (cdev s'))"
proof (cases "region_rv \<ge> 0 \<and> add_rv = 0")
  case True
  with init_module_ok[of region_rv s major] assms show ?thesis
    by (auto simp: aesd_init_module_def aesd_setup_cdev_def Let_def)
next
  case False
  with assms show ?thesis
    by (auto simp: aesd_init_module_def aesd_setup_cdev_def Let_def split: if_splits)
qed

theorem init_module_cases_witness:
  "\<exists>s'. aesd_init_module 0 240 (- 16) demo_unloaded = (- 16, s') \<and> \<not> region s' \<and>
    \<not> cdev_added (cdev s') \<and> mem s' = Map.empty"
proof -
  obtain r s' where r: "aesd_init_module 0 240 (- 16) demo_unloaded = (r, s')" by fastforce
  from init_module_cases[OF r] r show ?thesis by (simp add: demo_unloaded_def)
qed

end
