(* ===== verification/Slist.thy ===== *)
theory Slist
  imports Prelude
begin

text \<open>
  The singly-linked lists of \<^verbatim>\<open>server/queue.h\<close>, which the server keeps its threads in. An
  element is a block name; the store \<open>links\<close> gives the \<open>sle_next\<close> pointer of every allocated
  element, so following a pointer to a freed element or NULL is a fault. A list head is the
  pointer \<open>slh_first\<close>. A macro whose loop may run forever on a damaged list has an optional
  result, \<open>None\<close> for not returning.
\<close>

section \<open>The macros\<close>

type_synonym links = "addr \<rightharpoonup> ptr"

definition SLIST_NEXT :: "links \<Rightarrow> ptr \<Rightarrow> fault + ptr" where
  "SLIST_NEXT m elm =
     (case elm of
        None \<Rightarrow> Inl NullDeref
      | Some a \<Rightarrow> (case m a of None \<Rightarrow> Inl UseAfterFree | Some n \<Rightarrow> Inr n))"

definition set_next :: "links \<Rightarrow> ptr \<Rightarrow> ptr \<Rightarrow> fault + links" where
  "set_next m elm n =
     (case elm of
        None \<Rightarrow> Inl NullDeref
      | Some a \<Rightarrow> (case m a of None \<Rightarrow> Inl UseAfterFree | Some _ \<Rightarrow> Inr (m(a \<mapsto> n))))"

definition SLIST_INIT :: ptr where
  "SLIST_INIT = None"

definition SLIST_EMPTY :: "ptr \<Rightarrow> bool" where
  "SLIST_EMPTY slh_first \<longleftrightarrow> slh_first = None"

definition SLIST_INSERT_HEAD :: "links \<Rightarrow> ptr \<Rightarrow> ptr \<Rightarrow> fault + ptr \<times> links" where
  "SLIST_INSERT_HEAD m slh_first elm =
     bindE (set_next m elm slh_first) (\<lambda>m1. Inr (elm, m1))"

definition SLIST_INSERT_AFTER :: "links \<Rightarrow> ptr \<Rightarrow> ptr \<Rightarrow> fault + links" where
  "SLIST_INSERT_AFTER m slistelm elm =
     bindE (SLIST_NEXT m slistelm) (\<lambda>n.
     bindE (set_next m elm n) (\<lambda>m1. set_next m1 slistelm elm))"

definition SLIST_REMOVE_AFTER :: "links \<Rightarrow> ptr \<Rightarrow> fault + links" where
  "SLIST_REMOVE_AFTER m elm =
     bindE (SLIST_NEXT m elm) (\<lambda>n.
     bindE (SLIST_NEXT m n) (\<lambda>nn. set_next m elm nn))"

definition SLIST_REMOVE_HEAD :: "links \<Rightarrow> ptr \<Rightarrow> fault + ptr" where
  "SLIST_REMOVE_HEAD m slh_first = SLIST_NEXT m slh_first"

text \<open>The loop of \<open>SLIST_REMOVE\<close>: walk to the element before \<open>elm\<close>.\<close>

partial_function (option) walk_to :: "links \<Rightarrow> ptr \<Rightarrow> ptr \<Rightarrow> (fault + ptr) option" where
  "walk_to m cur elm =
     (case SLIST_NEXT m cur of
        Inl f \<Rightarrow> Some (Inl f)
      | Inr n \<Rightarrow> if n \<noteq> elm then walk_to m n elm else Some (Inr cur))"

definition SLIST_REMOVE :: "links \<Rightarrow> ptr \<Rightarrow> ptr \<Rightarrow> (fault + ptr \<times> links) option" where
  "SLIST_REMOVE m slh_first elm =
     (if slh_first = elm
      then Some (bindE (SLIST_REMOVE_HEAD m slh_first) (\<lambda>f. Inr (f, m)))
      else Option.bind (walk_to m slh_first elm) (\<lambda>r.
        Some (bindE r (\<lambda>cur. bindE (SLIST_REMOVE_AFTER m cur) (\<lambda>m1. Inr (slh_first, m1))))))"

text \<open>
  \<open>SLIST_CONCAT\<close> moves the second list to the end of the first; the result is the two heads.
\<close>

definition SLIST_CONCAT :: "links \<Rightarrow> ptr \<Rightarrow> ptr \<Rightarrow> (fault + ptr \<times> ptr \<times> links) option" where
  "SLIST_CONCAT m first1 first2 =
     (if first1 = None
      then (if first2 \<noteq> None then Some (Inr (first2, SLIST_INIT, m))
            else Some (Inr (first2, first2, m)))
      else if first2 \<noteq> None
      then Option.bind (walk_to m first1 None) (\<lambda>r.
        Some (bindE r (\<lambda>cur. bindE (set_next m cur first2) (\<lambda>m1. Inr (first1, SLIST_INIT, m1)))))
      else Some (Inr (first1, first2, m)))"

definition SLIST_SPLIT_AFTER :: "links \<Rightarrow> ptr \<Rightarrow> fault + ptr \<times> links" where
  "SLIST_SPLIT_AFTER m elm =
     bindE (SLIST_NEXT m elm) (\<lambda>rest.
     bindE (set_next m elm None) (\<lambda>m1. Inr (rest, m1)))"

definition SLIST_SWAP :: "ptr \<Rightarrow> ptr \<Rightarrow> ptr \<times> ptr" where
  "SLIST_SWAP first1 first2 = (let swap_first = first1; f1 = first2; f2 = swap_first in (f1, f2))"

text \<open>
  \<open>SLIST_FOREACH_SAFE\<close>: the next pointer is read before the body runs, so the body may unlink
  and free the element it is given. The state of the body, which may come with an early end of
  its own loops (\<open>None\<close>), holds the links.
\<close>

partial_function (option) SLIST_FOREACH_SAFE ::
  "('s \<Rightarrow> links) \<Rightarrow> ('s \<Rightarrow> addr \<Rightarrow> (fault + 's) option) \<Rightarrow> 's \<Rightarrow> ptr \<Rightarrow> (fault + 's) option" where
  "SLIST_FOREACH_SAFE links_of body s var =
     (case var of
        None \<Rightarrow> Some (Inr s)
      | Some a \<Rightarrow>
          (case SLIST_NEXT (links_of s) var of
             Inl f \<Rightarrow> Some (Inl f)
           | Inr tvar \<Rightarrow>
               Option.bind (body s a) (\<lambda>r.
                 case r of
                   Inl f \<Rightarrow> Some (Inl f)
                 | Inr s1 \<Rightarrow> SLIST_FOREACH_SAFE links_of body s1 tvar)))"

section \<open>The list a head stands for\<close>

primrec chain :: "links \<Rightarrow> ptr \<Rightarrow> addr list \<Rightarrow> ptr \<Rightarrow> bool" where
  "chain m p [] q \<longleftrightarrow> p = q"
| "chain m p (x # xs) q \<longleftrightarrow> p = Some x \<and> (\<exists>n. m x = Some n \<and> chain m n xs q)"

definition slist :: "links \<Rightarrow> ptr \<Rightarrow> addr list \<Rightarrow> bool" where
  "slist m p xs \<longleftrightarrow> chain m p xs None"

lemma chain_append:
  "chain m p (xs @ ys) q \<longleftrightarrow> (\<exists>r. chain m p xs r \<and> chain m r ys q)"
  by (induction xs arbitrary: p) auto

lemma chain_cong:
  "\<forall>x \<in> set xs. m x = m' x \<Longrightarrow> chain m p xs q = chain m' p xs q"
  by (induction xs arbitrary: p) auto

lemma chain_upd [simp]: "a \<notin> set xs \<Longrightarrow> chain (m(a := n)) p xs q = chain m p xs q"
  by (rule chain_cong) auto

lemma slist_simps [simp]:
  "slist m p [] \<longleftrightarrow> p = None"
  "slist m p (x # xs) \<longleftrightarrow> p = Some x \<and> (\<exists>n. m x = Some n \<and> slist m n xs)"
  "slist m None xs \<longleftrightarrow> xs = []"
  by (auto simp: slist_def) (cases xs; auto)

lemma slist_cong:
  "\<forall>x \<in> set xs. m x = m' x \<Longrightarrow> slist m p xs = slist m' p xs"
  unfolding slist_def by (rule chain_cong)

lemma slist_append: "slist m p (xs @ ys) \<longleftrightarrow> (\<exists>r. chain m p xs r \<and> slist m r ys)"
  by (simp add: slist_def chain_append)

lemma slist_unique: "slist m p xs \<Longrightarrow> slist m p ys \<Longrightarrow> xs = ys"
proof (induction xs arbitrary: p ys)
  case (Cons x xs)
  then show ?case by (cases ys) auto
qed simp

lemma slist_distinct: "slist m p xs \<Longrightarrow> distinct xs"
proof (induction xs arbitrary: p)
  case (Cons x xs)
  then obtain n where n: "m x = Some n" "slist m n xs" by auto
  have "x \<notin> set xs"
  proof
    assume "x \<in> set xs"
    then obtain ys zs where "xs = ys @ x # zs" by (meson split_list)
    with n have "slist m (Some x) (x # zs)" "slist m (Some x) (x # xs)"
      by (auto simp: slist_append)
    then have "zs = xs" by (blast dest: slist_unique)
    with \<open>xs = ys @ x # zs\<close> show False by simp
  qed
  with Cons n show ?case by auto
qed simp

lemma slist_dom: "slist m p xs \<Longrightarrow> set xs \<subseteq> dom m"
  by (induction xs arbitrary: p) auto

lemma slist_first: "slist m p xs \<Longrightarrow> p = (case xs of [] \<Rightarrow> None | x # _ \<Rightarrow> Some x)"
  by (cases xs) auto

section \<open>What the macros do to the list\<close>

lemma SLIST_NEXT_Some [simp]: "m a = Some n \<Longrightarrow> SLIST_NEXT m (Some a) = Inr n"
  by (simp add: SLIST_NEXT_def)

lemma SLIST_NEXT_NULL [simp]: "SLIST_NEXT m None = Inl NullDeref"
  by (simp add: SLIST_NEXT_def)

lemma set_next_Some [simp]: "m a = Some n' \<Longrightarrow> set_next m (Some a) n = Inr (m(a \<mapsto> n))"
  by (simp add: set_next_def)

lemma insert_head_slist:
  assumes "slist m p xs" "m x \<noteq> None" "x \<notin> set xs"
  shows "SLIST_INSERT_HEAD m p (Some x) = Inr (Some x, m(x \<mapsto> p)) \<and> slist (m(x \<mapsto> p)) (Some x) (x # xs)"
  using assms by (auto simp: SLIST_INSERT_HEAD_def slist_def)

lemma walk_to_step:
  "SLIST_NEXT m p = Inr n \<Longrightarrow> walk_to m p q = (if n \<noteq> q then walk_to m n q else Some (Inr p))"
  by (subst walk_to.simps) simp

lemma walk_to_NULL: "walk_to m None q = Some (Inl NullDeref)"
  by (subst walk_to.simps) simp

text \<open>The walk stops at the element before the first place that holds the pointer sought.\<close>

lemma walk_to_chain:
  assumes "chain m p (xs @ [y]) q" "Some y \<noteq> q" "q \<notin> Some ` set xs"
  shows "walk_to m p q = Some (Inr (Some y))"
  using assms
proof (induction xs arbitrary: p)
  case Nil
  then show ?case by (auto simp: walk_to_step)
next
  case (Cons x xs)
  then obtain n where n: "p = Some x" "m x = Some n" "chain m n (xs @ [y]) q" by auto
  then have "n \<noteq> q" using Cons.prems(2,3) by (cases xs) auto
  with n Cons show ?case by (auto simp: walk_to_step)
qed

lemma walk_to_absent:
  assumes "slist m p xs" "a \<notin> set xs"
  shows "walk_to m p (Some a) = Some (Inl NullDeref)"
  using assms
proof (induction xs arbitrary: p)
  case Nil
  then show ?case by (simp add: walk_to_NULL)
next
  case (Cons x xs)
  then obtain n where n: "p = Some x" "m x = Some n" "slist m n xs" by auto
  then have "n \<noteq> Some a" using Cons.prems(2) by (auto dest!: slist_first split: list.splits)
  with n Cons show ?case by (auto simp: walk_to_step)
qed

lemma remove_after_chain:
  assumes "slist m p (xs @ y # z # zs)"
  shows "\<exists>n. m z = Some n \<and> SLIST_REMOVE_AFTER m (Some y) = Inr (m(y \<mapsto> n)) \<and>
    slist (m(y \<mapsto> n)) p (xs @ y # zs)"
proof -
  have d: "distinct (xs @ y # z # zs)" using assms by (rule slist_distinct)
  from assms obtain n where n: "chain m p xs (Some y)" "m y = Some (Some z)" "m z = Some n" "slist m n zs"
    by (auto simp: slist_append)
  with d show ?thesis
    by (intro exI[of _ n]) (auto simp: SLIST_REMOVE_AFTER_def chain_append slist_def)
qed

lemma remove_slist:
  assumes "slist m p xs" "x \<in> set xs"
  shows "\<exists>p' m'. SLIST_REMOVE m p (Some x) = Some (Inr (p', m')) \<and> slist m' p' (remove1 x xs) \<and>
    dom m' = dom m \<and> (\<forall>y. y \<notin> set xs \<longrightarrow> m' y = m y)"
proof -
  have d: "distinct xs" using assms(1) by (rule slist_distinct)
  from assms(2) obtain ys zs where xs: "xs = ys @ x # zs" by (meson split_list)
  show ?thesis
  proof (cases ys rule: rev_cases)
    case Nil
    with assms(1) xs show ?thesis
      by (auto simp: SLIST_REMOVE_def SLIST_REMOVE_HEAD_def)
  next
    case (snoc ws w)
    with xs have xs': "xs = ws @ w # x # zs" by simp
    have c: "chain m p (ws @ [w]) (Some x)"
      using assms(1) xs snoc by (auto simp: slist_def chain_append)
    have "walk_to m p (Some x) = Some (Inr (Some w))"
      using d xs' by (intro walk_to_chain[OF c]) auto
    moreover obtain n where n: "SLIST_REMOVE_AFTER m (Some w) = Inr (m(w \<mapsto> n))"
      "slist (m(w \<mapsto> n)) p (ws @ w # zs)" "m w \<noteq> None"
      using remove_after_chain[of m p ws w x zs] assms(1) slist_dom[OF assms(1)] xs' by auto
    moreover have "p \<noteq> Some x"
      using assms(1) d xs' by (cases ws) auto
    moreover have "remove1 x xs = ws @ w # zs" using d xs' by (simp add: remove1_append)
    ultimately show ?thesis
      using xs' by (auto simp: SLIST_REMOVE_def)
  qed
qed

lemma remove_absent:
  assumes "slist m p xs" "x \<notin> set xs"
  shows "SLIST_REMOVE m p (Some x) = Some (Inl NullDeref)"
proof -
  have "p \<noteq> Some x" using assms by (auto dest!: slist_first split: list.splits)
  then show ?thesis using walk_to_absent[OF assms] by (simp add: SLIST_REMOVE_def)
qed

lemma insert_after_slist:
  assumes "slist m p (xs @ y # zs)" "m x \<noteq> None" "x \<notin> set (xs @ y # zs)"
  shows "\<exists>m'. SLIST_INSERT_AFTER m (Some y) (Some x) = Inr m' \<and> slist m' p (xs @ y # x # zs)"
proof -
  have d: "distinct (xs @ y # zs)" using assms(1) by (rule slist_distinct)
  from assms(1) obtain n where n: "chain m p xs (Some y)" "m y = Some n" "slist m n zs"
    by (auto simp: slist_append)
  with d assms(2,3) show ?thesis
    by (auto simp: SLIST_INSERT_AFTER_def chain_append slist_def)
qed

lemma split_after_slist:
  assumes "slist m p (xs @ y # zs)"
  shows "\<exists>rest m'. SLIST_SPLIT_AFTER m (Some y) = Inr (rest, m') \<and>
    slist m' p (xs @ [y]) \<and> slist m' rest zs \<and> dom m' = dom m"
proof -
  have d: "distinct (xs @ y # zs)" using assms by (rule slist_distinct)
  from assms obtain n where n: "chain m p xs (Some y)" "m y = Some n" "slist m n zs"
    by (auto simp: slist_append)
  with d show ?thesis
    by (auto simp: SLIST_SPLIT_AFTER_def chain_append slist_def)
qed

lemma concat_slist:
  assumes "slist m p xs" "slist m q ys" "set xs \<inter> set ys = {}"
  shows "\<exists>p' m'. SLIST_CONCAT m p q = Some (Inr (p', None, m')) \<and> slist m' p' (xs @ ys)"
proof (cases xs rule: rev_cases)
  case Nil
  with assms show ?thesis by (auto simp: SLIST_CONCAT_def SLIST_INIT_def)
next
  case (snoc ws w)
  have d: "distinct xs" using assms(1) by (rule slist_distinct)
  have c: "chain m p (ws @ [w]) None" using assms(1) snoc by (simp add: slist_def)
  have p: "p \<noteq> None" by (rule notI) (use assms(1) snoc in simp)
  from c have w: "walk_to m p None = Some (Inr (Some w))"
    by (intro walk_to_chain) auto
  from c have mw: "m w = Some None" and cw: "chain m p ws (Some w)" by (auto simp: chain_append)
  show ?thesis
  proof (cases "q = None")
    case True
    with assms(1,2) p show ?thesis by (auto simp: SLIST_CONCAT_def SLIST_INIT_def)
  next
    case False
    have "w \<notin> set ws" "w \<notin> set ys" using d snoc assms(3) by auto
    with cw assms(2) have "slist (m(w \<mapsto> q)) p (xs @ ys)"
      using snoc by (auto simp: slist_def chain_append)
    with False p w mw show ?thesis by (auto simp: SLIST_CONCAT_def SLIST_INIT_def)
  qed
qed

section \<open>Traversal that may remove the current element\<close>

lemma foreach_safe_Nil [simp]: "SLIST_FOREACH_SAFE links_of body s None = Some (Inr s)"
  by (subst SLIST_FOREACH_SAFE.simps) simp

lemma foreach_safe_Cons:
  "links_of s a = Some n \<Longrightarrow>
   SLIST_FOREACH_SAFE links_of body s (Some a) =
     Option.bind (body s a) (\<lambda>r. case r of Inl f \<Rightarrow> Some (Inl f)
       | Inr s1 \<Rightarrow> SLIST_FOREACH_SAFE links_of body s1 n)"
  by (subst SLIST_FOREACH_SAFE.simps) simp

text \<open>
  The contract of a body for this traversal: on the current element \<open>a\<close> it terminates without
  a fault, keeps its invariant and does not touch the links of the elements still to come.
  Then the traversal runs the body on every element of the original list once, in order.
\<close>

locale foreach_body =
  fixes links_of :: "'s \<Rightarrow> links"
    and body :: "'s \<Rightarrow> addr \<Rightarrow> (fault + 's) option"
    and invar :: "addr list \<Rightarrow> 's \<Rightarrow> bool"
    and effect :: "'s \<Rightarrow> addr \<Rightarrow> 's"
  assumes body_ok: "invar (a # as) s \<Longrightarrow> body s a = Some (Inr (effect s a))"
    and body_invar: "invar (a # as) s \<Longrightarrow> invar as (effect s a)"
    and todo: "invar (a # as) s \<Longrightarrow>
      \<exists>n. links_of s a = Some n \<and> n = (case as of [] \<Rightarrow> None | b # _ \<Rightarrow> Some b)"
begin

lemma foreach_visits:
  "invar as s \<Longrightarrow>
   SLIST_FOREACH_SAFE links_of body s (case as of [] \<Rightarrow> None | b # _ \<Rightarrow> Some b) =
     Some (Inr (foldl effect s as))"
proof (induction as arbitrary: s)
  case Nil
  then show ?case by simp
next
  case (Cons a as)
  from todo[OF Cons.prems] have "links_of s a = Some (case as of [] \<Rightarrow> None | b # _ \<Rightarrow> Some b)"
    by simp
  with Cons.IH[OF body_invar[OF Cons.prems]] body_ok[OF Cons.prems] show ?case
    by (simp add: foreach_safe_Cons)
qed

lemma foreach_final: "invar as s \<Longrightarrow> invar [] (foldl effect s as)"
  by (induction as arbitrary: s) (simp_all add: body_invar)

end

section \<open>Properties of the macros\<close>

text \<open>
  On a well-formed list \<open>SLIST_REMOVE\<close> ends; it takes an element of the list out, touching
  no link outside the list and freeing nothing, and on an element that is not in the list it runs
  off the end and dereferences NULL.
\<close>

theorem slist_remove_cases:
  "slist m p xs \<Longrightarrow>
   (case SLIST_REMOVE m p (Some x) of
      None \<Rightarrow> False
    | Some (Inl f) \<Rightarrow> x \<notin> set xs \<and> f = NullDeref
    | Some (Inr (p', m')) \<Rightarrow> x \<in> set xs \<and> slist m' p' (remove1 x xs) \<and> dom m' = dom m \<and>
        (\<forall>y. y \<notin> set xs \<longrightarrow> m' y = m y))"
  using remove_slist[of m p xs x] remove_absent[of m p xs x] by (cases "x \<in> set xs") auto

definition demo_links :: links where
  "demo_links = Map.empty(3 \<mapsto> Some 5, 5 \<mapsto> Some 8, 8 \<mapsto> None)"

lemma demo_links_slist: "slist demo_links (Some 3) [3, 5, 8]"
  by (simp add: demo_links_def)

theorem slist_remove_cases_witness:
  "(case SLIST_REMOVE demo_links (Some 3) (Some 5) of
      Some (Inr (p', m')) \<Rightarrow> slist m' p' [3, 8] | _ \<Rightarrow> False) \<and>
   SLIST_REMOVE demo_links (Some 3) (Some 7) = Some (Inl NullDeref)"
  using slist_remove_cases[OF demo_links_slist, of 5] slist_remove_cases[OF demo_links_slist, of 7]
  by (auto split: option.splits sum.splits)

text \<open>
  \<open>SLIST_INSERT_HEAD\<close> of a new element followed by \<open>SLIST_REMOVE_HEAD\<close> gives back the list,
  and \<open>SLIST_INSERT_AFTER\<close> followed by \<open>SLIST_REMOVE_AFTER\<close> does too: the elements, their order
  and the head are as before.
\<close>

theorem slist_insert_remove_inverse:
  assumes "slist m p (xs @ y # zs)" "m x \<noteq> None" "x \<notin> set (xs @ y # zs)"
  shows "(\<exists>m1. SLIST_INSERT_HEAD m p (Some x) = Inr (Some x, m1) \<and>
            SLIST_REMOVE_HEAD m1 (Some x) = Inr p \<and> slist m1 p (xs @ y # zs)) \<and>
         (\<exists>m1 m2. SLIST_INSERT_AFTER m (Some y) (Some x) = Inr m1 \<and>
            slist m1 p (xs @ y # x # zs) \<and>
            SLIST_REMOVE_AFTER m1 (Some y) = Inr m2 \<and> slist m2 p (xs @ y # zs))"
proof (intro conjI)
  show "\<exists>m1. SLIST_INSERT_HEAD m p (Some x) = Inr (Some x, m1) \<and>
      SLIST_REMOVE_HEAD m1 (Some x) = Inr p \<and> slist m1 p (xs @ y # zs)"
    using insert_head_slist[OF assms] by (auto simp: SLIST_REMOVE_HEAD_def)
next
  obtain m1 where m1: "SLIST_INSERT_AFTER m (Some y) (Some x) = Inr m1" "slist m1 p (xs @ y # x # zs)"
    using insert_after_slist[OF assms] by blast
  then show "\<exists>m1 m2. SLIST_INSERT_AFTER m (Some y) (Some x) = Inr m1 \<and> slist m1 p (xs @ y # x # zs) \<and>
      SLIST_REMOVE_AFTER m1 (Some y) = Inr m2 \<and> slist m2 p (xs @ y # zs)"
    using remove_after_chain[OF m1(2)] by blast
qed

theorem slist_insert_remove_inverse_witness:
  "\<exists>m1 m2. SLIST_INSERT_AFTER (demo_links(1 \<mapsto> None)) (Some 5) (Some 1) = Inr m1 \<and>
     slist m1 (Some 3) [3, 5, 1, 8] \<and>
     SLIST_REMOVE_AFTER m1 (Some 5) = Inr m2 \<and> slist m2 (Some 3) [3, 5, 8]"
  using slist_insert_remove_inverse[of "demo_links(1 \<mapsto> None)" "Some 3" "[3]" 5 "[8]" 1]
  by (simp add: demo_links_def)

text \<open>
  Splitting a list after one of its elements with \<open>SLIST_SPLIT_AFTER\<close> gives two well-formed
  lists, and \<open>SLIST_CONCAT\<close> on these two ends and gives the original list and an empty one.
\<close>

theorem slist_split_concat_roundtrip:
  assumes "slist m p (xs @ y # zs)"
  shows "\<exists>rest m1 p2 m2. SLIST_SPLIT_AFTER m (Some y) = Inr (rest, m1) \<and>
           slist m1 p (xs @ [y]) \<and> slist m1 rest zs \<and>
           SLIST_CONCAT m1 p rest = Some (Inr (p2, None, m2)) \<and> slist m2 p2 (xs @ y # zs)"
proof -
  obtain rest m1 where s: "SLIST_SPLIT_AFTER m (Some y) = Inr (rest, m1)"
    "slist m1 p (xs @ [y])" "slist m1 rest zs"
    using split_after_slist[OF assms] by blast
  moreover have "set (xs @ [y]) \<inter> set zs = {}" using slist_distinct[OF assms] by auto
  ultimately show ?thesis using concat_slist[OF s(2,3)] by fastforce
qed

theorem slist_split_concat_roundtrip_witness:
  "\<exists>rest m1 p2 m2. SLIST_SPLIT_AFTER demo_links (Some 5) = Inr (rest, m1) \<and>
     slist m1 (Some 3) [3, 5] \<and> slist m1 rest [8] \<and>
     SLIST_CONCAT m1 (Some 3) rest = Some (Inr (p2, None, m2)) \<and> slist m2 p2 [3, 5, 8]"
  using slist_split_concat_roundtrip[of demo_links "Some 3" "[3]" 5 "[8]"] demo_links_slist by simp

end
