(* ===== verification/Queue_Words.thy ===== *)
theory Queue_Words
  imports Prelude
begin

text \<open>
  The memory of the STAILQ, LIST and TAILQ macros of \<^verbatim>\<open>server/queue.h\<close>. The head of a list and the
  entry field of an element both start with a pointer to an element (\<open>xxh_first\<close>, \<open>xxe_next\<close>); in
  some lists a second word follows, the address of such a pointer (\<open>xxh_last\<close>, \<open>xxe_prev\<close>). The
  macros pass the addresses of these fields around, and TAILQ even reads an entry as a head, so
  the model names a field by the struct it starts (\<open>link\<close>) and keeps the two words in two maps.
\<close>

section \<open>Fields and words\<close>

datatype link = Head nat | Elem addr

record queue_mem =
  w_ptr :: "link \<rightharpoonup> ptr"
  w_link :: "link \<rightharpoonup> link"

text \<open>\<open>*l\<close> and \<open>*l = p\<close> for the address \<open>l\<close> of a pointer.\<close>

definition load_ptr :: "queue_mem \<Rightarrow> link \<Rightarrow> fault + ptr" where
  "load_ptr m l = (case w_ptr m l of None \<Rightarrow> Inl UseAfterFree | Some p \<Rightarrow> Inr p)"

definition store_ptr :: "queue_mem \<Rightarrow> link \<Rightarrow> ptr \<Rightarrow> fault + queue_mem" where
  "store_ptr m l p =
     (case w_ptr m l of None \<Rightarrow> Inl UseAfterFree | Some _ \<Rightarrow> Inr (m\<lparr>w_ptr := (w_ptr m)(l \<mapsto> p)\<rparr>))"

text \<open>The second word of the struct at \<open>l\<close>.\<close>

definition load_link :: "queue_mem \<Rightarrow> link \<Rightarrow> fault + link" where
  "load_link m l = (case w_link m l of None \<Rightarrow> Inl UseAfterFree | Some l' \<Rightarrow> Inr l')"

definition store_link :: "queue_mem \<Rightarrow> link \<Rightarrow> link \<Rightarrow> fault + queue_mem" where
  "store_link m l l' =
     (case w_link m l of None \<Rightarrow> Inl UseAfterFree | Some _ \<Rightarrow> Inr (m\<lparr>w_link := (w_link m)(l \<mapsto> l')\<rparr>))"

text \<open>The entry field of an element; a NULL element is dereferenced.\<close>

definition entry_of :: "ptr \<Rightarrow> fault + link" where
  "entry_of elm = (case elm of None \<Rightarrow> Inl NullDeref | Some a \<Rightarrow> Inr (Elem a))"

definition elm_next :: "queue_mem \<Rightarrow> ptr \<Rightarrow> fault + ptr" where
  "elm_next m elm = bindE (entry_of elm) (load_ptr m)"

definition set_elm_next :: "queue_mem \<Rightarrow> ptr \<Rightarrow> ptr \<Rightarrow> fault + queue_mem" where
  "set_elm_next m elm p = bindE (entry_of elm) (\<lambda>e. store_ptr m e p)"

definition elm_prev :: "queue_mem \<Rightarrow> ptr \<Rightarrow> fault + link" where
  "elm_prev m elm = bindE (entry_of elm) (load_link m)"

definition set_elm_prev :: "queue_mem \<Rightarrow> ptr \<Rightarrow> link \<Rightarrow> fault + queue_mem" where
  "set_elm_prev m elm l = bindE (entry_of elm) (\<lambda>e. store_link m e l)"

text \<open>
  \<open>__containerof\<close> of the address of an entry field. The macros apply it only to addresses inside
  an element.
\<close>

definition container_of :: "link \<Rightarrow> fault + ptr" where
  "container_of l = (case l of Head _ \<Rightarrow> Inl OutOfBounds | Elem a \<Rightarrow> Inr (Some a))"

named_theorems queue_simps \<open>loads and stores of the queue memory\<close>

lemma word_simps [queue_simps]:
  "w_ptr m l = Some p \<Longrightarrow> load_ptr m l = Inr p"
  "w_ptr m l = Some p \<Longrightarrow> store_ptr m l q = Inr (m\<lparr>w_ptr := (w_ptr m)(l \<mapsto> q)\<rparr>)"
  "w_link m l = Some k \<Longrightarrow> load_link m l = Inr k"
  "w_link m l = Some k \<Longrightarrow> store_link m l k' = Inr (m\<lparr>w_link := (w_link m)(l \<mapsto> k')\<rparr>)"
  by (simp_all add: load_ptr_def store_ptr_def load_link_def store_link_def)

lemma elm_simps [queue_simps]:
  "elm_next m (Some a) = load_ptr m (Elem a)" "set_elm_next m (Some a) p = store_ptr m (Elem a) p"
  "elm_prev m (Some a) = load_link m (Elem a)" "set_elm_prev m (Some a) l = store_link m (Elem a) l"
  "entry_of (Some a) = Inr (Elem a)" "entry_of None = Inl NullDeref"
  "elm_next m None = Inl NullDeref" "elm_prev m None = Inl NullDeref"
  by (simp_all add: elm_next_def set_elm_next_def elm_prev_def set_elm_prev_def entry_of_def)

section \<open>Paths\<close>

text \<open>
  \<open>spath f l xs\<close>: in the pointers \<open>f\<close>, the one at \<open>l\<close> leads through the elements \<open>xs\<close>.
  \<open>points_back g l xs\<close>: each of the elements has the address of the pointer that points to it as
  its second word. \<open>end_link l xs\<close> is the address of the pointer after the last element.
\<close>

primrec spath :: "(link \<rightharpoonup> ptr) \<Rightarrow> link \<Rightarrow> addr list \<Rightarrow> bool" where
  "spath f l [] \<longleftrightarrow> True"
| "spath f l (x # xs) \<longleftrightarrow> f l = Some (Some x) \<and> spath f (Elem x) xs"

primrec points_back :: "(link \<rightharpoonup> link) \<Rightarrow> link \<Rightarrow> addr list \<Rightarrow> bool" where
  "points_back g l [] \<longleftrightarrow> True"
| "points_back g l (x # xs) \<longleftrightarrow> g (Elem x) = Some l \<and> points_back g (Elem x) xs"

definition end_link :: "link \<Rightarrow> addr list \<Rightarrow> link" where
  "end_link l xs = (if xs = [] then l else Elem (last xs))"

text \<open>A path that ends with NULL.\<close>

definition slist_at :: "(link \<rightharpoonup> ptr) \<Rightarrow> link \<Rightarrow> addr list \<Rightarrow> bool" where
  "slist_at f l xs \<longleftrightarrow> spath f l xs \<and> f (end_link l xs) = Some None"

lemma end_link_simps [simp]:
  "end_link l [] = l" "end_link l (x # xs) = end_link (Elem x) xs"
  "end_link l (xs @ ys) = end_link (end_link l xs) ys"
  by (simp_all add: end_link_def)

lemma end_link_in: "end_link l xs = l \<or> end_link l xs \<in> Elem ` set xs"
  by (simp add: end_link_def)

lemma end_link_fresh [simp]:
  "Elem x \<noteq> l \<Longrightarrow> x \<notin> set xs \<Longrightarrow> end_link l xs \<noteq> Elem x"
  "Elem x \<noteq> l \<Longrightarrow> x \<notin> set xs \<Longrightarrow> Elem x \<noteq> end_link l xs"
  using end_link_in[of l xs] by auto

lemma end_link_head [simp]:
  "end_link (Head h) xs = Head k \<longleftrightarrow> xs = [] \<and> h = k" "end_link (Elem x) xs \<noteq> Head k"
  "Head k = end_link (Head h) xs \<longleftrightarrow> xs = [] \<and> h = k" "Head k \<noteq> end_link (Elem x) xs"
  by (auto simp: end_link_def)

lemma spath_append [simp]: "spath f l (xs @ ys) \<longleftrightarrow> spath f l xs \<and> spath f (end_link l xs) ys"
  by (induction xs arbitrary: l) auto

lemma points_back_append [simp]:
  "points_back g l (xs @ ys) \<longleftrightarrow> points_back g l xs \<and> points_back g (end_link l xs) ys"
  by (induction xs arbitrary: l) auto

lemma spath_cong: "f l = f' l \<Longrightarrow> \<forall>x \<in> set xs. f (Elem x) = f' (Elem x) \<Longrightarrow> spath f l xs = spath f' l xs"
  by (induction xs arbitrary: l) auto

lemma points_back_cong: "\<forall>x \<in> set xs. g (Elem x) = g' (Elem x) \<Longrightarrow> points_back g l xs = points_back g' l xs"
  by (induction xs arbitrary: l) auto

text \<open>A path depends on its own words only, and not on the pointer after its last element.\<close>

lemma spath_upd [simp]:
  "Elem x \<noteq> l \<Longrightarrow> x \<notin> set xs \<Longrightarrow> spath (f(Elem x := v)) l xs = spath f l xs"
  "Head h \<noteq> l \<Longrightarrow> spath (f(Head h := v)) l xs = spath f l xs"
  by (rule spath_cong; force)+

lemma points_back_upd [simp]:
  "x \<notin> set xs \<Longrightarrow> points_back (g(Elem x := k)) l xs = points_back g l xs"
  "points_back (g(Head h := k)) l xs = points_back g l xs"
  by (rule points_back_cong; force)+

lemma slist_at_unique: "slist_at f l xs \<Longrightarrow> slist_at f l ys \<Longrightarrow> xs = ys"
proof (induction xs arbitrary: l ys)
  case Nil
  then show ?case by (cases ys) (auto simp: slist_at_def)
next
  case (Cons x xs)
  then show ?case by (cases ys) (auto simp: slist_at_def)
qed

lemma slist_at_distinct:
  assumes "slist_at f l xs"
  shows "distinct xs"
proof -
  have "x \<notin> set ys" if "slist_at f (Elem x) ys" for x ys
  proof
    assume "x \<in> set ys"
    then obtain us vs where "ys = us @ x # vs" by (meson split_list)
    with that have "slist_at f (Elem x) vs" by (auto simp: slist_at_def)
    with that have "vs = ys" by (blast dest: slist_at_unique)
    with \<open>ys = us @ x # vs\<close> show False by simp
  qed
  with assms show ?thesis by (induction xs arbitrary: l) (auto simp: slist_at_def)
qed

text \<open>What the first pointer of a list is.\<close>

definition first_of :: "addr list \<Rightarrow> ptr" where
  "first_of xs = (case xs of [] \<Rightarrow> None | x # _ \<Rightarrow> Some x)"

lemma first_of_simps [simp]:
  "first_of [] = None" "first_of (x # xs) = Some x" "first_of xs = None \<longleftrightarrow> xs = []"
  "(None = first_of xs) = (xs = [])"
  by (auto simp: first_of_def split: list.splits)

definition last_of :: "addr list \<Rightarrow> ptr" where
  "last_of xs = (if xs = [] then None else Some (last xs))"

lemma last_of_simps [simp]: "last_of [] = None" "last_of (xs @ [x]) = Some x"
  by (simp_all add: last_of_def)

lemma slist_at_first: "slist_at f l xs \<Longrightarrow> f l = Some (first_of xs)"
  by (cases xs) (auto simp: slist_at_def)

lemma slist_at_frame:
  assumes "\<And>c. c = l \<or> c \<in> Elem ` set xs \<Longrightarrow> f' c = f c" "slist_at f l xs"
  shows "slist_at f' l xs"
  using assms spath_cong[of f' l f xs] end_link_in[of l xs] by (auto simp: slist_at_def)

section \<open>Loops\<close>

text \<open>
  The \<open>for\<close> loops behind the traversals. The state of the body holds the queue memory; \<open>next\<close>
  follows a pointer in it. In the plain loop the pointer is followed after the body, in the
  \<open>SAFE\<close> one before it. A body or a loop that does not end is \<open>None\<close>.
\<close>

partial_function (option) for_loop ::
  "('s \<Rightarrow> ptr \<Rightarrow> fault + ptr) \<Rightarrow> ('s \<Rightarrow> addr \<Rightarrow> (fault + 's) option) \<Rightarrow> 's \<Rightarrow> ptr \<Rightarrow> (fault + 's) option" where
  "for_loop step body s var =
     (case var of
        None \<Rightarrow> Some (Inr s)
      | Some a \<Rightarrow>
          Option.bind (body s a) (\<lambda>r.
            case r of
              Inl f \<Rightarrow> Some (Inl f)
            | Inr s1 \<Rightarrow>
                (case step s1 var of Inl f \<Rightarrow> Some (Inl f) | Inr v \<Rightarrow> for_loop step body s1 v)))"

partial_function (option) for_loop_safe ::
  "('s \<Rightarrow> ptr \<Rightarrow> fault + ptr) \<Rightarrow> ('s \<Rightarrow> addr \<Rightarrow> (fault + 's) option) \<Rightarrow> 's \<Rightarrow> ptr \<Rightarrow> (fault + 's) option" where
  "for_loop_safe step body s var =
     (case var of
        None \<Rightarrow> Some (Inr s)
      | Some a \<Rightarrow>
          (case step s var of
             Inl f \<Rightarrow> Some (Inl f)
           | Inr tvar \<Rightarrow>
               Option.bind (body s a) (\<lambda>r.
                 case r of
                   Inl f \<Rightarrow> Some (Inl f)
                 | Inr s1 \<Rightarrow> for_loop_safe step body s1 tvar)))"

definition for_from ::
  "(ptr \<Rightarrow> (fault + 's) option) \<Rightarrow> fault + ptr \<Rightarrow> (fault + 's) option" where
  "for_from loop start = (case start of Inl f \<Rightarrow> Some (Inl f) | Inr v \<Rightarrow> loop v)"

text \<open>Where a \<open>FOREACH_FROM\<close> starts: at its variable, or as \<open>FOREACH\<close> does when that is NULL.\<close>

definition start_from :: "ptr \<Rightarrow> fault + ptr \<Rightarrow> fault + ptr" where
  "start_from var start = (if var \<noteq> None then Inr var else start)"

lemma start_from_Some [simp]: "start_from (Some a) start = Inr (Some a)" "start_from None start = start"
  by (simp_all add: start_from_def)

lemma for_loop_simps [simp]:
  "for_loop step body s None = Some (Inr s)"
  "for_loop_safe step body s None = Some (Inr s)"
  "for_from loop (Inr v) = loop v"
  by (subst for_loop.simps, simp) (subst for_loop_safe.simps, simp_all add: for_from_def)

lemma for_loop_step:
  "body s a = Some (Inr s1) \<Longrightarrow> step s1 (Some a) = Inr v \<Longrightarrow>
   for_loop step body s (Some a) = for_loop step body s1 v"
  by (subst for_loop.simps) simp

lemma for_loop_safe_step:
  "step s (Some a) = Inr v \<Longrightarrow> body s a = Some (Inr s1) \<Longrightarrow>
   for_loop_safe step body s (Some a) = for_loop_safe step body s1 v"
  by (subst for_loop_safe.simps) simp

text \<open>
  A body that notes the element it is given and leaves the memory alone; what a traversal visits
  is what it has noted.
\<close>

type_synonym visit = "queue_mem \<times> addr list"

definition note_elem :: "visit \<Rightarrow> addr \<Rightarrow> (fault + visit) option" where
  "note_elem s a = Some (Inr (fst s, snd s @ [a]))"

text \<open>\<open>leads step p xs\<close>: following pointers with \<open>step\<close> from \<open>p\<close> gives \<open>xs\<close> and then NULL.\<close>

primrec leads :: "(ptr \<Rightarrow> fault + ptr) \<Rightarrow> ptr \<Rightarrow> addr list \<Rightarrow> bool" where
  "leads step p [] \<longleftrightarrow> p = None"
| "leads step p (x # xs) \<longleftrightarrow> p = Some x \<and> (\<exists>q. step (Some x) = Inr q \<and> leads step q xs)"

lemma for_loop_visits:
  "leads (step m) p xs \<Longrightarrow>
   for_loop (\<lambda>s. step (fst s)) note_elem (m, ys) p = Some (Inr (m, ys @ xs))"
proof (induction xs arbitrary: p ys)
  case (Cons x xs)
  then obtain q where q: "step m (Some x) = Inr q" "leads (step m) q xs" "p = Some x" by auto
  then show ?case using Cons.IH[OF q(2), of "ys @ [x]"] by (simp add: for_loop_step note_elem_def)
qed simp

lemma for_loop_safe_visits:
  "leads (step m) p xs \<Longrightarrow>
   for_loop_safe (\<lambda>s. step (fst s)) note_elem (m, ys) p = Some (Inr (m, ys @ xs))"
proof (induction xs arbitrary: p ys)
  case (Cons x xs)
  then obtain q where q: "step m (Some x) = Inr q" "leads (step m) q xs" "p = Some x" by auto
  then show ?case using Cons.IH[OF q(2), of "ys @ [x]"] by (simp add: for_loop_safe_step note_elem_def)
qed simp

lemma leads_from: "leads step p (us @ y # vs) \<Longrightarrow> leads step (Some y) (y # vs)"
  by (induction us arbitrary: p) auto

text \<open>Forward along a list, and backward with a step that inverts it.\<close>

lemma leads_forward: "slist_at (w_ptr m) l xs \<Longrightarrow> leads (elm_next m) (first_of xs) xs"
proof (induction xs arbitrary: l)
  case (Cons x xs)
  then have "slist_at (w_ptr m) (Elem x) xs" by (simp add: slist_at_def)
  with Cons.IH[OF this] slist_at_first[OF this] show ?case by (simp add: queue_simps)
qed simp

lemma leads_backward:
  assumes "\<And>us y vs. xs = us @ y # vs \<Longrightarrow> step (Some y) = Inr (last_of us)"
  shows "leads step (last_of xs) (rev xs)"
  using assms
proof (induction xs rule: rev_induct)
  case (snoc x xs)
  have "step (Some x) = Inr (last_of xs)" using snoc.prems[of xs x "[]"] by simp
  moreover have "leads step (last_of xs) (rev xs)" by (rule snoc.IH) (use snoc.prems in simp)
  ultimately show ?case by simp
qed simp

text \<open>
  The loops that look for the element before the pointer \<open>elm\<close>:
  \<open>while (NEXT(cur) != elm) cur = NEXT(cur)\<close>.
\<close>

partial_function (option) walk_before :: "queue_mem \<Rightarrow> ptr \<Rightarrow> ptr \<Rightarrow> (fault + ptr) option" where
  "walk_before m cur elm =
     (case elm_next m cur of
        Inl f \<Rightarrow> Some (Inl f)
      | Inr n \<Rightarrow> if n \<noteq> elm then walk_before m n elm else Some (Inr cur))"

lemma walk_before_step:
  "elm_next m p = Inr n \<Longrightarrow> walk_before m p q = (if n \<noteq> q then walk_before m n q else Some (Inr p))"
  by (subst walk_before.simps) simp

lemma walk_before_elem:
  "leads (elm_next m) p (us @ w # y # vs) \<Longrightarrow> y \<notin> set us \<Longrightarrow> w \<noteq> y \<Longrightarrow>
   walk_before m p (Some y) = Some (Inr (Some w))"
proof (induction us arbitrary: p)
  case (Cons u us)
  then obtain q where "p = Some u" "elm_next m (Some u) = Inr q" "leads (elm_next m) q (us @ w # y # vs)"
    by auto
  moreover from this have "q \<noteq> Some y" using Cons.prems by (cases us) auto
  ultimately show ?case using Cons by (simp add: walk_before_step)
qed (auto simp: walk_before_step)

lemma walk_before_end:
  "leads (elm_next m) p (us @ [w]) \<Longrightarrow> walk_before m p None = Some (Inr (Some w))"
proof (induction us arbitrary: p)
  case (Cons u us)
  then obtain q where "p = Some u" "elm_next m (Some u) = Inr q" "leads (elm_next m) q (us @ [w])"
    by auto
  moreover from this have "q \<noteq> None" by (cases us) auto
  ultimately show ?case using Cons by (simp add: walk_before_step)
qed (auto simp: walk_before_step)

text \<open>Lists by the pointer to the first element.\<close>

lemma elm_next_word: "elm_next m (Some x) = Inr q \<longleftrightarrow> w_ptr m (Elem x) = Some q"
  by (auto simp: elm_simps load_ptr_def split: option.splits)

lemma slist_at_leads: "slist_at (w_ptr m) l xs \<longleftrightarrow> (\<exists>p. w_ptr m l = Some p \<and> leads (elm_next m) p xs)"
proof (induction xs arbitrary: l)
  case Nil
  then show ?case by (auto simp: slist_at_def)
next
  case (Cons x xs)
  have "slist_at (w_ptr m) l (x # xs) \<longleftrightarrow> w_ptr m l = Some (Some x) \<and> slist_at (w_ptr m) (Elem x) xs"
    by (auto simp: slist_at_def)
  with Cons show ?case by (auto simp: elm_next_word)
qed

lemma leads_upd:
  "x \<notin> set xs \<Longrightarrow> leads (elm_next (m\<lparr>w_ptr := (w_ptr m)(Elem x \<mapsto> q)\<rparr>)) p xs = leads (elm_next m) p xs"
  by (induction xs arbitrary: p) (auto simp: elm_next_word)

section \<open>What a macro may change\<close>

text \<open>Only the words of the structs in \<open>C\<close>, and no struct appears or disappears.\<close>

definition touches :: "link set \<Rightarrow> queue_mem \<Rightarrow> queue_mem \<Rightarrow> bool" where
  "touches C m m' \<longleftrightarrow>
     (\<forall>c. c \<notin> C \<longrightarrow> w_ptr m' c = w_ptr m c \<and> w_link m' c = w_link m c) \<and>
     dom (w_ptr m') = dom (w_ptr m) \<and> dom (w_link m') = dom (w_link m)"

lemma touches_refl: "touches C m m"
  by (simp add: touches_def)

lemma touches_trans: "touches C m m' \<Longrightarrow> touches C m' m'' \<Longrightarrow> touches C m m''"
  by (simp add: touches_def)

lemma touches_mono: "touches C m m' \<Longrightarrow> C \<subseteq> C' \<Longrightarrow> touches C' m m'"
  by (auto simp: touches_def)

lemma touches_ptr:
  "w_ptr m c \<noteq> None \<Longrightarrow> c \<in> C \<Longrightarrow> touches C m (m\<lparr>w_ptr := (w_ptr m)(c \<mapsto> p)\<rparr>)"
  by (auto simp: touches_def)

lemma touches_link:
  "w_link m c \<noteq> None \<Longrightarrow> c \<in> C \<Longrightarrow> touches C m (m\<lparr>w_link := (w_link m)(c \<mapsto> l)\<rparr>)"
  by (auto simp: touches_def)

text \<open>The structs of one list with the elements \<open>X\<close>.\<close>

definition structs :: "nat \<Rightarrow> addr set \<Rightarrow> link set" where
  "structs h X = insert (Head h) (Elem ` X)"

definition elem_ready :: "queue_mem \<Rightarrow> addr \<Rightarrow> bool" where
  "elem_ready m x \<longleftrightarrow> w_ptr m (Elem x) \<noteq> None \<and> w_link m (Elem x) \<noteq> None"

lemma touches_ready: "touches C m m' \<Longrightarrow> elem_ready m' x = elem_ready m x"
  by (auto simp: touches_def elem_ready_def)

text \<open>A memory with \<open>n\<close> heads and \<open>e\<close> elements, none of them initialised.\<close>

definition arena :: "nat \<Rightarrow> nat \<Rightarrow> queue_mem" where
  "arena n e =
     (let there = (\<lambda>l. case l of Head h \<Rightarrow> h < n | Elem x \<Rightarrow> x < e)
      in \<lparr>w_ptr = (\<lambda>l. if there l then Some (Some 99) else None),
          w_link = (\<lambda>l. if there l then Some (Elem 99) else None)\<rparr>)"

end
