(* ===== verification/Slist_Loops.thy ===== *)
theory Slist_Loops
  imports Slist Queue_Words
begin

text \<open>
  The remaining SLIST macros of \<^verbatim>\<open>server/queue.h\<close>, which the server does not use: the plain
  traversals, over the links of \<open>Slist\<close>, and the two macros that work with the address of the
  pointer to an element, over the words of \<open>Queue_Words\<close>.
\<close>

section \<open>Traversals\<close>

definition SLIST_FOREACH ::
  "('s \<Rightarrow> links) \<Rightarrow> ('s \<Rightarrow> addr \<Rightarrow> (fault + 's) option) \<Rightarrow> 's \<Rightarrow> ptr \<Rightarrow> (fault + 's) option" where
  "SLIST_FOREACH links_of body s slh_first = for_loop (\<lambda>s. SLIST_NEXT (links_of s)) body s slh_first"

definition SLIST_FOREACH_FROM ::
  "('s \<Rightarrow> links) \<Rightarrow> ('s \<Rightarrow> addr \<Rightarrow> (fault + 's) option) \<Rightarrow> 's \<Rightarrow> ptr \<Rightarrow> ptr \<Rightarrow> (fault + 's) option" where
  "SLIST_FOREACH_FROM links_of body s var slh_first =
     for_from (for_loop (\<lambda>s. SLIST_NEXT (links_of s)) body s) (start_from var (Inr slh_first))"

definition SLIST_FOREACH_FROM_SAFE ::
  "('s \<Rightarrow> links) \<Rightarrow> ('s \<Rightarrow> addr \<Rightarrow> (fault + 's) option) \<Rightarrow> 's \<Rightarrow> ptr \<Rightarrow> ptr \<Rightarrow> (fault + 's) option" where
  "SLIST_FOREACH_FROM_SAFE links_of body s var slh_first =
     for_from (SLIST_FOREACH_SAFE links_of body s) (start_from var (Inr slh_first))"

text \<open>
  A body with an effect that keeps the links of the elements from the current one on sees every
  element once, in order.
\<close>

lemma foreach_visits_all:
  assumes "slist m p xs" "links_of s = m"
    and "\<And>s a. links_of s = m \<Longrightarrow> body s a = Some (Inr (effect s a)) \<and> links_of (effect s a) = m"
  shows "SLIST_FOREACH links_of body s p = Some (Inr (foldl effect s xs))"
  using assms(1,2)
proof (induction xs arbitrary: p s)
  case Nil
  then show ?case by (simp add: SLIST_FOREACH_def)
next
  case (Cons x xs)
  then obtain n where n: "p = Some x" "m x = Some n" "slist m n xs" by auto
  have b: "body s x = Some (Inr (effect s x))" "links_of (effect s x) = m" using assms(3) Cons.prems(2) by auto
  have "SLIST_FOREACH links_of body s p = SLIST_FOREACH links_of body (effect s x) n"
    using for_loop_step[where step = "\<lambda>s. SLIST_NEXT (links_of s)" and body = body, OF b(1)] b(2) n
    by (simp add: SLIST_FOREACH_def)
  with Cons.IH[OF n(3) b(2)] show ?case by simp
qed

lemma foreach_from_middle:
  assumes "slist m p (us @ y # vs)" "links_of s = m"
    and "\<And>s a. links_of s = m \<Longrightarrow> body s a = Some (Inr (effect s a)) \<and> links_of (effect s a) = m"
  shows "SLIST_FOREACH_FROM links_of body s (Some y) p = Some (Inr (foldl effect s (y # vs)))"
proof -
  have "slist m (Some y) (y # vs)" using assms(1) by (auto simp: slist_append)
  from foreach_visits_all[OF this assms(2,3)] show ?thesis
    by (simp add: SLIST_FOREACH_FROM_def SLIST_FOREACH_def)
qed

lemma foreach_from_null:
  "SLIST_FOREACH_FROM links_of body s None p = SLIST_FOREACH links_of body s p"
  "SLIST_FOREACH_FROM_SAFE links_of body s None p = SLIST_FOREACH_SAFE links_of body s p"
  by (simp_all add: SLIST_FOREACH_FROM_def SLIST_FOREACH_FROM_SAFE_def SLIST_FOREACH_def)

section \<open>Pointers to pointers\<close>

definition SLIST_REMOVE_PREVPTR :: "queue_mem \<Rightarrow> link \<Rightarrow> ptr \<Rightarrow> fault + queue_mem" where
  "SLIST_REMOVE_PREVPTR m prevp elm = bindE (elm_next m elm) (store_ptr m prevp)"

definition QMD_SLIST_CHECK_PREVPTR :: "queue_mem \<Rightarrow> link \<Rightarrow> ptr \<Rightarrow> fault + bool" where
  "QMD_SLIST_CHECK_PREVPTR m prevp elm = bindE (load_ptr m prevp) (\<lambda>p. Inr (p = elm))"

text \<open>The loop keeps in \<open>varp\<close> the address of the pointer to the current element.\<close>

partial_function (option) prevptr_loop ::
  "('s \<Rightarrow> queue_mem) \<Rightarrow> ('s \<Rightarrow> link \<Rightarrow> addr \<Rightarrow> (fault + 's) option) \<Rightarrow> 's \<Rightarrow> link \<Rightarrow> (fault + 's) option" where
  "prevptr_loop m_of body s varp =
     (case load_ptr (m_of s) varp of
        Inl f \<Rightarrow> Some (Inl f)
      | Inr None \<Rightarrow> Some (Inr s)
      | Inr (Some var) \<Rightarrow>
          Option.bind (body s varp var) (\<lambda>r.
            case r of Inl f \<Rightarrow> Some (Inl f) | Inr s1 \<Rightarrow> prevptr_loop m_of body s1 (Elem var)))"

definition SLIST_FOREACH_PREVPTR ::
  "('s \<Rightarrow> queue_mem) \<Rightarrow> ('s \<Rightarrow> link \<Rightarrow> addr \<Rightarrow> (fault + 's) option) \<Rightarrow> 's \<Rightarrow> nat \<Rightarrow> (fault + 's) option" where
  "SLIST_FOREACH_PREVPTR m_of body s h = prevptr_loop m_of body s (Head h)"

text \<open>
  Removal by the address of the pointer, the first element and any other alike, without a walk;
  the check of the debug build holds for the address the traversal gives.
\<close>

lemma remove_prevptr:
  assumes "slist_at (w_ptr m) (Head h) (us @ y # vs)"
  shows "\<exists>m'. SLIST_REMOVE_PREVPTR m (end_link (Head h) us) (Some y) = Inr m' \<and>
    slist_at (w_ptr m') (Head h) (us @ vs) \<and> QMD_SLIST_CHECK_PREVPTR m (end_link (Head h) us) (Some y) = Inr True"
  using assms slist_at_distinct[OF assms]
  by (cases us rule: rev_cases; cases vs)
    (auto simp: SLIST_REMOVE_PREVPTR_def QMD_SLIST_CHECK_PREVPTR_def slist_at_def queue_simps)

lemma prevptr_loop_visits:
  assumes "slist_at (w_ptr m) (end_link l us) xs"
  shows "prevptr_loop fst (\<lambda>(m, acc) varp a. Some (Inr (m, acc @ [(varp, a)]))) (m, acc) (end_link l us) =
    Some (Inr (m, acc @ map (\<lambda>k. (end_link l (us @ take k xs), xs ! k)) [0..<length xs]))"
  using assms
proof (induction xs arbitrary: us acc)
  case Nil
  then show ?case by (subst prevptr_loop.simps) (simp add: slist_at_def queue_simps)
next
  case (Cons x xs)
  have l: "load_ptr m (end_link l us) = Inr (Some x)" "slist_at (w_ptr m) (end_link l (us @ [x])) xs"
    using Cons.prems by (auto simp: slist_at_def queue_simps)
  have "map (\<lambda>k. (end_link l (us @ take k (x # xs)), (x # xs) ! k)) [0..<length (x # xs)] =
    (end_link l us, x) # map (\<lambda>k. (end_link l ((us @ [x]) @ take k xs), xs ! k)) [0..<length xs]"
  proof -
    have "[0..<length (x # xs)] = 0 # map Suc [0..<length xs]"
      by (simp add: map_Suc_upt upt_conv_Cons del: upt_Suc)
    then show ?thesis by (simp del: upt_Suc)
  qed
  then show ?case
    using Cons.IH[OF l(2), of "acc @ [(end_link l us, x)]"] l(1)
    by (subst prevptr_loop.simps) simp
qed

lemma foreach_prevptr_visits:
  "slist_at (w_ptr m) (Head h) xs \<Longrightarrow>
   SLIST_FOREACH_PREVPTR fst (\<lambda>(m, acc) varp a. Some (Inr (m, acc @ [(varp, a)]))) (m, []) h =
    Some (Inr (m, map (\<lambda>k. (end_link (Head h) (take k xs), xs ! k)) [0..<length xs]))"
  using prevptr_loop_visits[of m "Head h" "[]" xs "[]"] by (simp add: SLIST_FOREACH_PREVPTR_def)

end
