(* ===== verification/Queue_Lists.thy ===== *)
theory Queue_Lists
  imports Queue_Words
begin

text \<open>
  What the macros of \<^verbatim>\<open>server/queue.h\<close> promise, whatever the kind of list: operations on the heads
  \<open>0 ..< n\<close> and the elements \<open>0 ..< e\<close>, what each does to the abstract lists, and the contract a
  kind of list has to meet (the locales), from which any program of operations is correct.
\<close>

section \<open>Operations and what they do to lists\<close>

datatype qop =
    Init nat
  | InsertHead nat addr
  | InsertTail nat addr
  | InsertAfter nat addr addr     \<comment> \<open>head, element of the list, new element\<close>
  | InsertBefore nat addr addr
  | Remove nat addr
  | RemoveHead nat
  | RemoveAfter nat addr
  | Replace nat addr addr
  | Concat nat nat
  | SplitAfter nat addr nat       \<comment> \<open>head, element of the list, head for the rest\<close>
  | Swap nat nat
  | Reverse nat

definition before_elem :: "addr \<Rightarrow> addr list \<Rightarrow> addr list" where
  "before_elem y xs = takeWhile (\<lambda>z. z \<noteq> y) xs"

definition after_elem :: "addr \<Rightarrow> addr list \<Rightarrow> addr list" where
  "after_elem y xs = tl (dropWhile (\<lambda>z. z \<noteq> y) xs)"

definition new_elem :: "nat \<Rightarrow> addr \<Rightarrow> addr list list \<Rightarrow> bool" where
  "new_elem e x L \<longleftrightarrow> x < e \<and> x \<notin> set (concat L)"

text \<open>
  An operation on one list: its head, the element it adds, and the list after it; \<open>None\<close> where
  it may not be used.
\<close>

fun op_head :: "qop \<Rightarrow> nat" where
  "op_head (Init h) = h"
| "op_head (InsertHead h x) = h"
| "op_head (InsertTail h x) = h"
| "op_head (InsertAfter h y x) = h"
| "op_head (InsertBefore h y x) = h"
| "op_head (Remove h y) = h"
| "op_head (RemoveHead h) = h"
| "op_head (RemoveAfter h y) = h"
| "op_head (Replace h y x) = h"
| "op_head (Concat h k) = h"
| "op_head (SplitAfter h y k) = h"
| "op_head (Swap h k) = h"
| "op_head (Reverse h) = h"

fun op_adds :: "qop \<Rightarrow> addr list" where
  "op_adds (InsertHead h x) = [x]"
| "op_adds (InsertTail h x) = [x]"
| "op_adds (InsertAfter h y x) = [x]"
| "op_adds (InsertBefore h y x) = [x]"
| "op_adds (Replace h y x) = [x]"
| "op_adds _ = []"

fun list_edit :: "qop \<Rightarrow> addr list \<Rightarrow> addr list option" where
  "list_edit (Init h) xs = Some []"
| "list_edit (InsertHead h x) xs = Some (x # xs)"
| "list_edit (InsertTail h x) xs = Some (xs @ [x])"
| "list_edit (InsertAfter h y x) xs =
     (if y \<in> set xs then Some (before_elem y xs @ y # x # after_elem y xs) else None)"
| "list_edit (InsertBefore h y x) xs =
     (if y \<in> set xs then Some (before_elem y xs @ x # y # after_elem y xs) else None)"
| "list_edit (Remove h y) xs =
     (if y \<in> set xs then Some (before_elem y xs @ after_elem y xs) else None)"
| "list_edit (RemoveHead h) xs = (if xs = [] then None else Some (tl xs))"
| "list_edit (RemoveAfter h y) xs =
     (if y \<in> set xs \<and> after_elem y xs \<noteq> [] then Some (before_elem y xs @ y # tl (after_elem y xs)) else None)"
| "list_edit (Replace h y x) xs =
     (if y \<in> set xs then Some (before_elem y xs @ x # after_elem y xs) else None)"
| "list_edit (Reverse h) xs = Some (rev xs)"
| "list_edit _ xs = None"

fun list_op :: "nat \<Rightarrow> qop \<Rightarrow> addr list list \<Rightarrow> addr list list option" where
  "list_op e (Concat h k) L =
     (if h < length L \<and> k < length L \<and> h \<noteq> k then Some (L[h := L ! h @ L ! k, k := []]) else None)"
| "list_op e (SplitAfter h y k) L =
     (if h < length L \<and> k < length L \<and> h \<noteq> k \<and> y \<in> set (L ! h)
      then Some (L[h := before_elem y (L ! h) @ [y], k := after_elem y (L ! h)]) else None)"
| "list_op e (Swap h k) L =
     (if h < length L \<and> k < length L \<and> h \<noteq> k then Some (L[h := L ! k, k := L ! h]) else None)"
| "list_op e p L =
     (if op_head p < length L \<and> list_all (\<lambda>x. new_elem e x L) (op_adds p)
      then map_option (\<lambda>ys. L[op_head p := ys]) (list_edit p (L ! op_head p)) else None)"

primrec list_ops :: "nat \<Rightarrow> qop list \<Rightarrow> addr list list \<Rightarrow> addr list list option" where
  "list_ops e [] L = Some L"
| "list_ops e (p # ps) L = Option.bind (list_op e p L) (list_ops e ps)"

text \<open>A program of operations on the memory, run by the macros \<open>run\<close> of one kind of list.\<close>

primrec run_ops :: "(qop \<Rightarrow> 'm \<Rightarrow> (fault + 'm) option) \<Rightarrow> qop list \<Rightarrow> 'm \<Rightarrow> (fault + 'm) option" where
  "run_ops run [] m = Some (Inr m)"
| "run_ops run (p # ps) m =
     Option.bind (run p m) (\<lambda>r. case r of Inl f \<Rightarrow> Some (Inl f) | Inr m1 \<Rightarrow> run_ops run ps m1)"

lemma run_ops_append:
  "run_ops run ps m = Some (Inr m1) \<Longrightarrow> run_ops run (ps @ qs) m = run_ops run qs m1"
proof (induction ps arbitrary: m)
  case (Cons p ps)
  then obtain r where "run p m = Some r"
    "(case r of Inl f \<Rightarrow> Some (Inl f) | Inr m0 \<Rightarrow> run_ops run ps m0) = Some (Inr m1)"
    by (auto simp: bind_eq_Some_conv)
  then obtain m0 where "run p m = Some (Inr m0)" "run_ops run ps m0 = Some (Inr m1)"
    by (cases r) auto
  with Cons.IH show ?case by simp
qed simp

lemma elem_split:
  assumes "y \<in> set xs"
  obtains us vs where "xs = us @ y # vs" "before_elem y xs = us" "after_elem y xs = vs"
proof -
  have "xs = before_elem y xs @ y # after_elem y xs"
    using assms unfolding before_elem_def after_elem_def by (induction xs) auto
  with that show thesis by blast
qed

lemma elem_in_part:
  "x \<in> set (before_elem y xs) \<Longrightarrow> x \<in> set xs" "x \<in> set (after_elem y xs) \<Longrightarrow> x \<in> set xs"
  unfolding before_elem_def after_elem_def
  by (auto dest: set_takeWhileD set_dropWhileD list.set_sel(2)) (metis list.sel(2) list.set_sel(2) set_dropWhileD)

lemma in_tl: "x \<in> set (tl xs) \<Longrightarrow> x \<in> set xs"
  by (cases xs) auto

lemma elem_parts: "set (before_elem y xs) \<subseteq> set xs" "set (after_elem y xs) \<subseteq> set xs"
  "set (tl (after_elem y xs)) \<subseteq> set xs"
  using elem_in_part[of _ y xs] in_tl[of _ "after_elem y xs"] by blast+

lemma list_edit_set:
  assumes "list_edit p xs = Some ys"
  shows "set ys \<subseteq> set xs \<union> set (op_adds p)"
proof -
  note parts = elem_parts[of _ xs]
  show ?thesis
  proof (cases p)
    case (RemoveAfter h y)
    with assms parts[of y] show ?thesis by (auto split: if_splits)
  next
    case (RemoveHead h)
    with assms show ?thesis by (auto split: if_splits dest: in_tl)
  qed (use assms parts in \<open>fastforce split: if_splits\<close>)+
qed

lemma list_op_length: "list_op e p L = Some L' \<Longrightarrow> length L' = length L"
  by (cases "(e, p, L)" rule: list_op.cases) (auto split: if_splits)

lemma list_ops_length: "list_ops e ps L = Some L' \<Longrightarrow> length L' = length L"
  by (induction ps arbitrary: L) (auto simp: bind_eq_Some_conv dest: list_op_length)

section \<open>Several lists in one memory\<close>

text \<open>
  \<open>rep m h xs\<close>: the head \<open>h\<close> stands for the list \<open>xs\<close>; \<open>ready m x\<close>: \<open>x\<close> is an allocated element.
\<close>

definition all_lists ::
  "(queue_mem \<Rightarrow> nat \<Rightarrow> addr list \<Rightarrow> bool) \<Rightarrow> (queue_mem \<Rightarrow> addr \<Rightarrow> bool) \<Rightarrow> nat \<Rightarrow> queue_mem \<Rightarrow>
   addr list list \<Rightarrow> bool" where
  "all_lists rep ready e m L \<longleftrightarrow>
     (\<forall>h < length L. rep m h (L ! h)) \<and>
     (\<forall>h < length L. \<forall>k < length L. h \<noteq> k \<longrightarrow> set (L ! h) \<inter> set (L ! k) = {}) \<and>
     set (concat L) \<subseteq> {..<e} \<and> (\<forall>x < e. ready m x)"

lemma all_lists_apart:
  "all_lists rep ready e m L \<Longrightarrow> h < length L \<Longrightarrow> k < length L \<Longrightarrow> h \<noteq> k \<Longrightarrow> set (L ! h) \<inter> set (L ! k) = {}"
  by (simp add: all_lists_def)

lemma all_lists_below: "all_lists rep ready e m L \<Longrightarrow> h < length L \<Longrightarrow> set (L ! h) \<subseteq> {..<e}"
  using UN_upper[of "L ! h" "set L" set] nth_mem[of h L] unfolding all_lists_def by (simp, blast)

lemma below_update: "set (concat L) \<subseteq> A \<Longrightarrow> set ys \<subseteq> A \<Longrightarrow> set (concat (L[h := ys])) \<subseteq> A"
  by (auto dest!: set_update_subset_insert[THEN subsetD])

text \<open>What a macro on one list gives: the list, and nothing touched outside.\<close>

locale list_heads =
  fixes rep :: "queue_mem \<Rightarrow> nat \<Rightarrow> addr list \<Rightarrow> bool"
    and ready :: "queue_mem \<Rightarrow> addr \<Rightarrow> bool"
  assumes rep_frame: "rep m k zs \<Longrightarrow> touches C m m' \<Longrightarrow> Head k \<notin> C \<Longrightarrow> C \<inter> Elem ` set zs = {} \<Longrightarrow> rep m' k zs"
    and ready_frame: "touches C m m' \<Longrightarrow> ready m' x = ready m x"
begin

lemma update_one:
  assumes L: "all_lists rep ready e m L" and h: "h < length L"
    and t: "touches C m m'" "C \<subseteq> structs h (set (L ! h) \<union> Y)"
    and Y: "\<And>x. x \<in> Y \<Longrightarrow> new_elem e x L"
    and r: "rep m' h ys" "set ys \<subseteq> set (L ! h) \<union> Y"
  shows "all_lists rep ready e m' (L[h := ys])"
proof -
  have new: "x \<notin> set (L ! k)" if "x \<in> Y" "k < length L" for x k
    using Y[OF that(1)] that(2) by (auto simp: new_elem_def)
  have dis: "set (L ! k) \<inter> (set (L ! h) \<union> Y) = {}" if "k < length L" "k \<noteq> h" for k
  proof -
    have "set (L ! k) \<inter> set (L ! h) = {}" using L h that by (simp add: all_lists_def)
    with new[OF _ that(1)] show ?thesis by blast
  qed
  have "rep m' k (L[h := ys] ! k)" if "k < length L" for k
  proof (cases "k = h")
    case False
    with that L have "rep m k (L ! k)" by (simp add: all_lists_def)
    then show ?thesis using rep_frame[OF _ t(1)] dis[OF that False] False t(2) that
      by (auto simp: structs_def subset_iff)
  qed (use r that in simp)
  moreover have "set (L[h := ys] ! j) \<inter> set (L[h := ys] ! k) = {}"
    if jk: "j < length L" "k < length L" "j \<noteq> k" for j k
  proof -
    consider "j = h" "k \<noteq> h" | "k = h" "j \<noteq> h" | "j \<noteq> h" "k \<noteq> h" using jk(3) by blast
    then show ?thesis
    proof cases
      case 1
      then show ?thesis using dis[OF jk(2)] r(2) h by auto
    next
      case 2
      then show ?thesis using dis[OF jk(1)] r(2) h by auto
    qed (use jk all_lists_apart[OF L] in simp)
  qed
  moreover have "set (concat (L[h := ys])) \<subseteq> {..<e}"
  proof -
    have "set (L ! h) \<subseteq> {..<e}" using L h by (rule all_lists_below)
    moreover have "Y \<subseteq> {..<e}" using Y by (auto simp: new_elem_def)
    ultimately have "set ys \<subseteq> {..<e}" using r(2) by auto
    with L show ?thesis unfolding all_lists_def by (intro below_update) simp_all
  qed
  ultimately show ?thesis using L ready_frame[OF t(1)] by (simp add: all_lists_def)
qed

lemma update_two:
  assumes L: "all_lists rep ready e m L" and hk: "h < length L" "k < length L" "h \<noteq> k"
    and t: "touches C m m'" "C \<subseteq> structs h (set (L ! h)) \<union> structs k (set (L ! k))"
    and r: "rep m' h ys" "rep m' k zs" "set ys \<inter> set zs = {}" "set ys \<union> set zs \<subseteq> set (L ! h) \<union> set (L ! k)"
  shows "all_lists rep ready e m' (L[h := ys, k := zs])"
proof -
  have dis: "set (L ! j) \<inter> (set (L ! h) \<union> set (L ! k)) = {}" if "j < length L" "j \<noteq> h" "j \<noteq> k" for j
    using L hk that by (auto simp: all_lists_def)
  have "rep m' j (L[h := ys, k := zs] ! j)" if "j < length L" for j
  proof (cases "j = h \<or> j = k")
    case False
    with that L have "rep m j (L ! j)" by (simp add: all_lists_def)
    then show ?thesis using rep_frame[OF _ t(1)] dis[OF that] False t(2) that
      by (auto simp: structs_def subset_iff)
  qed (use r that hk in auto)
  moreover have "set (L[h := ys, k := zs] ! i) \<inter> set (L[h := ys, k := zs] ! j) = {}"
    if ij: "i < length L" "j < length L" "i \<noteq> j" for i j
  proof -
    let ?S = "\<lambda>i. set (L[h := ys, k := zs] ! i)"
    have inside: "?S i \<subseteq> set (L ! h) \<union> set (L ! k)" if "i = h \<or> i = k" for i
      using that hk r(4) by auto
    have outside: "?S i = set (L ! i)" "?S i \<inter> (set (L ! h) \<union> set (L ! k)) = {}"
      if "i < length L" "i \<noteq> h" "i \<noteq> k" for i using that dis by simp_all
    consider "i = h \<and> j = k" | "i = k \<and> j = h" | "i \<noteq> h \<and> i \<noteq> k" "j = h \<or> j = k"
      | "i = h \<or> i = k" "j \<noteq> h \<and> j \<noteq> k" | "i \<noteq> h \<and> i \<noteq> k \<and> j \<noteq> h \<and> j \<noteq> k"
      using ij(3) by blast
    then show ?thesis
    proof cases
      case 3
      then show ?thesis using outside(2)[OF ij(1)] inside[of j] by blast
    next
      case 4
      then show ?thesis using outside(2)[OF ij(2)] inside[of i] by blast
    next
      case 5
      then show ?thesis using outside(1) ij all_lists_apart[OF L] by simp
    qed (use hk r(3) in auto)
  qed
  moreover have "set (concat (L[h := ys, k := zs])) \<subseteq> {..<e}"
  proof -
    have "set (L ! h) \<union> set (L ! k) \<subseteq> {..<e}"
      using all_lists_below[OF L hk(1)] all_lists_below[OF L hk(2)] by simp
    then have "set ys \<union> set zs \<subseteq> {..<e}" using r(4) by auto
    with L show ?thesis unfolding all_lists_def by (intro below_update) simp_all
  qed
  ultimately show ?thesis using L ready_frame[OF t(1)] by (simp add: all_lists_def)
qed

end

section \<open>The contract of a kind of list\<close>

locale list_macros = list_heads +
  fixes run :: "qop \<Rightarrow> queue_mem \<Rightarrow> (fault + queue_mem) option"
    and supports :: "qop \<Rightarrow> bool"
    and head_ready :: "queue_mem \<Rightarrow> nat \<Rightarrow> bool"
  assumes run_init: "head_ready m h \<Longrightarrow>
      \<exists>m'. run (Init h) m = Some (Inr m') \<and> rep m' h [] \<and> touches {Head h} m m'"
    and head_ready_frame: "touches C m m' \<Longrightarrow> head_ready m' h = head_ready m h"
    and run_edit: "supports p \<Longrightarrow> rep m (op_head p) xs \<Longrightarrow> list_edit p xs = Some ys \<Longrightarrow>
      \<forall>x \<in> set (op_adds p). x \<notin> set xs \<and> ready m x \<Longrightarrow>
      \<exists>m'. run p m = Some (Inr m') \<and> rep m' (op_head p) ys \<and>
        touches (structs (op_head p) (set xs \<union> set (op_adds p))) m m'"
    and run_concat: "supports (Concat h k) \<Longrightarrow> rep m h xs \<Longrightarrow> rep m k ys \<Longrightarrow> h \<noteq> k \<Longrightarrow>
      set xs \<inter> set ys = {} \<Longrightarrow>
      \<exists>m'. run (Concat h k) m = Some (Inr m') \<and> rep m' h (xs @ ys) \<and> rep m' k [] \<and>
        touches (structs h (set xs) \<union> structs k (set ys)) m m'"
    and run_split: "supports (SplitAfter h y k) \<Longrightarrow> rep m h (us @ y # vs) \<Longrightarrow> rep m k zs \<Longrightarrow> h \<noteq> k \<Longrightarrow>
      set (us @ y # vs) \<inter> set zs = {} \<Longrightarrow>
      \<exists>m'. run (SplitAfter h y k) m = Some (Inr m') \<and> rep m' h (us @ [y]) \<and> rep m' k vs \<and>
        touches (structs h (set (us @ y # vs)) \<union> structs k (set zs)) m m'"
    and run_swap: "supports (Swap h k) \<Longrightarrow> rep m h xs \<Longrightarrow> rep m k ys \<Longrightarrow> h \<noteq> k \<Longrightarrow>
      set xs \<inter> set ys = {} \<Longrightarrow>
      \<exists>m'. run (Swap h k) m = Some (Inr m') \<and> rep m' h ys \<and> rep m' k xs \<and>
        touches (structs h (set xs) \<union> structs k (set ys)) m m'"
    and rep_distinct: "rep m h xs \<Longrightarrow> distinct xs"
begin

lemma run_two:
  assumes L: "all_lists rep ready e m L" "h < length L" "k < length L" "h \<noteq> k"
    and r: "\<exists>m'. run p m = Some (Inr m') \<and> rep m' h ys \<and> rep m' k zs \<and>
        touches (structs h (set (L ! h)) \<union> structs k (set (L ! k))) m m'"
    and s: "set ys \<inter> set zs = {}" "set ys \<union> set zs \<subseteq> set (L ! h) \<union> set (L ! k)"
  shows "\<exists>m'. run p m = Some (Inr m') \<and> all_lists rep ready e m' (L[h := ys, k := zs])"
  using r update_two[OF L _ subset_refl _ _ s] by blast

lemma run_one:
  assumes "supports p" and L: "all_lists rep ready e m L"
    and h: "op_head p < length L" and new: "list_all (\<lambda>x. new_elem e x L) (op_adds p)"
    and ys: "list_edit p (L ! op_head p) = Some ys"
  shows "\<exists>m'. run p m = Some (Inr m') \<and> all_lists rep ready e m' (L[op_head p := ys])"
proof -
  have "x \<notin> set (L ! op_head p) \<and> ready m x" if "x \<in> set (op_adds p)" for x
    using that new L h by (auto simp: list_all_iff new_elem_def all_lists_def)
  moreover have "rep m (op_head p) (L ! op_head p)" using L h by (simp add: all_lists_def)
  ultimately obtain m' where m': "run p m = Some (Inr m')" "rep m' (op_head p) ys"
    "touches (structs (op_head p) (set (L ! op_head p) \<union> set (op_adds p))) m m'"
    using run_edit[OF assms(1) _ ys, of m] by blast
  have "all_lists rep ready e m' (L[op_head p := ys])"
    using new by (intro update_one[OF L h m'(3) subset_refl _ m'(2) list_edit_set[OF ys]])
      (auto simp: list_all_iff)
  with m'(1) show ?thesis by blast
qed

lemma run_op:
  assumes s: "supports p" and L: "all_lists rep ready e m L" and L': "list_op e p L = Some L'"
  shows "\<exists>m'. run p m = Some (Inr m') \<and> all_lists rep ready e m' L'"
proof -
  have rep: "rep m h (L ! h)" if "h < length L" for h using L that by (simp add: all_lists_def)
  consider (one) "op_head p < length L" "list_all (\<lambda>x. new_elem e x L) (op_adds p)"
      "\<exists>ys. list_edit p (L ! op_head p) = Some ys \<and> L' = L[op_head p := ys]"
    | (concat) h k where "p = Concat h k" "h < length L" "k < length L" "h \<noteq> k" "L' = L[h := L ! h @ L ! k, k := []]"
    | (split) h y k where "p = SplitAfter h y k" "h < length L" "k < length L" "h \<noteq> k" "y \<in> set (L ! h)"
      "L' = L[h := before_elem y (L ! h) @ [y], k := after_elem y (L ! h)]"
    | (swap) h k where "p = Swap h k" "h < length L" "k < length L" "h \<noteq> k" "L' = L[h := L ! k, k := L ! h]"
    using L' by (cases "(e, p, L)" rule: list_op.cases) (auto split: if_splits)
  then show ?thesis
  proof cases
    case one
    then show ?thesis using run_one[OF s L] by blast
  next
    case concat
    note d = all_lists_apart[OF L concat(2,3,4)]
    show ?thesis unfolding concat(5)
      by (rule run_two[OF L concat(2,3,4)])
        (use run_concat[OF _ rep[OF concat(2)] rep[OF concat(3)] concat(4) d] s concat(1) in auto)
  next
    case split
    note d = all_lists_apart[OF L split(2,3,4)]
    obtain us vs where u: "L ! h = us @ y # vs" "before_elem y (L ! h) = us" "after_elem y (L ! h) = vs"
      using elem_split[OF split(5)] .
    have "rep m h (us @ y # vs)" "set (us @ y # vs) \<inter> set (L ! k) = {}"
      using rep[OF split(2)] d u(1) by simp_all
    note r = run_split[OF _ this(1) rep[OF split(3)] split(4) this(2)]
    have "distinct (us @ y # vs)" using rep_distinct[OF rep[OF split(2)]] u(1) by simp
    then show ?thesis unfolding split(6) u(2,3)
      by (intro run_two[OF L split(2,3,4)]) (use r s split(1) u(1) in auto)
  next
    case swap
    note d = all_lists_apart[OF L swap(2,3,4)]
    show ?thesis unfolding swap(5)
      by (rule run_two[OF L swap(2,3,4)])
        (use run_swap[OF _ rep[OF swap(2)] rep[OF swap(3)] swap(4) d] s swap(1) d in auto)
  qed
qed

lemma run_all_ops:
  assumes "all_lists rep ready e m L" "list_ops e ps L = Some L'" "list_all supports ps"
  shows "\<exists>m'. run_ops run ps m = Some (Inr m') \<and> all_lists rep ready e m' L'"
  using assms
proof (induction ps arbitrary: m L)
  case (Cons p ps)
  then obtain L1 where L1: "list_op e p L = Some L1" "list_ops e ps L1 = Some L'"
    by (auto simp: bind_eq_Some_conv)
  obtain m1 where m1: "run p m = Some (Inr m1)" "all_lists rep ready e m1 L1"
    using run_op[OF _ Cons.prems(1) L1(1)] Cons.prems(3) by auto
  with Cons.IH[OF m1(2) L1(2)] Cons.prems(3) show ?case by simp
qed simp

lemma run_inits:
  assumes "\<forall>h < n. head_ready m h"
  shows "\<exists>m'. run_ops run (map Init [0..<n]) m = Some (Inr m') \<and> (\<forall>h < n. rep m' h []) \<and>
    touches (Head ` {..<n}) m m'"
  using assms
proof (induction n)
  case 0
  then show ?case by (simp add: touches_refl)
next
  case (Suc n)
  then obtain m1 where m1: "run_ops run (map Init [0..<n]) m = Some (Inr m1)" "\<forall>h < n. rep m1 h []"
    "touches (Head ` {..<n}) m m1" by auto
  obtain m2 where m2: "run (Init n) m1 = Some (Inr m2)" "rep m2 n []" "touches {Head n} m1 m2"
    using run_init[of m1 n] head_ready_frame[OF m1(3)] Suc.prems by auto
  have "rep m2 h []" if "h < Suc n" for h
    using that m2 m1(2) rep_frame[of m1 h "[]" "{Head n}" m2] by (cases "h = n") auto
  moreover have "touches (Head ` {..<Suc n}) m m2"
    using touches_trans[OF touches_mono[OF m1(3)] touches_mono[OF m2(3)], of "Head ` {..<Suc n}"]
    by (auto simp: lessThan_Suc)
  ultimately show ?case using run_ops_append[OF m1(1), of "[Init n]"] m2(1) by auto
qed

text \<open>A program that initialises its heads and then uses operations where they may be used.\<close>

lemma program_ok:
  assumes "\<forall>h < n. head_ready m h" "\<forall>x < e. ready m x"
    and "list_ops e ps (replicate n []) = Some L" "list_all supports ps"
  shows "\<exists>m'. run_ops run (map Init [0..<n] @ ps) m = Some (Inr m') \<and> (\<forall>h < n. rep m' h (L ! h))"
proof -
  obtain m1 where m1: "run_ops run (map Init [0..<n]) m = Some (Inr m1)" "\<forall>h < n. rep m1 h []"
    "touches (Head ` {..<n}) m m1" using run_inits[OF assms(1)] by auto
  have "all_lists rep ready e m1 (replicate n [])"
    using m1(2) assms(2) ready_frame[OF m1(3)] by (simp add: all_lists_def)
  from run_all_ops[OF this assms(3,4)] obtain m2
    where m2: "run_ops run ps m1 = Some (Inr m2)" "all_lists rep ready e m2 L" by auto
  show ?thesis
    using m2 run_ops_append[OF m1(1)] list_ops_length[OF assms(3)]
    by (auto simp: all_lists_def)
qed

end

end
