(* ===== verification/Tailq.thy ===== *)
theory Tailq
  imports Queue_Lists
begin

text \<open>
  The tail queues of \<^verbatim>\<open>server/queue.h\<close>: the TAILQ macros, in the build without the debug options
  (no trace buffers, no trashing of removed elements, no assertions), and what they do to the list
  a head stands for.
\<close>

section \<open>The macros\<close>

definition TAILQ_FIRST :: "queue_mem \<Rightarrow> nat \<Rightarrow> fault + ptr" where
  "TAILQ_FIRST m h = load_ptr m (Head h)"

definition TAILQ_EMPTY :: "queue_mem \<Rightarrow> nat \<Rightarrow> fault + bool" where
  "TAILQ_EMPTY m h = bindE (TAILQ_FIRST m h) (\<lambda>p. Inr (p = None))"

definition TAILQ_NEXT :: "queue_mem \<Rightarrow> ptr \<Rightarrow> fault + ptr" where
  "TAILQ_NEXT m elm = elm_next m elm"

definition TAILQ_INIT :: "queue_mem \<Rightarrow> nat \<Rightarrow> fault + queue_mem" where
  "TAILQ_INIT m h = bindE (store_ptr m (Head h) None) (\<lambda>m1. store_link m1 (Head h) (Head h))"

text \<open>The struct at \<open>tqh_last\<close> or \<open>tqe_prev\<close> is read as a head: its second word is followed.\<close>

definition TAILQ_LAST :: "queue_mem \<Rightarrow> nat \<Rightarrow> fault + ptr" where
  "TAILQ_LAST m h = bindE (load_link m (Head h)) (\<lambda>l. bindE (load_link m l) (load_ptr m))"

definition TAILQ_PREV :: "queue_mem \<Rightarrow> ptr \<Rightarrow> fault + ptr" where
  "TAILQ_PREV m elm = bindE (elm_prev m elm) (\<lambda>l. bindE (load_link m l) (load_ptr m))"

definition TAILQ_LAST_FAST :: "queue_mem \<Rightarrow> nat \<Rightarrow> fault + ptr" where
  "TAILQ_LAST_FAST m h =
     bindE (TAILQ_EMPTY m h) (\<lambda>e. if e then Inr None else bindE (load_link m (Head h)) container_of)"

definition TAILQ_PREV_FAST :: "queue_mem \<Rightarrow> ptr \<Rightarrow> nat \<Rightarrow> fault + ptr" where
  "TAILQ_PREV_FAST m elm h =
     bindE (elm_prev m elm) (\<lambda>l. if l = Head h then Inr None else container_of l)"

definition TAILQ_INSERT_HEAD :: "queue_mem \<Rightarrow> nat \<Rightarrow> ptr \<Rightarrow> fault + queue_mem" where
  "TAILQ_INSERT_HEAD m h elm =
     bindE (TAILQ_FIRST m h) (\<lambda>f.
     bindE (set_elm_next m elm f) (\<lambda>m1.
     bindE (entry_of elm) (\<lambda>e.
     bindE (if f \<noteq> None then bindE (TAILQ_FIRST m1 h) (\<lambda>f1. set_elm_prev m1 f1 e)
            else store_link m1 (Head h) e) (\<lambda>m2.
     bindE (store_ptr m2 (Head h) elm) (\<lambda>m3.
     set_elm_prev m3 elm (Head h))))))"

definition TAILQ_INSERT_TAIL :: "queue_mem \<Rightarrow> nat \<Rightarrow> ptr \<Rightarrow> fault + queue_mem" where
  "TAILQ_INSERT_TAIL m h elm =
     bindE (set_elm_next m elm None) (\<lambda>m1.
     bindE (load_link m1 (Head h)) (\<lambda>l.
     bindE (set_elm_prev m1 elm l) (\<lambda>m2.
     bindE (store_ptr m2 l elm) (\<lambda>m3.
     bindE (entry_of elm) (\<lambda>e. store_link m3 (Head h) e)))))"

definition TAILQ_INSERT_AFTER :: "queue_mem \<Rightarrow> nat \<Rightarrow> ptr \<Rightarrow> ptr \<Rightarrow> fault + queue_mem" where
  "TAILQ_INSERT_AFTER m h listelm elm =
     bindE (TAILQ_NEXT m listelm) (\<lambda>n.
     bindE (set_elm_next m elm n) (\<lambda>m1.
     bindE (entry_of elm) (\<lambda>e.
     bindE (if n \<noteq> None then bindE (TAILQ_NEXT m1 elm) (\<lambda>n1. set_elm_prev m1 n1 e)
            else store_link m1 (Head h) e) (\<lambda>m2.
     bindE (set_elm_next m2 listelm elm) (\<lambda>m3.
     bindE (entry_of listelm) (\<lambda>le. set_elm_prev m3 elm le))))))"

definition TAILQ_INSERT_BEFORE :: "queue_mem \<Rightarrow> ptr \<Rightarrow> ptr \<Rightarrow> fault + queue_mem" where
  "TAILQ_INSERT_BEFORE m listelm elm =
     bindE (elm_prev m listelm) (\<lambda>l.
     bindE (set_elm_prev m elm l) (\<lambda>m1.
     bindE (set_elm_next m1 elm listelm) (\<lambda>m2.
     bindE (elm_prev m2 listelm) (\<lambda>l2.
     bindE (store_ptr m2 l2 elm) (\<lambda>m3.
     bindE (entry_of elm) (\<lambda>e. set_elm_prev m3 listelm e))))))"

definition TAILQ_REMOVE :: "queue_mem \<Rightarrow> nat \<Rightarrow> ptr \<Rightarrow> fault + queue_mem" where
  "TAILQ_REMOVE m h elm =
     bindE (TAILQ_NEXT m elm) (\<lambda>n.
     bindE (elm_prev m elm) (\<lambda>l.
     bindE (if n \<noteq> None then set_elm_prev m n l else store_link m (Head h) l) (\<lambda>m1.
     bindE (elm_prev m1 elm) (\<lambda>l1.
     bindE (TAILQ_NEXT m1 elm) (\<lambda>n1. store_ptr m1 l1 n1)))))"

definition TAILQ_REMOVE_HEAD :: "queue_mem \<Rightarrow> nat \<Rightarrow> fault + queue_mem" where
  "TAILQ_REMOVE_HEAD m h = bindE (TAILQ_FIRST m h) (TAILQ_REMOVE m h)"

definition TAILQ_REPLACE :: "queue_mem \<Rightarrow> nat \<Rightarrow> ptr \<Rightarrow> ptr \<Rightarrow> fault + queue_mem" where
  "TAILQ_REPLACE m h elm elm2 =
     bindE (TAILQ_NEXT m elm) (\<lambda>n.
     bindE (set_elm_next m elm2 n) (\<lambda>m1.
     bindE (TAILQ_NEXT m1 elm2) (\<lambda>n2.
     bindE (entry_of elm2) (\<lambda>e2.
     bindE (if n2 \<noteq> None then set_elm_prev m1 n2 e2 else store_link m1 (Head h) e2) (\<lambda>m2.
     bindE (elm_prev m2 elm) (\<lambda>l.
     bindE (set_elm_prev m2 elm2 l) (\<lambda>m3.
     bindE (elm_prev m3 elm2) (\<lambda>l3. store_ptr m3 l3 elm2))))))))"

definition TAILQ_CONCAT :: "queue_mem \<Rightarrow> nat \<Rightarrow> nat \<Rightarrow> fault + queue_mem" where
  "TAILQ_CONCAT m h1 h2 =
     bindE (TAILQ_EMPTY m h2) (\<lambda>e.
       if e then Inr m
       else
         bindE (load_link m (Head h1)) (\<lambda>l.
         bindE (TAILQ_FIRST m h2) (\<lambda>f.
         bindE (store_ptr m l f) (\<lambda>m1.
         bindE (TAILQ_FIRST m1 h2) (\<lambda>f1.
         bindE (load_link m1 (Head h1)) (\<lambda>l1.
         bindE (set_elm_prev m1 f1 l1) (\<lambda>m2.
         bindE (load_link m2 (Head h2)) (\<lambda>l2.
         bindE (store_link m2 (Head h1) l2) (\<lambda>m3.
         TAILQ_INIT m3 h2)))))))))"

definition TAILQ_SPLIT_AFTER :: "queue_mem \<Rightarrow> nat \<Rightarrow> ptr \<Rightarrow> nat \<Rightarrow> fault + queue_mem" where
  "TAILQ_SPLIT_AFTER m h elm rest =
     bindE (TAILQ_NEXT m elm) (\<lambda>n.
       if n = None then TAILQ_INIT m rest
       else
         bindE (store_ptr m (Head rest) n) (\<lambda>m1.
         bindE (load_link m1 (Head h)) (\<lambda>l.
         bindE (store_link m1 (Head rest) l) (\<lambda>m2.
         bindE (TAILQ_NEXT m2 elm) (\<lambda>n2.
         bindE (set_elm_prev m2 n2 (Head rest)) (\<lambda>m3.
         bindE (set_elm_next m3 elm None) (\<lambda>m4.
         bindE (entry_of elm) (\<lambda>e. store_link m4 (Head h) e))))))))"

text \<open>What \<open>TAILQ_SWAP\<close> does to one head after the exchange of the words.\<close>

definition tailq_rehome :: "queue_mem \<Rightarrow> nat \<Rightarrow> fault + queue_mem" where
  "tailq_rehome m h =
     bindE (TAILQ_FIRST m h) (\<lambda>f.
       if f \<noteq> None then set_elm_prev m f (Head h) else store_link m (Head h) (Head h))"

definition TAILQ_SWAP :: "queue_mem \<Rightarrow> nat \<Rightarrow> nat \<Rightarrow> fault + queue_mem" where
  "TAILQ_SWAP m h1 h2 =
     bindE (TAILQ_FIRST m h1) (\<lambda>swap_first.
     bindE (load_link m (Head h1)) (\<lambda>swap_last.
     bindE (TAILQ_FIRST m h2) (\<lambda>f2.
     bindE (store_ptr m (Head h1) f2) (\<lambda>m1.
     bindE (load_link m1 (Head h2)) (\<lambda>l2.
     bindE (store_link m1 (Head h1) l2) (\<lambda>m2.
     bindE (store_ptr m2 (Head h2) swap_first) (\<lambda>m3.
     bindE (store_link m3 (Head h2) swap_last) (\<lambda>m4.
     bindE (tailq_rehome m4 h1) (\<lambda>m5. tailq_rehome m5 h2)))))))))"

text \<open>
  The traversals, over a state of the body that holds the memory.
\<close>

definition TAILQ_FOREACH ::
  "('s \<Rightarrow> queue_mem) \<Rightarrow> ('s \<Rightarrow> addr \<Rightarrow> (fault + 's) option) \<Rightarrow> 's \<Rightarrow> nat \<Rightarrow> (fault + 's) option" where
  "TAILQ_FOREACH m_of body s h =
     for_from (for_loop (\<lambda>s. TAILQ_NEXT (m_of s)) body s) (TAILQ_FIRST (m_of s) h)"

definition TAILQ_FOREACH_SAFE ::
  "('s \<Rightarrow> queue_mem) \<Rightarrow> ('s \<Rightarrow> addr \<Rightarrow> (fault + 's) option) \<Rightarrow> 's \<Rightarrow> nat \<Rightarrow> (fault + 's) option" where
  "TAILQ_FOREACH_SAFE m_of body s h =
     for_from (for_loop_safe (\<lambda>s. TAILQ_NEXT (m_of s)) body s) (TAILQ_FIRST (m_of s) h)"

definition TAILQ_FOREACH_REVERSE ::
  "('s \<Rightarrow> queue_mem) \<Rightarrow> ('s \<Rightarrow> addr \<Rightarrow> (fault + 's) option) \<Rightarrow> 's \<Rightarrow> nat \<Rightarrow> (fault + 's) option" where
  "TAILQ_FOREACH_REVERSE m_of body s h =
     for_from (for_loop (\<lambda>s. TAILQ_PREV (m_of s)) body s) (TAILQ_LAST (m_of s) h)"

definition TAILQ_FOREACH_REVERSE_SAFE ::
  "('s \<Rightarrow> queue_mem) \<Rightarrow> ('s \<Rightarrow> addr \<Rightarrow> (fault + 's) option) \<Rightarrow> 's \<Rightarrow> nat \<Rightarrow> (fault + 's) option" where
  "TAILQ_FOREACH_REVERSE_SAFE m_of body s h =
     for_from (for_loop_safe (\<lambda>s. TAILQ_PREV (m_of s)) body s) (TAILQ_LAST (m_of s) h)"

definition TAILQ_FOREACH_FROM ::
  "('s \<Rightarrow> queue_mem) \<Rightarrow> ('s \<Rightarrow> addr \<Rightarrow> (fault + 's) option) \<Rightarrow> 's \<Rightarrow> ptr \<Rightarrow> nat \<Rightarrow> (fault + 's) option" where
  "TAILQ_FOREACH_FROM m_of body s var h =
     for_from (for_loop (\<lambda>s. TAILQ_NEXT (m_of s)) body s) (start_from var (TAILQ_FIRST (m_of s) h))"

definition TAILQ_FOREACH_FROM_SAFE ::
  "('s \<Rightarrow> queue_mem) \<Rightarrow> ('s \<Rightarrow> addr \<Rightarrow> (fault + 's) option) \<Rightarrow> 's \<Rightarrow> ptr \<Rightarrow> nat \<Rightarrow> (fault + 's) option" where
  "TAILQ_FOREACH_FROM_SAFE m_of body s var h =
     for_from (for_loop_safe (\<lambda>s. TAILQ_NEXT (m_of s)) body s) (start_from var (TAILQ_FIRST (m_of s) h))"

definition TAILQ_FOREACH_REVERSE_FROM ::
  "('s \<Rightarrow> queue_mem) \<Rightarrow> ('s \<Rightarrow> addr \<Rightarrow> (fault + 's) option) \<Rightarrow> 's \<Rightarrow> ptr \<Rightarrow> nat \<Rightarrow> (fault + 's) option" where
  "TAILQ_FOREACH_REVERSE_FROM m_of body s var h =
     for_from (for_loop (\<lambda>s. TAILQ_PREV (m_of s)) body s) (start_from var (TAILQ_LAST (m_of s) h))"

definition TAILQ_FOREACH_REVERSE_FROM_SAFE ::
  "('s \<Rightarrow> queue_mem) \<Rightarrow> ('s \<Rightarrow> addr \<Rightarrow> (fault + 's) option) \<Rightarrow> 's \<Rightarrow> ptr \<Rightarrow> nat \<Rightarrow> (fault + 's) option" where
  "TAILQ_FOREACH_REVERSE_FROM_SAFE m_of body s var h =
     for_from (for_loop_safe (\<lambda>s. TAILQ_PREV (m_of s)) body s) (start_from var (TAILQ_LAST (m_of s) h))"

text \<open>The macros by the operation they carry out; there is no \<open>REMOVE_AFTER\<close> and no \<open>REVERSE\<close>.\<close>

fun tailq_run :: "qop \<Rightarrow> queue_mem \<Rightarrow> (fault + queue_mem) option" where
  "tailq_run (Init h) m = Some (TAILQ_INIT m h)"
| "tailq_run (InsertHead h x) m = Some (TAILQ_INSERT_HEAD m h (Some x))"
| "tailq_run (InsertTail h x) m = Some (TAILQ_INSERT_TAIL m h (Some x))"
| "tailq_run (InsertAfter h y x) m = Some (TAILQ_INSERT_AFTER m h (Some y) (Some x))"
| "tailq_run (InsertBefore h y x) m = Some (TAILQ_INSERT_BEFORE m (Some y) (Some x))"
| "tailq_run (Remove h y) m = Some (TAILQ_REMOVE m h (Some y))"
| "tailq_run (RemoveHead h) m = Some (TAILQ_REMOVE_HEAD m h)"
| "tailq_run (Replace h y x) m = Some (TAILQ_REPLACE m h (Some y) (Some x))"
| "tailq_run (Concat h k) m = Some (TAILQ_CONCAT m h k)"
| "tailq_run (SplitAfter h y k) m = Some (TAILQ_SPLIT_AFTER m h (Some y) k)"
| "tailq_run (Swap h k) m = Some (TAILQ_SWAP m h k)"
| "tailq_run (RemoveAfter h y) m = None"
| "tailq_run (Reverse h) m = None"

fun tailq_supports :: "qop \<Rightarrow> bool" where
  "tailq_supports (RemoveAfter h y) = False"
| "tailq_supports (Reverse h) = False"
| "tailq_supports _ = True"

section \<open>The list a head stands for\<close>

definition tailq :: "queue_mem \<Rightarrow> nat \<Rightarrow> addr list \<Rightarrow> bool" where
  "tailq m h xs \<longleftrightarrow> slist_at (w_ptr m) (Head h) xs \<and> points_back (w_link m) (Head h) xs \<and>
     w_link m (Head h) = Some (end_link (Head h) xs)"

lemma tailq_distinct: "tailq m h xs \<Longrightarrow> distinct xs"
  by (auto simp: tailq_def dest: slist_at_distinct)

lemma tailq_unique: "tailq m h xs \<Longrightarrow> tailq m h ys \<Longrightarrow> xs = ys"
  by (auto simp: tailq_def dest: slist_at_unique)

text \<open>Other lists do not change.\<close>

lemma tailq_frame:
  assumes "tailq m k zs" "touches C m m'" "Head k \<notin> C" "C \<inter> Elem ` set zs = {}"
  shows "tailq m' k zs"
proof -
  have "w_ptr m' c = w_ptr m c \<and> w_link m' c = w_link m c" if "c = Head k \<or> c \<in> Elem ` set zs" for c
    using assms(2-4) that by (auto simp: touches_def)
  then show ?thesis
    using assms(1) slist_at_frame[of "Head k" zs "w_ptr m'" "w_ptr m"] points_back_cong[of zs "w_link m'" "w_link m"]
    by (auto simp: tailq_def)
qed

lemmas tailq_macros = TAILQ_FIRST_def TAILQ_EMPTY_def TAILQ_NEXT_def TAILQ_INIT_def
lemmas tailq_unfold = tailq_macros tailq_def slist_at_def

lemma TAILQ_INSERT_TAIL_ok:
  assumes "tailq m h xs" "x \<notin> set xs" "elem_ready m x"
  shows "\<exists>m'. TAILQ_INSERT_TAIL m h (Some x) = Inr m' \<and> tailq m' h (xs @ [x]) \<and>
    touches (structs h (insert x (set xs))) m m'"
  using assms tailq_distinct[OF assms(1)]
  by (cases xs rule: rev_cases)
    (auto simp: TAILQ_INSERT_TAIL_def queue_simps tailq_unfold touches_def structs_def elem_ready_def)

lemma TAILQ_INSERT_HEAD_ok:
  assumes "tailq m h xs" "x \<notin> set xs" "elem_ready m x"
  shows "\<exists>m'. TAILQ_INSERT_HEAD m h (Some x) = Inr m' \<and> tailq m' h (x # xs) \<and>
    touches (structs h (insert x (set xs))) m m'"
  using assms tailq_distinct[OF assms(1)]
  by (cases xs)
    (auto simp: TAILQ_INSERT_HEAD_def queue_simps tailq_unfold touches_def structs_def elem_ready_def)

lemma TAILQ_INSERT_AFTER_ok:
  assumes "tailq m h (us @ y # vs)" "x \<notin> set (us @ y # vs)" "elem_ready m x"
  shows "\<exists>m'. TAILQ_INSERT_AFTER m h (Some y) (Some x) = Inr m' \<and> tailq m' h (us @ y # x # vs) \<and>
    touches (structs h (insert x (set (us @ y # vs)))) m m'"
  using assms tailq_distinct[OF assms(1)]
  by (cases vs)
    (auto simp: TAILQ_INSERT_AFTER_def queue_simps tailq_unfold touches_def structs_def elem_ready_def)

lemma TAILQ_INSERT_BEFORE_ok:
  assumes "tailq m h (us @ y # vs)" "x \<notin> set (us @ y # vs)" "elem_ready m x"
  shows "\<exists>m'. TAILQ_INSERT_BEFORE m (Some y) (Some x) = Inr m' \<and> tailq m' h (us @ x # y # vs) \<and>
    touches (structs h (insert x (set (us @ y # vs)))) m m'"
  using assms tailq_distinct[OF assms(1)]
  by (cases us rule: rev_cases)
    (auto simp: TAILQ_INSERT_BEFORE_def queue_simps tailq_unfold touches_def structs_def elem_ready_def)

lemma TAILQ_REMOVE_ok:
  assumes "tailq m h (us @ y # vs)"
  shows "\<exists>m'. TAILQ_REMOVE m h (Some y) = Inr m' \<and> tailq m' h (us @ vs) \<and>
    touches (structs h (set (us @ y # vs))) m m'"
  using assms tailq_distinct[OF assms(1)]
  by (cases us rule: rev_cases; cases vs)
    (auto simp: TAILQ_REMOVE_def queue_simps tailq_unfold touches_def structs_def)

lemma TAILQ_REMOVE_HEAD_ok:
  assumes "tailq m h (y # vs)"
  shows "\<exists>m'. TAILQ_REMOVE_HEAD m h = Inr m' \<and> tailq m' h vs \<and> touches (structs h (set (y # vs))) m m'"
  using TAILQ_REMOVE_ok[of m h "[]" y vs] assms slist_at_first[of "w_ptr m" "Head h" "y # vs"]
  by (simp add: TAILQ_REMOVE_HEAD_def TAILQ_FIRST_def tailq_def queue_simps)

lemma TAILQ_REPLACE_ok:
  assumes "tailq m h (us @ y # vs)" "x \<notin> set (us @ y # vs)" "elem_ready m x"
  shows "\<exists>m'. TAILQ_REPLACE m h (Some y) (Some x) = Inr m' \<and> tailq m' h (us @ x # vs) \<and>
    touches (structs h (insert x (set (us @ y # vs)))) m m'"
  using assms tailq_distinct[OF assms(1)]
  by (cases us rule: rev_cases; cases vs)
    (auto simp: TAILQ_REPLACE_def queue_simps tailq_unfold touches_def structs_def elem_ready_def)

lemma TAILQ_INIT_ok:
  assumes "w_ptr m (Head h) \<noteq> None" "w_link m (Head h) \<noteq> None"
  shows "\<exists>m'. TAILQ_INIT m h = Inr m' \<and> tailq m' h [] \<and> touches {Head h} m m'"
  using assms by (auto simp: queue_simps tailq_unfold touches_def)

lemma TAILQ_CONCAT_ok:
  assumes "tailq m h xs" "tailq m k ys" "h \<noteq> k" "set xs \<inter> set ys = {}"
  shows "\<exists>m'. TAILQ_CONCAT m h k = Inr m' \<and> tailq m' h (xs @ ys) \<and> tailq m' k [] \<and>
    touches (structs h (set xs) \<union> structs k (set ys)) m m'"
  using assms tailq_distinct[OF assms(1)] tailq_distinct[OF assms(2)]
  by (cases xs rule: rev_cases; cases ys)
    (auto simp: TAILQ_CONCAT_def queue_simps tailq_unfold touches_def structs_def)

lemma TAILQ_SPLIT_AFTER_ok:
  assumes "tailq m h (us @ y # vs)" "h \<noteq> k" "w_ptr m (Head k) \<noteq> None" "w_link m (Head k) \<noteq> None"
  shows "\<exists>m'. TAILQ_SPLIT_AFTER m h (Some y) k = Inr m' \<and> tailq m' h (us @ [y]) \<and> tailq m' k vs \<and>
    touches (insert (Head k) (structs h (set (us @ y # vs)))) m m'"
  using assms tailq_distinct[OF assms(1)]
  by (cases vs)
    (auto simp: TAILQ_SPLIT_AFTER_def queue_simps tailq_unfold touches_def structs_def)

lemma TAILQ_SWAP_ok:
  assumes "tailq m h xs" "tailq m k ys" "h \<noteq> k" "set xs \<inter> set ys = {}"
  shows "\<exists>m'. TAILQ_SWAP m h k = Inr m' \<and> tailq m' h ys \<and> tailq m' k xs \<and>
    touches (structs h (set xs) \<union> structs k (set ys)) m m'"
  using assms tailq_distinct[OF assms(1)] tailq_distinct[OF assms(2)]
  by (cases xs; cases ys)
    (auto simp: TAILQ_SWAP_def tailq_rehome_def queue_simps tailq_unfold touches_def structs_def)

section \<open>Looking at a list\<close>

lemma TAILQ_FIRST_ok: "tailq m h xs \<Longrightarrow> TAILQ_FIRST m h = Inr (first_of xs)"
  by (auto simp: tailq_def TAILQ_FIRST_def queue_simps dest: slist_at_first)

lemma TAILQ_EMPTY_ok: "tailq m h xs \<Longrightarrow> TAILQ_EMPTY m h = Inr (xs = [])"
  by (simp add: TAILQ_EMPTY_def TAILQ_FIRST_ok)

lemma TAILQ_NEXT_ok: "tailq m h (us @ y # vs) \<Longrightarrow> TAILQ_NEXT m (Some y) = Inr (first_of vs)"
  by (cases vs) (auto simp: tailq_unfold queue_simps)

text \<open>The entry of the last element is read as a head: its second word is where it is pointed to from.\<close>

lemma TAILQ_LAST_ok: "tailq m h xs \<Longrightarrow> TAILQ_LAST m h = Inr (last_of xs)"
  by (cases xs rule: rev_cases) (auto simp: TAILQ_LAST_def tailq_unfold queue_simps)

lemma TAILQ_PREV_ok: "tailq m h (us @ y # vs) \<Longrightarrow> TAILQ_PREV m (Some y) = Inr (last_of us)"
  by (cases us rule: rev_cases) (auto simp: TAILQ_PREV_def tailq_unfold queue_simps)

lemma TAILQ_LAST_FAST_ok: "tailq m h xs \<Longrightarrow> TAILQ_LAST_FAST m h = Inr (last_of xs)"
  using TAILQ_EMPTY_ok[of m h xs] by (cases xs rule: rev_cases)
    (auto simp: TAILQ_LAST_FAST_def container_of_def tailq_def queue_simps)

lemma TAILQ_PREV_FAST_ok: "tailq m h (us @ y # vs) \<Longrightarrow> TAILQ_PREV_FAST m (Some y) h = Inr (last_of us)"
  by (cases us rule: rev_cases)
    (auto simp: TAILQ_PREV_FAST_def container_of_def tailq_def queue_simps)

lemma TAILQ_NEXT_fun: "TAILQ_NEXT = elm_next"
  by (intro ext) (simp add: TAILQ_NEXT_def)

lemma tailq_forward: "tailq m h xs \<Longrightarrow> leads (TAILQ_NEXT m) (first_of xs) xs"
  using leads_forward[of m "Head h" xs] by (simp add: tailq_def TAILQ_NEXT_fun)

lemma tailq_backward: "tailq m h xs \<Longrightarrow> leads (TAILQ_PREV m) (last_of xs) (rev xs)"
  by (rule leads_backward) (simp add: TAILQ_PREV_ok)

lemma TAILQ_FOREACH_ok:
  "tailq m h xs \<Longrightarrow> TAILQ_FOREACH fst note_elem (m, []) h = Some (Inr (m, xs))"
  by (simp add: TAILQ_FOREACH_def TAILQ_FIRST_ok
      for_loop_visits[where step = TAILQ_NEXT, OF tailq_forward])

lemma TAILQ_FOREACH_REVERSE_ok:
  "tailq m h xs \<Longrightarrow> TAILQ_FOREACH_REVERSE fst note_elem (m, []) h = Some (Inr (m, rev xs))"
  by (simp add: TAILQ_FOREACH_REVERSE_def TAILQ_LAST_ok
      for_loop_visits[where step = TAILQ_PREV, OF tailq_backward])

lemma TAILQ_SAFE_ok:
  assumes "tailq m h xs"
  shows "TAILQ_FOREACH_SAFE fst note_elem (m, []) h = Some (Inr (m, xs))"
    and "TAILQ_FOREACH_REVERSE_SAFE fst note_elem (m, []) h = Some (Inr (m, rev xs))"
  using assms by (simp_all add: TAILQ_FOREACH_SAFE_def TAILQ_FOREACH_REVERSE_SAFE_def TAILQ_FIRST_ok
      TAILQ_LAST_ok for_loop_safe_visits[where step = TAILQ_NEXT, OF tailq_forward]
      for_loop_safe_visits[where step = TAILQ_PREV, OF tailq_backward])

lemma TAILQ_FROM_ok:
  assumes "tailq m h (us @ y # vs)"
  shows "TAILQ_FOREACH_FROM fst note_elem (m, []) (Some y) h = Some (Inr (m, y # vs))"
    and "TAILQ_FOREACH_FROM_SAFE fst note_elem (m, []) (Some y) h = Some (Inr (m, y # vs))"
proof -
  have "leads (TAILQ_NEXT m) (Some y) (y # vs)"
    using leads_from[OF tailq_forward[OF assms]] .
  from for_loop_visits[where step = TAILQ_NEXT and ys = "[]", OF this] for_loop_safe_visits[where step = TAILQ_NEXT and ys = "[]", OF this]
  show "TAILQ_FOREACH_FROM fst note_elem (m, []) (Some y) h = Some (Inr (m, y # vs))"
    "TAILQ_FOREACH_FROM_SAFE fst note_elem (m, []) (Some y) h = Some (Inr (m, y # vs))"
    by (simp_all add: TAILQ_FOREACH_FROM_def TAILQ_FOREACH_FROM_SAFE_def)
qed

lemma TAILQ_REVERSE_FROM_ok:
  assumes "tailq m h (us @ y # vs)"
  shows "TAILQ_FOREACH_REVERSE_FROM fst note_elem (m, []) (Some y) h = Some (Inr (m, y # rev us))"
    and "TAILQ_FOREACH_REVERSE_FROM_SAFE fst note_elem (m, []) (Some y) h = Some (Inr (m, y # rev us))"
proof -
  have "leads (TAILQ_PREV m) (last_of (us @ y # vs)) (rev vs @ y # rev us)"
    using tailq_backward[OF assms] by simp
  note b = leads_from[OF this]
  from for_loop_visits[where step = TAILQ_PREV and ys = "[]", OF b] for_loop_safe_visits[where step = TAILQ_PREV and ys = "[]", OF b]
  show "TAILQ_FOREACH_REVERSE_FROM fst note_elem (m, []) (Some y) h = Some (Inr (m, y # rev us))"
    "TAILQ_FOREACH_REVERSE_FROM_SAFE fst note_elem (m, []) (Some y) h = Some (Inr (m, y # rev us))"
    by (simp_all add: TAILQ_FOREACH_REVERSE_FROM_def TAILQ_FOREACH_REVERSE_FROM_SAFE_def)
qed

section \<open>Programs of tail queue macros\<close>

definition tailq_head_ready :: "queue_mem \<Rightarrow> nat \<Rightarrow> bool" where
  "tailq_head_ready m h \<longleftrightarrow> w_ptr m (Head h) \<noteq> None \<and> w_link m (Head h) \<noteq> None"

lemma tailq_edit:
  assumes "tailq_supports p" "tailq m (op_head p) xs" "list_edit p xs = Some ys"
    "\<forall>x \<in> set (op_adds p). x \<notin> set xs \<and> elem_ready m x"
  shows "\<exists>m'. tailq_run p m = Some (Inr m') \<and> tailq m' (op_head p) ys \<and>
    touches (structs (op_head p) (set xs \<union> set (op_adds p))) m m'"
proof (cases p)
  case (Init h)
  have "touches {Head h} m m' \<Longrightarrow> touches (structs h (set xs)) m m'" for m'
    by (erule touches_mono) (simp add: structs_def)
  with Init assms TAILQ_INIT_ok[of m h] slist_at_first[of "w_ptr m" "Head h" xs] show ?thesis
    by (auto simp: tailq_def)
next
  case (InsertHead h x)
  with assms show ?thesis using TAILQ_INSERT_HEAD_ok[of m h xs x] by simp
next
  case (InsertTail h x)
  with assms show ?thesis using TAILQ_INSERT_TAIL_ok[of m h xs x] by simp
next
  case (InsertAfter h y x)
  with assms show ?thesis using TAILQ_INSERT_AFTER_ok[of m h _ y _ x]
    by (auto split: if_splits elim!: elem_split)
next
  case (InsertBefore h y x)
  with assms show ?thesis using TAILQ_INSERT_BEFORE_ok[of m h _ y _ x]
    by (auto split: if_splits elim!: elem_split)
next
  case (Remove h y)
  with assms show ?thesis using TAILQ_REMOVE_ok[of m h _ y]
    by (auto split: if_splits elim!: elem_split)
next
  case (RemoveHead h)
  with assms show ?thesis using TAILQ_REMOVE_HEAD_ok[of m h] by (cases xs) auto
next
  case (Replace h y x)
  with assms show ?thesis using TAILQ_REPLACE_ok[of m h _ y _ x]
    by (auto split: if_splits elim!: elem_split)
qed (use assms in auto)

lemma tailq_split:
  assumes "tailq m h (us @ y # vs)" "tailq m k zs" "h \<noteq> k"
  shows "\<exists>m'. tailq_run (SplitAfter h y k) m = Some (Inr m') \<and> tailq m' h (us @ [y]) \<and> tailq m' k vs \<and>
    touches (structs h (set (us @ y # vs)) \<union> structs k (set zs)) m m'"
proof -
  have "w_ptr m (Head k) \<noteq> None" "w_link m (Head k) \<noteq> None"
    using assms(2) slist_at_first by (auto simp: tailq_def)
  with TAILQ_SPLIT_AFTER_ok[OF assms(1,3)] obtain m' where m':
    "TAILQ_SPLIT_AFTER m h (Some y) k = Inr m'" "tailq m' h (us @ [y])" "tailq m' k vs"
    "touches (insert (Head k) (structs h (set (us @ y # vs)))) m m'" by auto
  then show ?thesis
    using touches_mono[OF m'(4), of "structs h (set (us @ y # vs)) \<union> structs k (set zs)"]
    by (auto simp: structs_def)
qed

interpretation tailqs: list_macros tailq elem_ready tailq_run tailq_supports tailq_head_ready
proof unfold_locales
  fix m k zs C m'
  show "tailq m k zs \<Longrightarrow> touches C m m' \<Longrightarrow> Head k \<notin> C \<Longrightarrow> C \<inter> Elem ` set zs = {} \<Longrightarrow> tailq m' k zs"
    by (rule tailq_frame)
  show "touches C m m' \<Longrightarrow> tailq_head_ready m' h = tailq_head_ready m h" for h
    by (auto simp: touches_def tailq_head_ready_def)
  show "tailq_head_ready m h \<Longrightarrow>
      \<exists>m'. tailq_run (Init h) m = Some (Inr m') \<and> tailq m' h [] \<and> touches {Head h} m m'" for h
    using TAILQ_INIT_ok by (auto simp: tailq_head_ready_def)
qed (simp_all add: touches_ready tailq_edit TAILQ_CONCAT_ok TAILQ_SWAP_ok tailq_distinct
    tailq_split[simplified])

section \<open>Properties of the tail queue macros\<close>

text \<open>
  C21. Any program that initialises the heads of its tail queues and then uses the TAILQ macros on
  elements where they may be used runs to its end without touching a word that is not there, and
  leaves every head with the list the operations make on abstract lists: \<open>TAILQ_FOREACH\<close> visits
  its elements in order and \<open>TAILQ_FOREACH_REVERSE\<close> in the opposite order.
\<close>

theorem tail_queue_programs:
  assumes "\<forall>h < n. tailq_head_ready m h" "\<forall>x < e. elem_ready m x"
    and "list_all tailq_supports ps" "list_ops e ps (replicate n []) = Some L"
  shows "\<exists>m'. run_ops tailq_run (map Init [0..<n] @ ps) m = Some (Inr m') \<and>
    (\<forall>h < n. TAILQ_FOREACH fst note_elem (m', []) h = Some (Inr (m', L ! h)) \<and>
      TAILQ_FOREACH_REVERSE fst note_elem (m', []) h = Some (Inr (m', rev (L ! h))))"
  using tailqs.program_ok[OF assms(1,2,4,3)] TAILQ_FOREACH_ok TAILQ_FOREACH_REVERSE_ok by blast

definition demo_ops :: "qop list" where
  "demo_ops =
     [InsertTail 0 0, InsertTail 0 1, InsertHead 0 2, InsertAfter 0 0 3, InsertBefore 0 3 4,
      InsertTail 1 5, SplitAfter 0 4 2, Remove 2 1, Concat 2 1, Replace 2 3 1, Swap 0 2, RemoveHead 2]"

lemma demo_ops_lists: "list_ops 6 demo_ops (replicate 3 []) = Some [[1, 5], [], [0, 4]]"
  by (simp add: demo_ops_def new_elem_def before_elem_def after_elem_def numeral_3_eq_3)

theorem tail_queue_programs_witness:
  "\<exists>m'. run_ops tailq_run (map Init [0..<3] @ demo_ops) (arena 3 6) = Some (Inr m') \<and>
     TAILQ_FOREACH fst note_elem (m', []) 2 = Some (Inr (m', [0, 4])) \<and>
     TAILQ_FOREACH_REVERSE fst note_elem (m', []) 2 = Some (Inr (m', [4, 0]))"
proof -
  have "list_all tailq_supports demo_ops" by (simp add: demo_ops_def)
  moreover have "\<forall>h < 3. tailq_head_ready (arena 3 6) h" "\<forall>x < 6. elem_ready (arena 3 6) x"
    by (simp_all add: arena_def Let_def tailq_head_ready_def elem_ready_def)
  ultimately show ?thesis
    using tail_queue_programs[of 3 "arena 3 6" 6, OF _ _ _ demo_ops_lists] by force
qed

text \<open>
  C29. Reading the entry behind \<open>tqh_last\<close> or \<open>tqe_prev\<close> as a head is right: \<open>TAILQ_LAST\<close> and
  \<open>TAILQ_PREV\<close> give the last element and the element before (NULL when there is none), the same as
  \<open>TAILQ_LAST_FAST\<close> and \<open>TAILQ_PREV_FAST\<close>, which compute the element from the address.
\<close>

theorem tail_queue_last_prev:
  assumes "tailq m h (us @ y # vs)"
  shows "TAILQ_PREV m (Some y) = Inr (last_of us) \<and> TAILQ_PREV_FAST m (Some y) h = TAILQ_PREV m (Some y) \<and>
    TAILQ_LAST m h = Inr (Some (last (y # vs))) \<and> TAILQ_LAST_FAST m h = TAILQ_LAST m h"
  using TAILQ_PREV_ok[OF assms] TAILQ_PREV_FAST_ok[OF assms] TAILQ_LAST_ok[OF assms]
    TAILQ_LAST_FAST_ok[OF assms] by (simp add: last_of_def)

definition demo_queue :: queue_mem where
  "demo_queue =
     \<lparr>w_ptr = Map.empty(Head 0 \<mapsto> Some 4, Elem 4 \<mapsto> Some 7, Elem 7 \<mapsto> None),
      w_link = Map.empty(Head 0 \<mapsto> Elem 7, Elem 4 \<mapsto> Head 0, Elem 7 \<mapsto> Elem 4)\<rparr>"

theorem tail_queue_last_prev_witness:
  "TAILQ_PREV demo_queue (Some 7) = Inr (Some 4) \<and> TAILQ_LAST demo_queue 0 = Inr (Some 7) \<and>
   TAILQ_PREV demo_queue (Some 4) = Inr None"
  using tail_queue_last_prev[of demo_queue 0 "[4]" 7 "[]"] tail_queue_last_prev[of demo_queue 0 "[]" 4 "[7]"]
  by (simp add: demo_queue_def tailq_def slist_at_def last_of_def)

end
