(* ===== verification/Stailq.thy ===== *)
theory Stailq
  imports Queue_Lists
begin

text \<open>
  The singly-linked tail queues of \<^verbatim>\<open>server/queue.h\<close>: the STAILQ macros in the build without the
  debug options. A head has the address of the pointer after the last element; an entry is one
  pointer. \<open>STAILQ_REMOVE\<close> and \<open>STAILQ_REVERSE\<close> walk the list; their result is \<open>None\<close> where they
  would not return.
\<close>

section \<open>The macros\<close>

definition STAILQ_FIRST :: "queue_mem \<Rightarrow> nat \<Rightarrow> fault + ptr" where
  "STAILQ_FIRST m h = load_ptr m (Head h)"

definition STAILQ_EMPTY :: "queue_mem \<Rightarrow> nat \<Rightarrow> fault + bool" where
  "STAILQ_EMPTY m h = bindE (STAILQ_FIRST m h) (\<lambda>p. Inr (p = None))"

definition STAILQ_NEXT :: "queue_mem \<Rightarrow> ptr \<Rightarrow> fault + ptr" where
  "STAILQ_NEXT m elm = elm_next m elm"

definition STAILQ_INIT :: "queue_mem \<Rightarrow> nat \<Rightarrow> fault + queue_mem" where
  "STAILQ_INIT m h = bindE (store_ptr m (Head h) None) (\<lambda>m1. store_link m1 (Head h) (Head h))"

definition STAILQ_LAST :: "queue_mem \<Rightarrow> nat \<Rightarrow> fault + ptr" where
  "STAILQ_LAST m h =
     bindE (STAILQ_EMPTY m h) (\<lambda>e. if e then Inr None else bindE (load_link m (Head h)) container_of)"

definition STAILQ_CONCAT :: "queue_mem \<Rightarrow> nat \<Rightarrow> nat \<Rightarrow> fault + queue_mem" where
  "STAILQ_CONCAT m h1 h2 =
     bindE (STAILQ_EMPTY m h2) (\<lambda>e.
       if e then Inr m
       else
         bindE (load_link m (Head h1)) (\<lambda>l.
         bindE (STAILQ_FIRST m h2) (\<lambda>f.
         bindE (store_ptr m l f) (\<lambda>m1.
         bindE (load_link m1 (Head h2)) (\<lambda>l2.
         bindE (store_link m1 (Head h1) l2) (\<lambda>m2.
         STAILQ_INIT m2 h2))))))"

definition STAILQ_INSERT_AFTER :: "queue_mem \<Rightarrow> nat \<Rightarrow> ptr \<Rightarrow> ptr \<Rightarrow> fault + queue_mem" where
  "STAILQ_INSERT_AFTER m h tqelm elm =
     bindE (STAILQ_NEXT m tqelm) (\<lambda>n.
     bindE (set_elm_next m elm n) (\<lambda>m1.
     bindE (if n = None then bindE (entry_of elm) (\<lambda>e. store_link m1 (Head h) e) else Inr m1) (\<lambda>m2.
     set_elm_next m2 tqelm elm)))"

definition STAILQ_INSERT_HEAD :: "queue_mem \<Rightarrow> nat \<Rightarrow> ptr \<Rightarrow> fault + queue_mem" where
  "STAILQ_INSERT_HEAD m h elm =
     bindE (STAILQ_FIRST m h) (\<lambda>f.
     bindE (set_elm_next m elm f) (\<lambda>m1.
     bindE (if f = None then bindE (entry_of elm) (\<lambda>e. store_link m1 (Head h) e) else Inr m1) (\<lambda>m2.
     store_ptr m2 (Head h) elm)))"

definition STAILQ_INSERT_TAIL :: "queue_mem \<Rightarrow> nat \<Rightarrow> ptr \<Rightarrow> fault + queue_mem" where
  "STAILQ_INSERT_TAIL m h elm =
     bindE (set_elm_next m elm None) (\<lambda>m1.
     bindE (load_link m1 (Head h)) (\<lambda>l.
     bindE (store_ptr m1 l elm) (\<lambda>m2.
     bindE (entry_of elm) (\<lambda>e. store_link m2 (Head h) e))))"

definition STAILQ_REMOVE_AFTER :: "queue_mem \<Rightarrow> nat \<Rightarrow> ptr \<Rightarrow> fault + queue_mem" where
  "STAILQ_REMOVE_AFTER m h elm =
     bindE (STAILQ_NEXT m elm) (\<lambda>n.
     bindE (STAILQ_NEXT m n) (\<lambda>nn.
     bindE (set_elm_next m elm nn) (\<lambda>m1.
     if nn = None then bindE (entry_of elm) (\<lambda>e. store_link m1 (Head h) e) else Inr m1)))"

definition STAILQ_REMOVE_HEAD :: "queue_mem \<Rightarrow> nat \<Rightarrow> fault + queue_mem" where
  "STAILQ_REMOVE_HEAD m h =
     bindE (STAILQ_FIRST m h) (\<lambda>f.
     bindE (STAILQ_NEXT m f) (\<lambda>n.
     bindE (store_ptr m (Head h) n) (\<lambda>m1.
     if n = None then store_link m1 (Head h) (Head h) else Inr m1)))"

definition STAILQ_REMOVE :: "queue_mem \<Rightarrow> nat \<Rightarrow> ptr \<Rightarrow> (fault + queue_mem) option" where
  "STAILQ_REMOVE m h elm =
     (case STAILQ_FIRST m h of
        Inl f \<Rightarrow> Some (Inl f)
      | Inr first \<Rightarrow>
          if first = elm then Some (STAILQ_REMOVE_HEAD m h)
          else Option.bind (walk_before m first elm) (\<lambda>r. Some (bindE r (STAILQ_REMOVE_AFTER m h))))"

definition STAILQ_SPLIT_AFTER :: "queue_mem \<Rightarrow> nat \<Rightarrow> ptr \<Rightarrow> nat \<Rightarrow> fault + queue_mem" where
  "STAILQ_SPLIT_AFTER m h elm rest =
     bindE (STAILQ_NEXT m elm) (\<lambda>n.
       if n = None then STAILQ_INIT m rest
       else
         bindE (store_ptr m (Head rest) n) (\<lambda>m1.
         bindE (load_link m1 (Head h)) (\<lambda>l.
         bindE (store_link m1 (Head rest) l) (\<lambda>m2.
         bindE (set_elm_next m2 elm None) (\<lambda>m3.
         bindE (entry_of elm) (\<lambda>e. store_link m3 (Head h) e))))))"

text \<open>What \<open>STAILQ_SWAP\<close> does to one head after the exchange of the words.\<close>

definition stailq_rehome :: "queue_mem \<Rightarrow> nat \<Rightarrow> fault + queue_mem" where
  "stailq_rehome m h =
     bindE (STAILQ_FIRST m h) (\<lambda>f. if f = None then store_link m (Head h) (Head h) else Inr m)"

definition STAILQ_SWAP :: "queue_mem \<Rightarrow> nat \<Rightarrow> nat \<Rightarrow> fault + queue_mem" where
  "STAILQ_SWAP m h1 h2 =
     bindE (STAILQ_FIRST m h1) (\<lambda>swap_first.
     bindE (load_link m (Head h1)) (\<lambda>swap_last.
     bindE (STAILQ_FIRST m h2) (\<lambda>f2.
     bindE (store_ptr m (Head h1) f2) (\<lambda>m1.
     bindE (load_link m1 (Head h2)) (\<lambda>l2.
     bindE (store_link m1 (Head h1) l2) (\<lambda>m2.
     bindE (store_ptr m2 (Head h2) swap_first) (\<lambda>m3.
     bindE (store_link m3 (Head h2) swap_last) (\<lambda>m4.
     bindE (stailq_rehome m4 h1) (\<lambda>m5. stailq_rehome m5 h2)))))))))"

text \<open>The loop of \<open>STAILQ_REVERSE\<close>, with its variables \<open>_Var\<close> and \<open>_Varp\<close>.\<close>

partial_function (option) reverse_loop :: "queue_mem \<Rightarrow> ptr \<Rightarrow> ptr \<Rightarrow> (fault + queue_mem \<times> ptr) option" where
  "reverse_loop m var varp =
     (if var = None then Some (Inr (m, varp))
      else
        (case STAILQ_NEXT m var of
           Inl f \<Rightarrow> Some (Inl f)
         | Inr varn \<Rightarrow>
             (case set_elm_next m var varp of
                Inl f \<Rightarrow> Some (Inl f)
              | Inr m1 \<Rightarrow> reverse_loop m1 varn var)))"

definition STAILQ_REVERSE :: "queue_mem \<Rightarrow> nat \<Rightarrow> (fault + queue_mem) option" where
  "STAILQ_REVERSE m h =
     (case STAILQ_FIRST m h of
        Inl f \<Rightarrow> Some (Inl f)
      | Inr first \<Rightarrow>
          if first = None then Some (Inr m)
          else Option.bind (reverse_loop m first None) (\<lambda>r.
            Some (bindE r (\<lambda>(m1, varp).
              bindE (STAILQ_FIRST m1 h) (\<lambda>f.
              bindE (entry_of f) (\<lambda>e.
              bindE (store_link m1 (Head h) e) (\<lambda>m2. store_ptr m2 (Head h) varp)))))))"

definition STAILQ_FOREACH ::
  "('s \<Rightarrow> queue_mem) \<Rightarrow> ('s \<Rightarrow> addr \<Rightarrow> (fault + 's) option) \<Rightarrow> 's \<Rightarrow> nat \<Rightarrow> (fault + 's) option" where
  "STAILQ_FOREACH m_of body s h =
     for_from (for_loop (\<lambda>s. STAILQ_NEXT (m_of s)) body s) (STAILQ_FIRST (m_of s) h)"

definition STAILQ_FOREACH_SAFE ::
  "('s \<Rightarrow> queue_mem) \<Rightarrow> ('s \<Rightarrow> addr \<Rightarrow> (fault + 's) option) \<Rightarrow> 's \<Rightarrow> nat \<Rightarrow> (fault + 's) option" where
  "STAILQ_FOREACH_SAFE m_of body s h =
     for_from (for_loop_safe (\<lambda>s. STAILQ_NEXT (m_of s)) body s) (STAILQ_FIRST (m_of s) h)"

definition STAILQ_FOREACH_FROM ::
  "('s \<Rightarrow> queue_mem) \<Rightarrow> ('s \<Rightarrow> addr \<Rightarrow> (fault + 's) option) \<Rightarrow> 's \<Rightarrow> ptr \<Rightarrow> nat \<Rightarrow> (fault + 's) option" where
  "STAILQ_FOREACH_FROM m_of body s var h =
     for_from (for_loop (\<lambda>s. STAILQ_NEXT (m_of s)) body s) (start_from var (STAILQ_FIRST (m_of s) h))"

definition STAILQ_FOREACH_FROM_SAFE ::
  "('s \<Rightarrow> queue_mem) \<Rightarrow> ('s \<Rightarrow> addr \<Rightarrow> (fault + 's) option) \<Rightarrow> 's \<Rightarrow> ptr \<Rightarrow> nat \<Rightarrow> (fault + 's) option" where
  "STAILQ_FOREACH_FROM_SAFE m_of body s var h =
     for_from (for_loop_safe (\<lambda>s. STAILQ_NEXT (m_of s)) body s) (start_from var (STAILQ_FIRST (m_of s) h))"

text \<open>The macros by the operation they carry out; there is no \<open>INSERT_BEFORE\<close> and no \<open>REPLACE\<close>.\<close>

fun stailq_run :: "qop \<Rightarrow> queue_mem \<Rightarrow> (fault + queue_mem) option" where
  "stailq_run (Init h) m = Some (STAILQ_INIT m h)"
| "stailq_run (InsertHead h x) m = Some (STAILQ_INSERT_HEAD m h (Some x))"
| "stailq_run (InsertTail h x) m = Some (STAILQ_INSERT_TAIL m h (Some x))"
| "stailq_run (InsertAfter h y x) m = Some (STAILQ_INSERT_AFTER m h (Some y) (Some x))"
| "stailq_run (InsertBefore h y x) m = None"
| "stailq_run (Remove h y) m = STAILQ_REMOVE m h (Some y)"
| "stailq_run (RemoveHead h) m = Some (STAILQ_REMOVE_HEAD m h)"
| "stailq_run (RemoveAfter h y) m = Some (STAILQ_REMOVE_AFTER m h (Some y))"
| "stailq_run (Replace h y x) m = None"
| "stailq_run (Concat h k) m = Some (STAILQ_CONCAT m h k)"
| "stailq_run (SplitAfter h y k) m = Some (STAILQ_SPLIT_AFTER m h (Some y) k)"
| "stailq_run (Swap h k) m = Some (STAILQ_SWAP m h k)"
| "stailq_run (Reverse h) m = STAILQ_REVERSE m h"

fun stailq_supports :: "qop \<Rightarrow> bool" where
  "stailq_supports (InsertBefore h y x) = False"
| "stailq_supports (Replace h y x) = False"
| "stailq_supports _ = True"

section \<open>The list a head stands for\<close>

definition stailq :: "queue_mem \<Rightarrow> nat \<Rightarrow> addr list \<Rightarrow> bool" where
  "stailq m h xs \<longleftrightarrow> slist_at (w_ptr m) (Head h) xs \<and> w_link m (Head h) = Some (end_link (Head h) xs)"

definition stailq_ready :: "queue_mem \<Rightarrow> addr \<Rightarrow> bool" where
  "stailq_ready m x \<longleftrightarrow> w_ptr m (Elem x) \<noteq> None"

definition stailq_head_ready :: "queue_mem \<Rightarrow> nat \<Rightarrow> bool" where
  "stailq_head_ready m h \<longleftrightarrow> w_ptr m (Head h) \<noteq> None \<and> w_link m (Head h) \<noteq> None"

lemma stailq_distinct: "stailq m h xs \<Longrightarrow> distinct xs"
  by (auto simp: stailq_def dest: slist_at_distinct)

lemma stailq_frame:
  assumes "stailq m k zs" "touches C m m'" "Head k \<notin> C" "C \<inter> Elem ` set zs = {}"
  shows "stailq m' k zs"
proof -
  have "w_ptr m' c = w_ptr m c \<and> w_link m' c = w_link m c" if "c = Head k \<or> c \<in> Elem ` set zs" for c
    using assms(2-4) that by (auto simp: touches_def)
  then show ?thesis
    using assms(1) slist_at_frame[of "Head k" zs "w_ptr m'" "w_ptr m"] by (auto simp: stailq_def)
qed

lemma stailq_leads: "stailq m h xs \<Longrightarrow> leads (elm_next m) (first_of xs) xs"
  using leads_forward[of m "Head h" xs] by (simp add: stailq_def)

lemmas stailq_macros = STAILQ_FIRST_def STAILQ_EMPTY_def STAILQ_NEXT_def STAILQ_INIT_def
lemmas stailq_unfold = stailq_macros stailq_def slist_at_def touches_def structs_def stailq_ready_def

section \<open>What the macros do to the list\<close>

lemma STAILQ_INIT_ok:
  "stailq_head_ready m h \<Longrightarrow> \<exists>m'. STAILQ_INIT m h = Inr m' \<and> stailq m' h [] \<and> touches {Head h} m m'"
  by (auto simp: stailq_head_ready_def queue_simps stailq_unfold)

lemma STAILQ_INSERT_HEAD_ok:
  assumes "stailq m h xs" "x \<notin> set xs" "stailq_ready m x"
  shows "\<exists>m'. STAILQ_INSERT_HEAD m h (Some x) = Inr m' \<and> stailq m' h (x # xs) \<and>
    touches (structs h (insert x (set xs))) m m'"
  using assms stailq_distinct[OF assms(1)]
  by (cases xs) (auto simp: STAILQ_INSERT_HEAD_def queue_simps stailq_unfold)

lemma STAILQ_INSERT_TAIL_ok:
  assumes "stailq m h xs" "x \<notin> set xs" "stailq_ready m x"
  shows "\<exists>m'. STAILQ_INSERT_TAIL m h (Some x) = Inr m' \<and> stailq m' h (xs @ [x]) \<and>
    touches (structs h (insert x (set xs))) m m'"
  using assms stailq_distinct[OF assms(1)]
  by (cases xs rule: rev_cases) (auto simp: STAILQ_INSERT_TAIL_def queue_simps stailq_unfold)

lemma STAILQ_INSERT_AFTER_ok:
  assumes "stailq m h (us @ y # vs)" "x \<notin> set (us @ y # vs)" "stailq_ready m x"
  shows "\<exists>m'. STAILQ_INSERT_AFTER m h (Some y) (Some x) = Inr m' \<and> stailq m' h (us @ y # x # vs) \<and>
    touches (structs h (insert x (set (us @ y # vs)))) m m'"
  using assms stailq_distinct[OF assms(1)]
  by (cases vs) (auto simp: STAILQ_INSERT_AFTER_def queue_simps stailq_unfold)

lemma STAILQ_REMOVE_AFTER_ok:
  assumes "stailq m h (us @ w # y # vs)"
  shows "\<exists>m'. STAILQ_REMOVE_AFTER m h (Some w) = Inr m' \<and> stailq m' h (us @ w # vs) \<and>
    touches (structs h (set (us @ w # y # vs))) m m'"
  using assms stailq_distinct[OF assms(1)]
  by (cases vs) (auto simp: STAILQ_REMOVE_AFTER_def queue_simps stailq_unfold)

lemma STAILQ_REMOVE_HEAD_ok:
  assumes "stailq m h (y # vs)"
  shows "\<exists>m'. STAILQ_REMOVE_HEAD m h = Inr m' \<and> stailq m' h vs \<and> touches (structs h (set (y # vs))) m m'"
  using assms stailq_distinct[OF assms(1)]
  by (cases vs) (auto simp: STAILQ_REMOVE_HEAD_def queue_simps stailq_unfold)

lemma STAILQ_FIRST_ok: "stailq m h xs \<Longrightarrow> STAILQ_FIRST m h = Inr (first_of xs)"
  by (auto simp: stailq_def STAILQ_FIRST_def queue_simps dest: slist_at_first)

lemma STAILQ_REMOVE_ok:
  assumes "stailq m h (us @ y # vs)"
  shows "\<exists>m'. STAILQ_REMOVE m h (Some y) = Some (Inr m') \<and> stailq m' h (us @ vs) \<and>
    touches (structs h (set (us @ y # vs))) m m'"
proof (cases us rule: rev_cases)
  case Nil
  with assms STAILQ_REMOVE_HEAD_ok[of m h y vs] STAILQ_FIRST_ok[OF assms] show ?thesis
    by (simp add: STAILQ_REMOVE_def)
next
  case (snoc ws w)
  with assms have m: "stailq m h (ws @ w # y # vs)" by simp
  have d: "distinct (ws @ w # y # vs)" using m by (rule stailq_distinct)
  have "walk_before m (first_of (ws @ w # y # vs)) (Some y) = Some (Inr (Some w))"
    using d by (intro walk_before_elem[OF stailq_leads[OF m]]) auto
  moreover have "first_of (ws @ w # y # vs) \<noteq> Some y" using d by (cases ws) auto
  ultimately show ?thesis
    using STAILQ_FIRST_ok[OF m] STAILQ_REMOVE_AFTER_ok[OF m] snoc by (simp add: STAILQ_REMOVE_def)
qed

lemma STAILQ_CONCAT_ok:
  assumes "stailq m h xs" "stailq m k ys" "h \<noteq> k" "set xs \<inter> set ys = {}"
  shows "\<exists>m'. STAILQ_CONCAT m h k = Inr m' \<and> stailq m' h (xs @ ys) \<and> stailq m' k [] \<and>
    touches (structs h (set xs) \<union> structs k (set ys)) m m'"
  using assms stailq_distinct[OF assms(1)] stailq_distinct[OF assms(2)]
  by (cases xs rule: rev_cases; cases ys) (auto simp: STAILQ_CONCAT_def queue_simps stailq_unfold)

lemma STAILQ_SPLIT_AFTER_ok:
  assumes "stailq m h (us @ y # vs)" "stailq m k zs" "h \<noteq> k"
  shows "\<exists>m'. STAILQ_SPLIT_AFTER m h (Some y) k = Inr m' \<and> stailq m' h (us @ [y]) \<and> stailq m' k vs \<and>
    touches (structs h (set (us @ y # vs)) \<union> structs k (set zs)) m m'"
proof -
  have "\<exists>q. w_ptr m (Head k) = Some q" using assms(2) slist_at_first by (auto simp: stailq_def)
  then show ?thesis
    using assms stailq_distinct[OF assms(1)]
    by (cases vs) (auto simp: STAILQ_SPLIT_AFTER_def queue_simps stailq_unfold)
qed

lemma STAILQ_SWAP_ok:
  assumes "stailq m h xs" "stailq m k ys" "h \<noteq> k" "set xs \<inter> set ys = {}"
  shows "\<exists>m'. STAILQ_SWAP m h k = Inr m' \<and> stailq m' h ys \<and> stailq m' k xs \<and>
    touches (structs h (set xs) \<union> structs k (set ys)) m m'"
  using assms stailq_distinct[OF assms(1)] stailq_distinct[OF assms(2)]
  by (cases xs; cases ys) (auto simp: STAILQ_SWAP_def stailq_rehome_def queue_simps stailq_unfold)

text \<open>The loop of \<open>STAILQ_REVERSE\<close> moves one element after the other to the front of what it has.\<close>

lemma reverse_loop_ok:
  assumes "leads (elm_next m) var xs" "leads (elm_next m) varp acc" "distinct xs" "set xs \<inter> set acc = {}"
  shows "\<exists>m' p. reverse_loop m var varp = Some (Inr (m', p)) \<and> leads (elm_next m') p (rev xs @ acc) \<and>
    touches (Elem ` set xs) m m' \<and> w_link m' = w_link m"
  using assms
proof (induction xs arbitrary: m var varp acc)
  case Nil
  then show ?case by (subst reverse_loop.simps) (simp add: touches_refl)
next
  case (Cons x xs)
  then obtain q where q: "var = Some x" "w_ptr m (Elem x) = Some q" "leads (elm_next m) q xs"
    by (auto simp: elm_next_word)
  let ?m1 = "m\<lparr>w_ptr := (w_ptr m)(Elem x \<mapsto> varp)\<rparr>"
  have "leads (elm_next ?m1) q xs" "leads (elm_next ?m1) (Some x) (x # acc)"
    using q Cons.prems by (simp_all add: leads_upd) (simp add: elm_next_word)
  from Cons.IH[OF this] Cons.prems(3,4) obtain m' p where m':
    "reverse_loop ?m1 q (Some x) = Some (Inr (m', p))" "leads (elm_next m') p (rev xs @ x # acc)"
    "touches (Elem ` set xs) ?m1 m'" "w_link m' = w_link m" by auto
  have "reverse_loop m var varp = reverse_loop ?m1 q (Some x)"
    using q by (subst reverse_loop.simps) (simp add: STAILQ_NEXT_def queue_simps)
  moreover have "touches (Elem ` set (x # xs)) m m'"
    by (rule touches_trans[OF touches_ptr[of m "Elem x"] touches_mono[OF m'(3)]]) (use q in auto)
  ultimately show ?case using m' by simp
qed

lemma STAILQ_REVERSE_ok:
  assumes "stailq m h xs"
  shows "\<exists>m'. STAILQ_REVERSE m h = Some (Inr m') \<and> stailq m' h (rev xs) \<and>
    touches (structs h (set xs)) m m'"
proof (cases xs)
  case Nil
  with assms STAILQ_FIRST_ok[OF assms] show ?thesis by (simp add: STAILQ_REVERSE_def touches_refl)
next
  case (Cons x ys)
  obtain m1 p where m1: "reverse_loop m (first_of xs) None = Some (Inr (m1, p))"
    "leads (elm_next m1) p (rev xs)" "touches (Elem ` set xs) m m1" "w_link m1 = w_link m"
    using reverse_loop_ok[OF stailq_leads[OF assms], of None "[]"] stailq_distinct[OF assms] by auto
  have "w_ptr m1 (Head h) = w_ptr m (Head h)"
    using m1(3) unfolding touches_def by blast
  then have h: "w_ptr m1 (Head h) = Some (Some x)" "w_link m1 (Head h) \<noteq> None"
    using m1(4) assms Cons by (auto simp: stailq_def slist_at_def)
  let ?m2 = "m1\<lparr>w_link := (w_link m1)(Head h \<mapsto> Elem x), w_ptr := (w_ptr m1)(Head h \<mapsto> p)\<rparr>"
  have "slist_at (w_ptr ?m2) (Head h) (rev xs)"
  proof -
    have "leads (elm_next ?m2) q zs = leads (elm_next m1) q zs" for q zs
      by (induction zs arbitrary: q) (auto simp: elm_next_word)
    with m1(2) show ?thesis unfolding slist_at_leads by simp
  qed
  then have "stailq ?m2 h (rev xs)" using Cons by (simp add: stailq_def end_link_def)
  moreover have "touches (structs h (set xs)) m ?m2"
    using m1(3) h by (auto simp: touches_def structs_def)
  ultimately show ?thesis
    using Cons m1(1) h STAILQ_FIRST_ok[OF assms]
    by (auto simp: STAILQ_REVERSE_def STAILQ_FIRST_def queue_simps)
qed

section \<open>Looking at a list\<close>

lemma STAILQ_EMPTY_ok: "stailq m h xs \<Longrightarrow> STAILQ_EMPTY m h = Inr (xs = [])"
  by (simp add: STAILQ_EMPTY_def STAILQ_FIRST_ok)

lemma STAILQ_LAST_ok: "stailq m h xs \<Longrightarrow> STAILQ_LAST m h = Inr (last_of xs)"
  using STAILQ_EMPTY_ok[of m h xs]
  by (cases xs rule: rev_cases) (auto simp: STAILQ_LAST_def container_of_def stailq_def queue_simps)

lemma STAILQ_NEXT_fun: "STAILQ_NEXT = elm_next"
  by (intro ext) (simp add: STAILQ_NEXT_def)

lemma STAILQ_FOREACH_ok:
  assumes "stailq m h xs"
  shows "STAILQ_FOREACH fst note_elem (m, []) h = Some (Inr (m, xs))"
    and "STAILQ_FOREACH_SAFE fst note_elem (m, []) h = Some (Inr (m, xs))"
  by (simp_all add: STAILQ_FOREACH_def STAILQ_FOREACH_SAFE_def STAILQ_FIRST_ok[OF assms] STAILQ_NEXT_fun
      for_loop_visits[where step = elm_next, OF stailq_leads[OF assms]]
      for_loop_safe_visits[where step = elm_next, OF stailq_leads[OF assms]])

lemma STAILQ_FROM_ok:
  assumes "stailq m h (us @ y # vs)"
  shows "STAILQ_FOREACH_FROM fst note_elem (m, []) (Some y) h = Some (Inr (m, y # vs))"
    and "STAILQ_FOREACH_FROM_SAFE fst note_elem (m, []) (Some y) h = Some (Inr (m, y # vs))"
proof -
  have "leads (STAILQ_NEXT m) (Some y) (y # vs)"
    using leads_from[OF stailq_leads[OF assms]] by (simp add: STAILQ_NEXT_fun)
  from for_loop_visits[where step = STAILQ_NEXT and ys = "[]", OF this] for_loop_safe_visits[where step = STAILQ_NEXT and ys = "[]", OF this]
  show "STAILQ_FOREACH_FROM fst note_elem (m, []) (Some y) h = Some (Inr (m, y # vs))"
    "STAILQ_FOREACH_FROM_SAFE fst note_elem (m, []) (Some y) h = Some (Inr (m, y # vs))"
    by (simp_all add: STAILQ_FOREACH_FROM_def STAILQ_FOREACH_FROM_SAFE_def)
qed

section \<open>Programs of singly-linked tail queue macros\<close>

lemma stailq_edit:
  assumes "stailq_supports p" "stailq m (op_head p) xs" "list_edit p xs = Some ys"
    "\<forall>x \<in> set (op_adds p). x \<notin> set xs \<and> stailq_ready m x"
  shows "\<exists>m'. stailq_run p m = Some (Inr m') \<and> stailq m' (op_head p) ys \<and>
    touches (structs (op_head p) (set xs \<union> set (op_adds p))) m m'"
proof (cases p)
  case (Init h)
  have "touches {Head h} m m' \<Longrightarrow> touches (structs h (set xs)) m m'" for m'
    by (erule touches_mono) (simp add: structs_def)
  with Init assms STAILQ_INIT_ok[of m h] slist_at_first[of "w_ptr m" "Head h" xs] show ?thesis
    by (auto simp: stailq_def stailq_head_ready_def)
next
  case (InsertHead h x)
  with assms show ?thesis using STAILQ_INSERT_HEAD_ok[of m h xs x] by simp
next
  case (InsertTail h x)
  with assms show ?thesis using STAILQ_INSERT_TAIL_ok[of m h xs x] by simp
next
  case (InsertAfter h y x)
  with assms show ?thesis using STAILQ_INSERT_AFTER_ok[of m h _ y _ x]
    by (auto split: if_splits elim!: elem_split)
next
  case (Remove h y)
  with assms show ?thesis using STAILQ_REMOVE_ok[of m h _ y]
    by (auto split: if_splits elim!: elem_split)
next
  case (RemoveHead h)
  with assms show ?thesis using STAILQ_REMOVE_HEAD_ok[of m h] by (cases xs) auto
next
  case (RemoveAfter h y)
  then obtain us z vs where "xs = us @ y # z # vs" "ys = us @ y # vs"
    using assms(3) by (auto split: if_splits elim!: elem_split simp: neq_Nil_conv)
  with RemoveAfter assms(2) show ?thesis using STAILQ_REMOVE_AFTER_ok[of m h us y z vs] by simp
next
  case (Reverse h)
  with assms show ?thesis using STAILQ_REVERSE_ok[of m h xs] by simp
qed (use assms in auto)

interpretation stailqs: list_macros stailq stailq_ready stailq_run stailq_supports stailq_head_ready
proof unfold_locales
  fix m k zs C m'
  show "stailq m k zs \<Longrightarrow> touches C m m' \<Longrightarrow> Head k \<notin> C \<Longrightarrow> C \<inter> Elem ` set zs = {} \<Longrightarrow> stailq m' k zs"
    by (rule stailq_frame)
  show "touches C m m' \<Longrightarrow> stailq_ready m' x = stailq_ready m x" for x
    by (auto simp: touches_def stailq_ready_def)
  show "touches C m m' \<Longrightarrow> stailq_head_ready m' h = stailq_head_ready m h" for h
    by (auto simp: touches_def stailq_head_ready_def)
qed (simp_all add: stailq_edit STAILQ_INIT_ok STAILQ_CONCAT_ok STAILQ_SWAP_ok stailq_distinct
    STAILQ_SPLIT_AFTER_ok[simplified])

section \<open>Properties of the singly-linked tail queue macros\<close>

text \<open>
  C27. Any program that initialises the heads of its singly-linked tail queues and then uses the
  STAILQ macros, \<open>STAILQ_REMOVE\<close> and \<open>STAILQ_REVERSE\<close> with their loops included, on elements where
  they may be used ends without touching a word that is not there, and leaves every head with the
  list the operations make on abstract lists, the one \<open>STAILQ_FOREACH\<close> visits, with the right
  last element.
\<close>

theorem stail_queue_programs:
  assumes "\<forall>h < n. stailq_head_ready m h" "\<forall>x < e. stailq_ready m x"
    and "list_all stailq_supports ps" "list_ops e ps (replicate n []) = Some L"
  shows "\<exists>m'. run_ops stailq_run (map Init [0..<n] @ ps) m = Some (Inr m') \<and>
    (\<forall>h < n. STAILQ_FOREACH fst note_elem (m', []) h = Some (Inr (m', L ! h)) \<and>
      STAILQ_LAST m' h = Inr (last_of (L ! h)))"
  using stailqs.program_ok[OF assms(1,2,4,3)] STAILQ_FOREACH_ok(1) STAILQ_LAST_ok by blast

definition demo_sops :: "qop list" where
  "demo_sops =
     [InsertTail 0 0, InsertTail 0 1, InsertHead 0 2, InsertAfter 0 0 3, InsertTail 1 4, Concat 0 1,
      Reverse 0, Remove 0 2, SplitAfter 0 3 1, RemoveAfter 0 1]"

theorem stail_queue_programs_witness:
  "\<exists>m'. run_ops stailq_run (map Init [0..<2] @ demo_sops) (arena 2 5) = Some (Inr m') \<and>
     STAILQ_FOREACH fst note_elem (m', []) 0 = Some (Inr (m', [4, 1])) \<and>
     STAILQ_FOREACH fst note_elem (m', []) 1 = Some (Inr (m', [0])) \<and> STAILQ_LAST m' 0 = Inr (Some 1)"
proof -
  have "list_all stailq_supports demo_sops" by (simp add: demo_sops_def)
  moreover have "list_ops 5 demo_sops (replicate 2 []) = Some [[4, 1], [0]]"
    by (simp add: demo_sops_def new_elem_def before_elem_def after_elem_def numeral_2_eq_2)
  moreover have "\<forall>h < 2. stailq_head_ready (arena 2 5) h" "\<forall>x < 5. stailq_ready (arena 2 5) x"
    by (simp_all add: arena_def Let_def stailq_head_ready_def stailq_ready_def)
  ultimately obtain m' where m': "run_ops stailq_run (map Init [0..<2] @ demo_sops) (arena 2 5) = Some (Inr m')"
    "\<forall>h < 2. STAILQ_FOREACH fst note_elem (m', []) h = Some (Inr (m', [[4, 1], [0]] ! h)) \<and>
      STAILQ_LAST m' h = Inr (last_of ([[4, 1], [0]] ! h))"
    using stail_queue_programs[of 2 "arena 2 5" 5 demo_sops "[[4, 1], [0]]"] by blast
  from m'(2) have "STAILQ_FOREACH fst note_elem (m', []) 0 = Some (Inr (m', [4, 1]))"
    "STAILQ_FOREACH fst note_elem (m', []) 1 = Some (Inr (m', [0]))" "STAILQ_LAST m' 0 = Inr (Some 1)"
    by (auto simp: last_of_def dest: spec[of _ 0] spec[of _ 1])
  with m'(1) show ?thesis by blast
qed

end
