(* ===== verification/Linked_List.thy ===== *)
theory Linked_List
  imports Queue_Lists
begin

text \<open>
  The doubly-linked lists of \<^verbatim>\<open>server/queue.h\<close>: the LIST macros in the build without the debug
  options. A head is one pointer; an entry has the next element and the address of the pointer
  that points to it, so an element leaves its list without its head. \<open>LIST_CONCAT\<close> walks the
  first list; its result is \<open>None\<close> where it would not return.
\<close>

section \<open>The macros\<close>

definition LIST_FIRST :: "queue_mem \<Rightarrow> nat \<Rightarrow> fault + ptr" where
  "LIST_FIRST m h = load_ptr m (Head h)"

definition LIST_EMPTY :: "queue_mem \<Rightarrow> nat \<Rightarrow> fault + bool" where
  "LIST_EMPTY m h = bindE (LIST_FIRST m h) (\<lambda>p. Inr (p = None))"

definition LIST_NEXT :: "queue_mem \<Rightarrow> ptr \<Rightarrow> fault + ptr" where
  "LIST_NEXT m elm = elm_next m elm"

definition LIST_PREV :: "queue_mem \<Rightarrow> ptr \<Rightarrow> nat \<Rightarrow> fault + ptr" where
  "LIST_PREV m elm h =
     bindE (elm_prev m elm) (\<lambda>l. if l = Head h then Inr None else container_of l)"

definition LIST_INIT :: "queue_mem \<Rightarrow> nat \<Rightarrow> fault + queue_mem" where
  "LIST_INIT m h = store_ptr m (Head h) None"

definition LIST_INSERT_AFTER :: "queue_mem \<Rightarrow> ptr \<Rightarrow> ptr \<Rightarrow> fault + queue_mem" where
  "LIST_INSERT_AFTER m listelm elm =
     bindE (LIST_NEXT m listelm) (\<lambda>n.
     bindE (set_elm_next m elm n) (\<lambda>m1.
     bindE (entry_of elm) (\<lambda>e.
     bindE (if n \<noteq> None then bindE (LIST_NEXT m1 listelm) (\<lambda>n1. set_elm_prev m1 n1 e) else Inr m1) (\<lambda>m2.
     bindE (set_elm_next m2 listelm elm) (\<lambda>m3.
     bindE (entry_of listelm) (\<lambda>le. set_elm_prev m3 elm le))))))"

definition LIST_INSERT_BEFORE :: "queue_mem \<Rightarrow> ptr \<Rightarrow> ptr \<Rightarrow> fault + queue_mem" where
  "LIST_INSERT_BEFORE m listelm elm =
     bindE (elm_prev m listelm) (\<lambda>l.
     bindE (set_elm_prev m elm l) (\<lambda>m1.
     bindE (set_elm_next m1 elm listelm) (\<lambda>m2.
     bindE (elm_prev m2 listelm) (\<lambda>l2.
     bindE (store_ptr m2 l2 elm) (\<lambda>m3.
     bindE (entry_of elm) (\<lambda>e. set_elm_prev m3 listelm e))))))"

definition LIST_INSERT_HEAD :: "queue_mem \<Rightarrow> nat \<Rightarrow> ptr \<Rightarrow> fault + queue_mem" where
  "LIST_INSERT_HEAD m h elm =
     bindE (LIST_FIRST m h) (\<lambda>f.
     bindE (set_elm_next m elm f) (\<lambda>m1.
     bindE (entry_of elm) (\<lambda>e.
     bindE (if f \<noteq> None then bindE (LIST_FIRST m1 h) (\<lambda>f1. set_elm_prev m1 f1 e) else Inr m1) (\<lambda>m2.
     bindE (store_ptr m2 (Head h) elm) (\<lambda>m3. set_elm_prev m3 elm (Head h))))))"

definition LIST_REMOVE :: "queue_mem \<Rightarrow> ptr \<Rightarrow> fault + queue_mem" where
  "LIST_REMOVE m elm =
     bindE (LIST_NEXT m elm) (\<lambda>n.
     bindE (elm_prev m elm) (\<lambda>l.
     bindE (if n \<noteq> None then set_elm_prev m n l else Inr m) (\<lambda>m1.
     bindE (elm_prev m1 elm) (\<lambda>l1.
     bindE (LIST_NEXT m1 elm) (\<lambda>n1. store_ptr m1 l1 n1)))))"

definition LIST_REMOVE_HEAD :: "queue_mem \<Rightarrow> nat \<Rightarrow> fault + queue_mem" where
  "LIST_REMOVE_HEAD m h = bindE (LIST_FIRST m h) (LIST_REMOVE m)"

definition LIST_REPLACE :: "queue_mem \<Rightarrow> ptr \<Rightarrow> ptr \<Rightarrow> fault + queue_mem" where
  "LIST_REPLACE m elm elm2 =
     bindE (LIST_NEXT m elm) (\<lambda>n.
     bindE (set_elm_next m elm2 n) (\<lambda>m1.
     bindE (LIST_NEXT m1 elm2) (\<lambda>n2.
     bindE (entry_of elm2) (\<lambda>e2.
     bindE (if n2 \<noteq> None then set_elm_prev m1 n2 e2 else Inr m1) (\<lambda>m2.
     bindE (elm_prev m2 elm) (\<lambda>l.
     bindE (set_elm_prev m2 elm2 l) (\<lambda>m3.
     bindE (elm_prev m3 elm2) (\<lambda>l3. store_ptr m3 l3 elm2))))))))"

definition LIST_CONCAT :: "queue_mem \<Rightarrow> nat \<Rightarrow> nat \<Rightarrow> (fault + queue_mem) option" where
  "LIST_CONCAT m h1 h2 =
     (case bindE (LIST_FIRST m h1) (\<lambda>c. bindE (LIST_FIRST m h2) (\<lambda>f. Inr (c, f))) of
        Inl err \<Rightarrow> Some (Inl err)
      | Inr (curelm, first2) \<Rightarrow>
          if curelm = None
          then Some (
            bindE (store_ptr m (Head h1) first2) (\<lambda>m1.
            if first2 \<noteq> None
            then bindE (LIST_FIRST m1 h2) (\<lambda>f. bindE (set_elm_prev m1 f (Head h1)) (\<lambda>m2. LIST_INIT m2 h2))
            else Inr m1))
          else if first2 \<noteq> None
          then Option.bind (walk_before m curelm None) (\<lambda>r. Some (
            bindE r (\<lambda>cur.
            bindE (set_elm_next m cur first2) (\<lambda>m1.
            bindE (LIST_FIRST m1 h2) (\<lambda>f.
            bindE (entry_of cur) (\<lambda>e.
            bindE (set_elm_prev m1 f e) (\<lambda>m2. LIST_INIT m2 h2)))))))
          else Some (Inr m))"

definition LIST_SPLIT_AFTER :: "queue_mem \<Rightarrow> nat \<Rightarrow> ptr \<Rightarrow> nat \<Rightarrow> fault + queue_mem" where
  "LIST_SPLIT_AFTER m h elm rest =
     bindE (LIST_NEXT m elm) (\<lambda>n.
       if n = None then LIST_INIT m rest
       else
         bindE (store_ptr m (Head rest) n) (\<lambda>m1.
         bindE (LIST_NEXT m1 elm) (\<lambda>n1.
         bindE (set_elm_prev m1 n1 (Head rest)) (\<lambda>m2. set_elm_next m2 elm None))))"

text \<open>What \<open>LIST_SWAP\<close> does to one head after the exchange of the pointers.\<close>

definition list_rehome :: "queue_mem \<Rightarrow> nat \<Rightarrow> fault + queue_mem" where
  "list_rehome m h =
     bindE (LIST_FIRST m h) (\<lambda>f. if f \<noteq> None then set_elm_prev m f (Head h) else Inr m)"

definition LIST_SWAP :: "queue_mem \<Rightarrow> nat \<Rightarrow> nat \<Rightarrow> fault + queue_mem" where
  "LIST_SWAP m h1 h2 =
     bindE (LIST_FIRST m h1) (\<lambda>swap_tmp.
     bindE (LIST_FIRST m h2) (\<lambda>f2.
     bindE (store_ptr m (Head h1) f2) (\<lambda>m1.
     bindE (store_ptr m1 (Head h2) swap_tmp) (\<lambda>m2.
     bindE (list_rehome m2 h1) (\<lambda>m3. list_rehome m3 h2)))))"

definition LIST_FOREACH ::
  "('s \<Rightarrow> queue_mem) \<Rightarrow> ('s \<Rightarrow> addr \<Rightarrow> (fault + 's) option) \<Rightarrow> 's \<Rightarrow> nat \<Rightarrow> (fault + 's) option" where
  "LIST_FOREACH m_of body s h =
     for_from (for_loop (\<lambda>s. LIST_NEXT (m_of s)) body s) (LIST_FIRST (m_of s) h)"

definition LIST_FOREACH_SAFE ::
  "('s \<Rightarrow> queue_mem) \<Rightarrow> ('s \<Rightarrow> addr \<Rightarrow> (fault + 's) option) \<Rightarrow> 's \<Rightarrow> nat \<Rightarrow> (fault + 's) option" where
  "LIST_FOREACH_SAFE m_of body s h =
     for_from (for_loop_safe (\<lambda>s. LIST_NEXT (m_of s)) body s) (LIST_FIRST (m_of s) h)"

definition LIST_FOREACH_FROM ::
  "('s \<Rightarrow> queue_mem) \<Rightarrow> ('s \<Rightarrow> addr \<Rightarrow> (fault + 's) option) \<Rightarrow> 's \<Rightarrow> ptr \<Rightarrow> nat \<Rightarrow> (fault + 's) option" where
  "LIST_FOREACH_FROM m_of body s var h =
     for_from (for_loop (\<lambda>s. LIST_NEXT (m_of s)) body s) (start_from var (LIST_FIRST (m_of s) h))"

definition LIST_FOREACH_FROM_SAFE ::
  "('s \<Rightarrow> queue_mem) \<Rightarrow> ('s \<Rightarrow> addr \<Rightarrow> (fault + 's) option) \<Rightarrow> 's \<Rightarrow> ptr \<Rightarrow> nat \<Rightarrow> (fault + 's) option" where
  "LIST_FOREACH_FROM_SAFE m_of body s var h =
     for_from (for_loop_safe (\<lambda>s. LIST_NEXT (m_of s)) body s) (start_from var (LIST_FIRST (m_of s) h))"

text \<open>The macros by the operation they carry out; a list has no tail operations.\<close>

fun list_run :: "qop \<Rightarrow> queue_mem \<Rightarrow> (fault + queue_mem) option" where
  "list_run (Init h) m = Some (LIST_INIT m h)"
| "list_run (InsertHead h x) m = Some (LIST_INSERT_HEAD m h (Some x))"
| "list_run (InsertTail h x) m = None"
| "list_run (InsertAfter h y x) m = Some (LIST_INSERT_AFTER m (Some y) (Some x))"
| "list_run (InsertBefore h y x) m = Some (LIST_INSERT_BEFORE m (Some y) (Some x))"
| "list_run (Remove h y) m = Some (LIST_REMOVE m (Some y))"
| "list_run (RemoveHead h) m = Some (LIST_REMOVE_HEAD m h)"
| "list_run (RemoveAfter h y) m = None"
| "list_run (Replace h y x) m = Some (LIST_REPLACE m (Some y) (Some x))"
| "list_run (Concat h k) m = LIST_CONCAT m h k"
| "list_run (SplitAfter h y k) m = Some (LIST_SPLIT_AFTER m h (Some y) k)"
| "list_run (Swap h k) m = Some (LIST_SWAP m h k)"
| "list_run (Reverse h) m = None"

fun list_supports :: "qop \<Rightarrow> bool" where
  "list_supports (InsertTail h x) = False"
| "list_supports (RemoveAfter h y) = False"
| "list_supports (Reverse h) = False"
| "list_supports _ = True"

section \<open>The list a head stands for\<close>

definition linked :: "queue_mem \<Rightarrow> nat \<Rightarrow> addr list \<Rightarrow> bool" where
  "linked m h xs \<longleftrightarrow> slist_at (w_ptr m) (Head h) xs \<and> points_back (w_link m) (Head h) xs"

definition list_head_ready :: "queue_mem \<Rightarrow> nat \<Rightarrow> bool" where
  "list_head_ready m h \<longleftrightarrow> w_ptr m (Head h) \<noteq> None"

lemma linked_distinct: "linked m h xs \<Longrightarrow> distinct xs"
  by (auto simp: linked_def dest: slist_at_distinct)

lemma linked_frame:
  assumes "linked m k zs" "touches C m m'" "Head k \<notin> C" "C \<inter> Elem ` set zs = {}"
  shows "linked m' k zs"
proof -
  have "w_ptr m' c = w_ptr m c \<and> w_link m' c = w_link m c" if "c = Head k \<or> c \<in> Elem ` set zs" for c
    using assms(2-4) that by (auto simp: touches_def)
  then show ?thesis
    using assms(1) slist_at_frame[of "Head k" zs "w_ptr m'" "w_ptr m"] points_back_cong[of zs "w_link m'" "w_link m"]
    by (auto simp: linked_def)
qed

lemma linked_leads: "linked m h xs \<Longrightarrow> leads (elm_next m) (first_of xs) xs"
  using leads_forward[of m "Head h" xs] by (simp add: linked_def)

lemmas list_macros_unfold = LIST_FIRST_def LIST_EMPTY_def LIST_NEXT_def LIST_INIT_def
lemmas linked_unfold = list_macros_unfold linked_def slist_at_def touches_def structs_def elem_ready_def

section \<open>What the macros do to the list\<close>

lemma LIST_INIT_ok:
  "list_head_ready m h \<Longrightarrow> \<exists>m'. LIST_INIT m h = Inr m' \<and> linked m' h [] \<and> touches {Head h} m m'"
  by (auto simp: list_head_ready_def queue_simps linked_unfold)

lemma LIST_INSERT_HEAD_ok:
  assumes "linked m h xs" "x \<notin> set xs" "elem_ready m x"
  shows "\<exists>m'. LIST_INSERT_HEAD m h (Some x) = Inr m' \<and> linked m' h (x # xs) \<and>
    touches (structs h (insert x (set xs))) m m'"
  using assms linked_distinct[OF assms(1)]
  by (cases xs) (auto simp: LIST_INSERT_HEAD_def queue_simps linked_unfold)

lemma LIST_INSERT_AFTER_ok:
  assumes "linked m h (us @ y # vs)" "x \<notin> set (us @ y # vs)" "elem_ready m x"
  shows "\<exists>m'. LIST_INSERT_AFTER m (Some y) (Some x) = Inr m' \<and> linked m' h (us @ y # x # vs) \<and>
    touches (structs h (insert x (set (us @ y # vs)))) m m'"
  using assms linked_distinct[OF assms(1)]
  by (cases vs) (auto simp: LIST_INSERT_AFTER_def queue_simps linked_unfold)

lemma LIST_INSERT_BEFORE_ok:
  assumes "linked m h (us @ y # vs)" "x \<notin> set (us @ y # vs)" "elem_ready m x"
  shows "\<exists>m'. LIST_INSERT_BEFORE m (Some y) (Some x) = Inr m' \<and> linked m' h (us @ x # y # vs) \<and>
    touches (structs h (insert x (set (us @ y # vs)))) m m'"
  using assms linked_distinct[OF assms(1)]
  by (cases us rule: rev_cases) (auto simp: LIST_INSERT_BEFORE_def queue_simps linked_unfold)

lemma LIST_REMOVE_ok:
  assumes "linked m h (us @ y # vs)"
  shows "\<exists>m'. LIST_REMOVE m (Some y) = Inr m' \<and> linked m' h (us @ vs) \<and>
    touches (structs h (set (us @ y # vs))) m m'"
  using assms linked_distinct[OF assms(1)]
  by (cases us rule: rev_cases; cases vs) (auto simp: LIST_REMOVE_def queue_simps linked_unfold)

lemma LIST_FIRST_ok: "linked m h xs \<Longrightarrow> LIST_FIRST m h = Inr (first_of xs)"
  by (auto simp: linked_def LIST_FIRST_def queue_simps dest: slist_at_first)

lemma LIST_REMOVE_HEAD_ok:
  assumes "linked m h (y # vs)"
  shows "\<exists>m'. LIST_REMOVE_HEAD m h = Inr m' \<and> linked m' h vs \<and> touches (structs h (set (y # vs))) m m'"
  using LIST_REMOVE_ok[of m h "[]" y vs] assms LIST_FIRST_ok[OF assms] by (simp add: LIST_REMOVE_HEAD_def)

lemma LIST_REPLACE_ok:
  assumes "linked m h (us @ y # vs)" "x \<notin> set (us @ y # vs)" "elem_ready m x"
  shows "\<exists>m'. LIST_REPLACE m (Some y) (Some x) = Inr m' \<and> linked m' h (us @ x # vs) \<and>
    touches (structs h (insert x (set (us @ y # vs)))) m m'"
  using assms linked_distinct[OF assms(1)]
  by (cases us rule: rev_cases; cases vs) (auto simp: LIST_REPLACE_def queue_simps linked_unfold)

lemma LIST_SPLIT_AFTER_ok:
  assumes "linked m h (us @ y # vs)" "linked m k zs" "h \<noteq> k"
  shows "\<exists>m'. LIST_SPLIT_AFTER m h (Some y) k = Inr m' \<and> linked m' h (us @ [y]) \<and> linked m' k vs \<and>
    touches (structs h (set (us @ y # vs)) \<union> structs k (set zs)) m m'"
proof -
  have "\<exists>q. w_ptr m (Head k) = Some q" using assms(2) slist_at_first by (auto simp: linked_def)
  then show ?thesis
    using assms linked_distinct[OF assms(1)]
    by (cases vs) (auto simp: LIST_SPLIT_AFTER_def queue_simps linked_unfold)
qed

lemma LIST_SWAP_ok:
  assumes "linked m h xs" "linked m k ys" "h \<noteq> k" "set xs \<inter> set ys = {}"
  shows "\<exists>m'. LIST_SWAP m h k = Inr m' \<and> linked m' h ys \<and> linked m' k xs \<and>
    touches (structs h (set xs) \<union> structs k (set ys)) m m'"
  using assms linked_distinct[OF assms(1)] linked_distinct[OF assms(2)]
  by (cases xs; cases ys) (auto simp: LIST_SWAP_def list_rehome_def queue_simps linked_unfold)

lemma LIST_CONCAT_ok:
  assumes "linked m h xs" "linked m k ys" "h \<noteq> k" "set xs \<inter> set ys = {}"
  shows "\<exists>m'. LIST_CONCAT m h k = Some (Inr m') \<and> linked m' h (xs @ ys) \<and> linked m' k [] \<and>
    touches (structs h (set xs) \<union> structs k (set ys)) m m'"
proof (cases xs rule: rev_cases)
  case Nil
  then show ?thesis
    using assms linked_distinct[OF assms(2)] LIST_FIRST_ok[OF assms(1)] LIST_FIRST_ok[OF assms(2)]
    by (cases ys) (auto simp: LIST_CONCAT_def queue_simps linked_unfold)
next
  case (snoc ws w)
  then obtain c where c: "first_of xs = Some c" by (cases "first_of xs") simp_all
  show ?thesis
  proof (cases ys)
    case Nil
    with c show ?thesis
      using assms LIST_FIRST_ok[OF assms(1)] LIST_FIRST_ok[OF assms(2)]
      by (auto simp: LIST_CONCAT_def touches_refl)
  next
    case (Cons y zs)
    have "walk_before m (first_of xs) None = Some (Inr (Some w))"
      using linked_leads[OF assms(1)] walk_before_end snoc by metis
    then have "LIST_CONCAT m h k = Some (
        bindE (set_elm_next m (Some w) (Some y)) (\<lambda>m1.
        bindE (LIST_FIRST m1 k) (\<lambda>f. bindE (set_elm_prev m1 f (Elem w)) (\<lambda>m2. LIST_INIT m2 k))))"
      using c LIST_FIRST_ok[OF assms(1)] LIST_FIRST_ok[OF assms(2)] Cons
      by (simp add: LIST_CONCAT_def queue_simps)
    then show ?thesis
      using assms linked_distinct[OF assms(1)] linked_distinct[OF assms(2)] snoc Cons
      by (auto simp: queue_simps linked_unfold)
  qed
qed

section \<open>Looking at a list\<close>

lemma LIST_EMPTY_ok: "linked m h xs \<Longrightarrow> LIST_EMPTY m h = Inr (xs = [])"
  by (simp add: LIST_EMPTY_def LIST_FIRST_ok)

lemma LIST_PREV_ok: "linked m h (us @ y # vs) \<Longrightarrow> LIST_PREV m (Some y) h = Inr (last_of us)"
  by (cases us rule: rev_cases) (auto simp: LIST_PREV_def container_of_def linked_def queue_simps)

lemma LIST_NEXT_fun: "LIST_NEXT = elm_next"
  by (intro ext) (simp add: LIST_NEXT_def)

lemma LIST_FOREACH_ok:
  assumes "linked m h xs"
  shows "LIST_FOREACH fst note_elem (m, []) h = Some (Inr (m, xs))"
    and "LIST_FOREACH_SAFE fst note_elem (m, []) h = Some (Inr (m, xs))"
  by (simp_all add: LIST_FOREACH_def LIST_FOREACH_SAFE_def LIST_FIRST_ok[OF assms] LIST_NEXT_fun
      for_loop_visits[where step = elm_next, OF linked_leads[OF assms]]
      for_loop_safe_visits[where step = elm_next, OF linked_leads[OF assms]])

lemma LIST_FROM_ok:
  assumes "linked m h (us @ y # vs)"
  shows "LIST_FOREACH_FROM fst note_elem (m, []) (Some y) h = Some (Inr (m, y # vs))"
    and "LIST_FOREACH_FROM_SAFE fst note_elem (m, []) (Some y) h = Some (Inr (m, y # vs))"
proof -
  have "leads (LIST_NEXT m) (Some y) (y # vs)"
    using leads_from[OF linked_leads[OF assms]] by (simp add: LIST_NEXT_fun)
  from for_loop_visits[where step = LIST_NEXT and ys = "[]", OF this] for_loop_safe_visits[where step = LIST_NEXT and ys = "[]", OF this]
  show "LIST_FOREACH_FROM fst note_elem (m, []) (Some y) h = Some (Inr (m, y # vs))"
    "LIST_FOREACH_FROM_SAFE fst note_elem (m, []) (Some y) h = Some (Inr (m, y # vs))"
    by (simp_all add: LIST_FOREACH_FROM_def LIST_FOREACH_FROM_SAFE_def)
qed

section \<open>Programs of list macros\<close>

lemma linked_edit:
  assumes "list_supports p" "linked m (op_head p) xs" "list_edit p xs = Some ys"
    "\<forall>x \<in> set (op_adds p). x \<notin> set xs \<and> elem_ready m x"
  shows "\<exists>m'. list_run p m = Some (Inr m') \<and> linked m' (op_head p) ys \<and>
    touches (structs (op_head p) (set xs \<union> set (op_adds p))) m m'"
proof (cases p)
  case (Init h)
  have "touches {Head h} m m' \<Longrightarrow> touches (structs h (set xs)) m m'" for m'
    by (erule touches_mono) (simp add: structs_def)
  with Init assms LIST_INIT_ok[of m h] slist_at_first[of "w_ptr m" "Head h" xs] show ?thesis
    by (auto simp: linked_def list_head_ready_def)
next
  case (InsertHead h x)
  with assms show ?thesis using LIST_INSERT_HEAD_ok[of m h xs x] by simp
next
  case (InsertAfter h y x)
  with assms show ?thesis using LIST_INSERT_AFTER_ok[of m h _ y _ x]
    by (auto split: if_splits elim!: elem_split)
next
  case (InsertBefore h y x)
  with assms show ?thesis using LIST_INSERT_BEFORE_ok[of m h _ y _ x]
    by (auto split: if_splits elim!: elem_split)
next
  case (Remove h y)
  with assms show ?thesis using LIST_REMOVE_ok[of m h _ y]
    by (auto split: if_splits elim!: elem_split)
next
  case (RemoveHead h)
  with assms show ?thesis using LIST_REMOVE_HEAD_ok[of m h] by (cases xs) auto
next
  case (Replace h y x)
  with assms show ?thesis using LIST_REPLACE_ok[of m h _ y _ x]
    by (auto split: if_splits elim!: elem_split)
qed (use assms in auto)

interpretation linked_lists: list_macros linked elem_ready list_run list_supports list_head_ready
proof unfold_locales
  fix m k zs C m'
  show "linked m k zs \<Longrightarrow> touches C m m' \<Longrightarrow> Head k \<notin> C \<Longrightarrow> C \<inter> Elem ` set zs = {} \<Longrightarrow> linked m' k zs"
    by (rule linked_frame)
  show "touches C m m' \<Longrightarrow> list_head_ready m' h = list_head_ready m h" for h
    by (auto simp: touches_def list_head_ready_def)
qed (simp_all add: touches_ready linked_edit LIST_INIT_ok LIST_CONCAT_ok LIST_SWAP_ok linked_distinct
    LIST_SPLIT_AFTER_ok[simplified])

section \<open>Properties of the list macros\<close>

text \<open>
  C28. Any program that initialises the heads of its doubly-linked lists and then uses the LIST
  macros, the walk of \<open>LIST_CONCAT\<close> included, on elements where they may be used ends without
  touching a word that is not there, and leaves every head with the list the operations make on
  abstract lists: \<open>LIST_FOREACH\<close> visits its elements in order, and \<open>LIST_PREV\<close> gives of each
  element the one before it.
\<close>

theorem linked_list_programs:
  assumes "\<forall>h < n. list_head_ready m h" "\<forall>x < e. elem_ready m x"
    and "list_all list_supports ps" "list_ops e ps (replicate n []) = Some L"
  shows "\<exists>m'. run_ops list_run (map Init [0..<n] @ ps) m = Some (Inr m') \<and>
    (\<forall>h < n. LIST_FOREACH fst note_elem (m', []) h = Some (Inr (m', L ! h)) \<and>
      (\<forall>us y vs. L ! h = us @ y # vs \<longrightarrow> LIST_PREV m' (Some y) h = Inr (last_of us)))"
  using linked_lists.program_ok[OF assms(1,2,4,3)] LIST_FOREACH_ok(1) LIST_PREV_ok by metis

definition demo_lops :: "qop list" where
  "demo_lops =
     [InsertHead 0 0, InsertHead 0 1, InsertAfter 0 0 2, InsertBefore 0 1 3, InsertHead 1 4, Concat 0 1,
      Remove 0 0, SplitAfter 0 1 1, Replace 1 4 0, Swap 0 1, RemoveHead 1]"

theorem linked_list_programs_witness:
  "\<exists>m'. run_ops list_run (map Init [0..<2] @ demo_lops) (arena 2 5) = Some (Inr m') \<and>
     LIST_FOREACH fst note_elem (m', []) 0 = Some (Inr (m', [2, 0])) \<and>
     LIST_FOREACH fst note_elem (m', []) 1 = Some (Inr (m', [1])) \<and> LIST_PREV m' (Some 0) 0 = Inr (Some 2)"
proof -
  have "list_all list_supports demo_lops" by (simp add: demo_lops_def)
  moreover have "list_ops 5 demo_lops (replicate 2 []) = Some [[2, 0], [1]]"
    by (simp add: demo_lops_def new_elem_def before_elem_def after_elem_def numeral_2_eq_2)
  moreover have "\<forall>h < 2. list_head_ready (arena 2 5) h" "\<forall>x < 5. elem_ready (arena 2 5) x"
    by (simp_all add: arena_def Let_def list_head_ready_def elem_ready_def)
  ultimately obtain m' where m': "run_ops list_run (map Init [0..<2] @ demo_lops) (arena 2 5) = Some (Inr m')"
    "\<forall>h < 2. LIST_FOREACH fst note_elem (m', []) h = Some (Inr (m', [[2, 0], [1]] ! h)) \<and>
      (\<forall>us y vs. [[2, 0], [1]] ! h = us @ y # vs \<longrightarrow> LIST_PREV m' (Some y) h = Inr (last_of us))"
    using linked_list_programs[of 2 "arena 2 5" 5 demo_lops "[[2, 0], [1]]"] by blast
  have "LIST_FOREACH fst note_elem (m', []) 0 = Some (Inr (m', [2, 0]))"
    "LIST_FOREACH fst note_elem (m', []) 1 = Some (Inr (m', [1]))"
    using m'(2)[rule_format, of 0] m'(2)[rule_format, of 1] by simp_all
  moreover have "LIST_PREV m' (Some 0) 0 = Inr (Some 2)"
    using m'(2)[rule_format, of 0, THEN conjunct2, rule_format, of "[2]" 0 "[]"] by (simp add: last_of_def)
  ultimately show ?thesis using m'(1) by blast
qed

end
