(* ===== verification/Queue_Checks.thy ===== *)
theory Queue_Checks
  imports Slist Tailq Stailq Linked_List
begin

text \<open>
  The consistency checks of \<^verbatim>\<open>server/queue.h\<close>, which the macros make in the build with
  \<open>QUEUE_MACRO_DEBUG_ASSERTIONS\<close>: the conditions their \<open>QMD_ASSERT\<close>s test, and that they hold of
  every list the macros maintain; the assertions that a list is empty or not; the initialisers and
  the trace of the build with \<open>QUEUE_MACRO_DEBUG_TRACE\<close>.
\<close>

section \<open>Consistency checks\<close>

definition QMD_STAILQ_CHECK_EMPTY :: "queue_mem \<Rightarrow> nat \<Rightarrow> fault + bool" where
  "QMD_STAILQ_CHECK_EMPTY m h = bindE (load_link m (Head h)) (\<lambda>l. Inr (l = Head h))"

definition QMD_STAILQ_CHECK_TAIL :: "queue_mem \<Rightarrow> nat \<Rightarrow> fault + bool" where
  "QMD_STAILQ_CHECK_TAIL m h =
     bindE (load_link m (Head h)) (\<lambda>l. bindE (load_ptr m l) (\<lambda>p. Inr (p = None)))"

definition QMD_LIST_CHECK_HEAD :: "queue_mem \<Rightarrow> nat \<Rightarrow> fault + bool" where
  "QMD_LIST_CHECK_HEAD m h =
     bindE (LIST_FIRST m h) (\<lambda>f.
       if f = None then Inr True else bindE (elm_prev m f) (\<lambda>l. Inr (l = Head h)))"

definition QMD_LIST_CHECK_NEXT :: "queue_mem \<Rightarrow> ptr \<Rightarrow> fault + bool" where
  "QMD_LIST_CHECK_NEXT m elm =
     bindE (LIST_NEXT m elm) (\<lambda>n.
       if n = None then Inr True
       else bindE (elm_prev m n) (\<lambda>l. bindE (entry_of elm) (\<lambda>e. Inr (l = e))))"

definition QMD_LIST_CHECK_PREV :: "queue_mem \<Rightarrow> ptr \<Rightarrow> fault + bool" where
  "QMD_LIST_CHECK_PREV m elm = bindE (elm_prev m elm) (\<lambda>l. bindE (load_ptr m l) (\<lambda>p. Inr (p = elm)))"

definition QMD_TAILQ_CHECK_HEAD :: "queue_mem \<Rightarrow> nat \<Rightarrow> fault + bool" where
  "QMD_TAILQ_CHECK_HEAD m h =
     bindE (TAILQ_EMPTY m h) (\<lambda>e.
       if e then Inr True
       else bindE (TAILQ_FIRST m h) (\<lambda>f. bindE (elm_prev m f) (\<lambda>l. Inr (l = Head h))))"

definition QMD_TAILQ_CHECK_TAIL :: "queue_mem \<Rightarrow> nat \<Rightarrow> fault + bool" where
  "QMD_TAILQ_CHECK_TAIL m h =
     bindE (load_link m (Head h)) (\<lambda>l. bindE (load_ptr m l) (\<lambda>p. Inr (p = None)))"

definition QMD_TAILQ_CHECK_NEXT :: "queue_mem \<Rightarrow> ptr \<Rightarrow> fault + bool" where
  "QMD_TAILQ_CHECK_NEXT m elm =
     bindE (TAILQ_NEXT m elm) (\<lambda>n.
       if n = None then Inr True
       else bindE (elm_prev m n) (\<lambda>l. bindE (entry_of elm) (\<lambda>e. Inr (l = e))))"

definition QMD_TAILQ_CHECK_PREV :: "queue_mem \<Rightarrow> ptr \<Rightarrow> fault + bool" where
  "QMD_TAILQ_CHECK_PREV m elm = bindE (elm_prev m elm) (\<lambda>l. bindE (load_ptr m l) (\<lambda>p. Inr (p = elm)))"

section \<open>Assertions of a program\<close>

text \<open>The conditions of the \<open>ASSERT_EMPTY\<close> and \<open>ASSERT_NONEMPTY\<close> macros.\<close>

definition SLIST_ASSERT_EMPTY :: "ptr \<Rightarrow> bool" where
  "SLIST_ASSERT_EMPTY slh_first = SLIST_EMPTY slh_first"

definition SLIST_ASSERT_NONEMPTY :: "ptr \<Rightarrow> bool" where
  "SLIST_ASSERT_NONEMPTY slh_first = (\<not> SLIST_EMPTY slh_first)"

definition STAILQ_ASSERT_EMPTY :: "queue_mem \<Rightarrow> nat \<Rightarrow> fault + bool" where
  "STAILQ_ASSERT_EMPTY m h = STAILQ_EMPTY m h"

definition STAILQ_ASSERT_NONEMPTY :: "queue_mem \<Rightarrow> nat \<Rightarrow> fault + bool" where
  "STAILQ_ASSERT_NONEMPTY m h = bindE (STAILQ_EMPTY m h) (\<lambda>e. Inr (\<not> e))"

definition LIST_ASSERT_EMPTY :: "queue_mem \<Rightarrow> nat \<Rightarrow> fault + bool" where
  "LIST_ASSERT_EMPTY m h = LIST_EMPTY m h"

definition LIST_ASSERT_NONEMPTY :: "queue_mem \<Rightarrow> nat \<Rightarrow> fault + bool" where
  "LIST_ASSERT_NONEMPTY m h = bindE (LIST_EMPTY m h) (\<lambda>e. Inr (\<not> e))"

definition TAILQ_ASSERT_EMPTY :: "queue_mem \<Rightarrow> nat \<Rightarrow> fault + bool" where
  "TAILQ_ASSERT_EMPTY m h = TAILQ_EMPTY m h"

definition TAILQ_ASSERT_NONEMPTY :: "queue_mem \<Rightarrow> nat \<Rightarrow> fault + bool" where
  "TAILQ_ASSERT_NONEMPTY m h = bindE (TAILQ_EMPTY m h) (\<lambda>e. Inr (\<not> e))"

section \<open>Initialisers and the trace of changes\<close>

text \<open>The words of a head with static initialisation: \<open>xxh_first\<close> and, where there is one, \<open>xxh_last\<close>.\<close>

definition SLIST_HEAD_INITIALIZER :: ptr where
  "SLIST_HEAD_INITIALIZER = None"

definition STAILQ_HEAD_INITIALIZER :: "nat \<Rightarrow> ptr \<times> link" where
  "STAILQ_HEAD_INITIALIZER h = (None, Head h)"

definition LIST_HEAD_INITIALIZER :: ptr where
  "LIST_HEAD_INITIALIZER = None"

definition TAILQ_HEAD_INITIALIZER :: "nat \<Rightarrow> ptr \<times> link" where
  "TAILQ_HEAD_INITIALIZER h = (None, Head h)"

text \<open>A head that is initialised statically is an empty list.\<close>

lemma initializer_empty:
  "w_ptr m (Head h) = Some (fst (TAILQ_HEAD_INITIALIZER h)) \<Longrightarrow>
     w_link m (Head h) = Some (snd (TAILQ_HEAD_INITIALIZER h)) \<Longrightarrow> tailq m h []"
  "w_ptr m (Head h) = Some (fst (STAILQ_HEAD_INITIALIZER h)) \<Longrightarrow>
     w_link m (Head h) = Some (snd (STAILQ_HEAD_INITIALIZER h)) \<Longrightarrow> stailq m h []"
  "w_ptr m (Head h) = Some LIST_HEAD_INITIALIZER \<Longrightarrow> linked m h []"
  "slist f SLIST_HEAD_INITIALIZER []"
  by (simp_all add: TAILQ_HEAD_INITIALIZER_def STAILQ_HEAD_INITIALIZER_def LIST_HEAD_INITIALIZER_def
      SLIST_HEAD_INITIALIZER_def tailq_unfold stailq_unfold linked_unfold slist_def)

text \<open>
  In the build with \<open>QUEUE_MACRO_DEBUG_TRACE\<close> heads and elements of a TAILQ keep the last two places
  at which they were changed; the line and the file are the arguments.
\<close>

record qm_trace =
  lastline :: nat
  prevline :: nat
  lastfile :: "byte list option"
  prevfile :: "byte list option"

definition TRACEBUF_INITIALIZER :: "nat \<Rightarrow> byte list \<Rightarrow> qm_trace" where
  "TRACEBUF_INITIALIZER line file =
     \<lparr>lastline = line, prevline = 0, lastfile = Some file, prevfile = None\<rparr>"

definition QMD_TRACE_HEAD :: "nat \<Rightarrow> byte list \<Rightarrow> qm_trace \<Rightarrow> qm_trace" where
  "QMD_TRACE_HEAD line file t =
     t\<lparr>prevline := lastline t, prevfile := lastfile t, lastline := line, lastfile := Some file\<rparr>"

definition QMD_TRACE_ELEM :: "nat \<Rightarrow> byte list \<Rightarrow> qm_trace \<Rightarrow> qm_trace" where
  "QMD_TRACE_ELEM line file t =
     t\<lparr>prevline := lastline t, prevfile := lastfile t, lastline := line, lastfile := Some file\<rparr>"

lemma trace_keeps_two:
  "QMD_TRACE_HEAD l2 f2 (QMD_TRACE_HEAD l1 f1 t) =
     \<lparr>lastline = l2, prevline = l1, lastfile = Some f2, prevfile = Some f1\<rparr>"
  "QMD_TRACE_ELEM l2 f2 (QMD_TRACE_ELEM l1 f1 t) =
     \<lparr>lastline = l2, prevline = l1, lastfile = Some f2, prevfile = Some f1\<rparr>"
  by (simp_all add: QMD_TRACE_HEAD_def QMD_TRACE_ELEM_def)

section \<open>The checks hold\<close>

lemma empty_asserts:
  "tailq m h xs \<Longrightarrow> TAILQ_ASSERT_EMPTY m h = Inr (xs = []) \<and> TAILQ_ASSERT_NONEMPTY m h = Inr (xs \<noteq> [])"
  "linked m h xs \<Longrightarrow> LIST_ASSERT_EMPTY m h = Inr (xs = []) \<and> LIST_ASSERT_NONEMPTY m h = Inr (xs \<noteq> [])"
  "stailq m h xs \<Longrightarrow> STAILQ_ASSERT_EMPTY m h = Inr (xs = []) \<and> STAILQ_ASSERT_NONEMPTY m h = Inr (xs \<noteq> [])"
  by (cases xs; simp add: TAILQ_ASSERT_EMPTY_def TAILQ_ASSERT_NONEMPTY_def LIST_ASSERT_EMPTY_def
      LIST_ASSERT_NONEMPTY_def STAILQ_ASSERT_EMPTY_def STAILQ_ASSERT_NONEMPTY_def TAILQ_EMPTY_def LIST_EMPTY_def
      STAILQ_EMPTY_def TAILQ_FIRST_def LIST_FIRST_def STAILQ_FIRST_def tailq_unfold linked_unfold stailq_unfold
      queue_simps)+

lemma slist_asserts:
  "slist f p xs \<Longrightarrow> SLIST_ASSERT_EMPTY p = (xs = []) \<and> SLIST_ASSERT_NONEMPTY p = (xs \<noteq> [])"
  by (cases xs) (auto simp: SLIST_ASSERT_EMPTY_def SLIST_ASSERT_NONEMPTY_def SLIST_EMPTY_def slist_def)

lemma tailq_checks:
  assumes "tailq m h xs"
  shows "QMD_TAILQ_CHECK_HEAD m h = Inr True" "QMD_TAILQ_CHECK_TAIL m h = Inr True"
    and "y \<in> set xs \<Longrightarrow> QMD_TAILQ_CHECK_NEXT m (Some y) = Inr True \<and> QMD_TAILQ_CHECK_PREV m (Some y) = Inr True"
proof -
  show "QMD_TAILQ_CHECK_HEAD m h = Inr True"
    using assms by (cases xs) (auto simp: QMD_TAILQ_CHECK_HEAD_def tailq_unfold queue_simps)
  show "QMD_TAILQ_CHECK_TAIL m h = Inr True"
    using assms by (auto simp: QMD_TAILQ_CHECK_TAIL_def tailq_unfold queue_simps)
  assume "y \<in> set xs"
  then obtain us vs where "xs = us @ y # vs" by (meson split_list)
  with assms show "QMD_TAILQ_CHECK_NEXT m (Some y) = Inr True \<and> QMD_TAILQ_CHECK_PREV m (Some y) = Inr True"
    by (cases vs) (auto simp: QMD_TAILQ_CHECK_NEXT_def QMD_TAILQ_CHECK_PREV_def tailq_unfold queue_simps)
qed

lemma linked_checks:
  assumes "linked m h xs"
  shows "QMD_LIST_CHECK_HEAD m h = Inr True"
    and "y \<in> set xs \<Longrightarrow> QMD_LIST_CHECK_NEXT m (Some y) = Inr True \<and> QMD_LIST_CHECK_PREV m (Some y) = Inr True"
proof -
  show "QMD_LIST_CHECK_HEAD m h = Inr True"
    using assms by (cases xs) (auto simp: QMD_LIST_CHECK_HEAD_def linked_unfold queue_simps)
  assume "y \<in> set xs"
  then obtain us vs where "xs = us @ y # vs" by (meson split_list)
  with assms show "QMD_LIST_CHECK_NEXT m (Some y) = Inr True \<and> QMD_LIST_CHECK_PREV m (Some y) = Inr True"
    by (cases vs) (auto simp: QMD_LIST_CHECK_NEXT_def QMD_LIST_CHECK_PREV_def linked_unfold queue_simps)
qed

lemma stailq_checks:
  assumes "stailq m h xs"
  shows "QMD_STAILQ_CHECK_EMPTY m h = Inr (xs = [])" "QMD_STAILQ_CHECK_TAIL m h = Inr True"
  using assms by (auto simp: QMD_STAILQ_CHECK_EMPTY_def QMD_STAILQ_CHECK_TAIL_def stailq_unfold queue_simps)



end
