(* ===== verification/Socket_Env.thy ===== *)
theory Socket_Env
  imports Prelude
begin

text \<open>
  The system the server runs on, as the server sees it. \<open>sys\<close> holds one function for each call
  the server's threads make, over a world of any type; the definitions of the server take it as
  an argument. The locale \<open>server_env\<close> states what those calls document, in terms of a view of
  the world: the store behind \<open>FILE_PATH\<close>, the mutex, and the bytes still to come from the
  client and already sent to it. The lemmas about the server are proved from these laws, and the
  theories \<open>Plain_File\<close> and \<open>Device_File\<close> show that a regular file and the character driver of
  this repository satisfy them.
\<close>

section \<open>The calls\<close>

text \<open>
  \<open>sys_open\<close> is \<open>open(FILE_PATH, O_RDWR | O_CREAT | O_APPEND, 0644)\<close>, \<open>sys_lseek\<close> is
  \<open>lseek(fd, 0, SEEK_SET)\<close>, whose result the code ignores, \<open>sys_alloc\<close> answers \<open>malloc\<close> and
  \<open>realloc\<close> of a number of bytes and \<open>sys_alloc_struct\<close> a \<open>malloc\<close> of one C struct.
  \<open>sys_signal\<close> reads the flag \<open>caught_signal\<close> that the signal handler sets.
\<close>

record 'w sys =
  sys_recv :: "int \<Rightarrow> nat \<Rightarrow> 'w \<Rightarrow> (int \<times> byte list) \<times> 'w"
  sys_send :: "int \<Rightarrow> byte list \<Rightarrow> 'w \<Rightarrow> int \<times> 'w"
  sys_open :: "'w \<Rightarrow> int \<times> 'w"
  sys_write :: "int \<Rightarrow> byte list \<Rightarrow> 'w \<Rightarrow> int \<times> 'w"
  sys_lseek :: "int \<Rightarrow> 'w \<Rightarrow> 'w"
  sys_read :: "int \<Rightarrow> nat \<Rightarrow> 'w \<Rightarrow> (int \<times> byte list) \<times> 'w"
  sys_close :: "int \<Rightarrow> 'w \<Rightarrow> int \<times> 'w"
  sys_lock :: "'w \<Rightarrow> int \<times> 'w"
  sys_unlock :: "'w \<Rightarrow> int \<times> 'w"
  sys_alloc :: "memory \<Rightarrow> nat \<Rightarrow> 'w \<Rightarrow> alloc_answer \<times> 'w"
  sys_alloc_struct :: "'w \<Rightarrow> bool \<times> 'w"
  sys_signal :: "'w \<Rightarrow> bool \<times> 'w"

text \<open>
  A conversion to the 32-bit type \<open>int\<close> of C, which the wrappers of \<open>read\<close> and \<open>write\<close> return.
\<close>

definition to_c_int :: "int \<Rightarrow> int" where
  "to_c_int n = sint (word_of_int n :: 32 word)"

lemma to_c_int_id: "- (2 ^ 31) \<le> n \<Longrightarrow> n < 2 ^ 31 \<Longrightarrow> to_c_int n = n"
  by (simp add: to_c_int_def signed_of_int signed_take_bit_int_eq_self)

section \<open>What the calls promise\<close>

locale env_view =
  fixes sys :: "'w sys"
    and inv :: "'w \<Rightarrow> bool"
    and store :: "'w \<Rightarrow> 's"
    and pos :: "'w \<Rightarrow> nat"
    and locked :: "'w \<Rightarrow> bool"
    and inbox :: "'w \<Rightarrow> byte list"
    and outbox :: "'w \<Rightarrow> byte list"
    and reliable :: "'w \<Rightarrow> bool"
begin

text \<open>A call that leaves everything the view shows as it was, the file position apart.\<close>

definition same :: "'w \<Rightarrow> 'w \<Rightarrow> bool" where
  "same w w' \<longleftrightarrow> inv w' \<and> store w' = store w \<and> locked w' = locked w \<and> inbox w' = inbox w \<and>
     outbox w' = outbox w \<and> (reliable w \<longrightarrow> reliable w')"

lemma sameD:
  assumes "same w w'"
  shows "inv w'" "store w' = store w" "locked w' = locked w" "inbox w' = inbox w"
    "outbox w' = outbox w" "reliable w \<Longrightarrow> reliable w'"
  using assms by (simp_all add: same_def)

lemma same_trans: "same w w' \<Longrightarrow> same w' w'' \<Longrightarrow> same w w''"
  by (simp add: same_def)

lemma same_refl: "inv w \<Longrightarrow> same w w"
  by (simp add: same_def)

end

text \<open>
  \<open>reliable w\<close> stands for a world in which no call fails and no signal arrives from now on.
  \<open>append\<close> is what a complete write of one packet does to the store and \<open>bytes\<close> what a read of
  the whole store gives. \<open>ready w\<close> is what an open leaves and a write keeps: a file descriptor
  that the rewinding \<open>lseek\<close> of the code leaves at the start of the store (a regular file is
  rewound; the driver has no \<open>llseek\<close> and its writes do not move the position).
\<close>

locale server_env = env_view sys inv store pos locked inbox outbox reliable
  for sys :: "'w sys" and inv :: "'w \<Rightarrow> bool" and store :: "'w \<Rightarrow> 's" and pos :: "'w \<Rightarrow> nat"
    and locked :: "'w \<Rightarrow> bool" and inbox :: "'w \<Rightarrow> byte list" and outbox :: "'w \<Rightarrow> byte list"
    and reliable :: "'w \<Rightarrow> bool" +
  fixes ready :: "'w \<Rightarrow> bool"
    and append :: "'s \<Rightarrow> byte list \<Rightarrow> 's"
    and bytes :: "'s \<Rightarrow> byte list"
  assumes open_law: "inv w \<Longrightarrow> sys_open sys w = (fd, w') \<Longrightarrow>
      same w w' \<and> (fd \<noteq> -1 \<longrightarrow> ready w') \<and> (reliable w \<longrightarrow> fd \<noteq> -1)"
    and write_law: "inv w \<Longrightarrow> p \<noteq> [] \<Longrightarrow> last p = newline \<Longrightarrow> length p < 2 ^ 31 \<Longrightarrow>
      sys_write sys fd p w = (n, w') \<Longrightarrow>
      inv w' \<and> locked w' = locked w \<and> inbox w' = inbox w \<and> outbox w' = outbox w \<and>
      (ready w \<longrightarrow> ready w') \<and> (reliable w \<longrightarrow> reliable w' \<and> n = int (length p)) \<and>
      - 1 \<le> n \<and> n \<le> int (length p) \<and>
      (n = int (length p) \<longrightarrow> store w' = append (store w) p) \<and> (n = -1 \<longrightarrow> store w' = store w)"
    and lseek_law: "inv w \<Longrightarrow> ready w \<Longrightarrow> same w (sys_lseek sys fd w) \<and> pos (sys_lseek sys fd w) = 0"
    and read_law: "inv w \<Longrightarrow> k > 0 \<Longrightarrow> k < 2 ^ 31 \<Longrightarrow> sys_read sys fd k w = ((n, bs), w') \<Longrightarrow>
      same w w' \<and> (reliable w \<longrightarrow> n \<noteq> -1) \<and>
      (n = -1 \<or> n = int (length bs) \<and> length bs \<le> k \<and> pos w' = pos w + length bs \<and>
         bs = take (length bs) (drop (pos w) (bytes (store w))) \<and>
         (bs = [] \<longrightarrow> length (bytes (store w)) \<le> pos w))"
    and close_law: "inv w \<Longrightarrow> sys_close sys fd w = (n, w') \<Longrightarrow> same w w' \<and> (reliable w \<longrightarrow> n \<noteq> -1)"
    and lock_law: "inv w \<Longrightarrow> \<not> locked w \<Longrightarrow> sys_lock sys w = (n, w') \<Longrightarrow>
      inv w' \<and> store w' = store w \<and> inbox w' = inbox w \<and> outbox w' = outbox w \<and>
      locked w' = (n = 0) \<and> (reliable w \<longrightarrow> reliable w' \<and> n = 0)"
    and unlock_law: "inv w \<Longrightarrow> locked w \<Longrightarrow> sys_unlock sys w = (n, w') \<Longrightarrow>
      inv w' \<and> store w' = store w \<and> inbox w' = inbox w \<and> outbox w' = outbox w \<and>
      \<not> locked w' \<and> n = 0 \<and> (reliable w \<longrightarrow> reliable w')"
    and send_law: "inv w \<Longrightarrow> bs \<noteq> [] \<Longrightarrow> sys_send sys fd bs w = (n, w') \<Longrightarrow>
      inv w' \<and> store w' = store w \<and> locked w' = locked w \<and> inbox w' = inbox w \<and> pos w' = pos w \<and>
      (reliable w \<longrightarrow> reliable w' \<and> n \<noteq> -1) \<and>
      (n = -1 \<and> outbox w' = outbox w \<or>
       0 < n \<and> n \<le> int (length bs) \<and> outbox w' = outbox w @ take (nat n) bs)"
    and recv_law: "inv w \<Longrightarrow> k > 0 \<Longrightarrow> sys_recv sys fd k w = ((n, bs), w') \<Longrightarrow>
      inv w' \<and> store w' = store w \<and> locked w' = locked w \<and> outbox w' = outbox w \<and>
      (reliable w \<longrightarrow> reliable w' \<and> n \<noteq> -1) \<and>
      (n = -1 \<and> inbox w' = inbox w \<or>
       n = int (length bs) \<and> length bs \<le> k \<and> inbox w = bs @ inbox w' \<and> (bs = [] \<longrightarrow> inbox w = []))"
    and alloc_law: "inv w \<Longrightarrow> sys_alloc sys h k w = (ans, w') \<Longrightarrow>
      same w w' \<and> alloc_ok h k ans \<and> (reliable w \<and> finite (dom h) \<longrightarrow> ans \<noteq> None)"
    and alloc_struct_law: "inv w \<Longrightarrow> sys_alloc_struct sys w = (b, w') \<Longrightarrow>
      same w w' \<and> (reliable w \<longrightarrow> b)"
    and signal_law: "inv w \<Longrightarrow> sys_signal sys w = (b, w') \<Longrightarrow> same w w' \<and> (reliable w \<longrightarrow> \<not> b)"

end
