(* ===== verification/Socket_Thread.thy ===== *)
theory Socket_Thread
  imports Socket_Env
begin

text \<open>
  The thread that serves one client in \<^verbatim>\<open>server/aesdsocket.c\<close>: its two growing buffers in
  memory, the three handlers of its state machine (\<open>waiting_for_data\<close>,
  \<open>process_received_data\<close>, \<open>sending_data\<close>), the file and mutex helpers they call, its loop and
  its clean-up. Messages to the log are left out: they change nothing the code reads.
\<close>

section \<open>State\<close>

datatype ThreadState = SendingData | WaitingForData | ProcessingData | ClosedConnection

record ThreadData =
  client_fd :: int
  thread_state :: ThreadState
  thread_complete_success :: bool

record BufferData =
  bd_buffer :: ptr
  bd_size :: size_t
  bd_allocated :: size_t

text \<open>The thread's structs, the memory of its buffers and the world.\<close>

record 'w thread =
  t_data :: ThreadData
  rb_data :: BufferData
  rb_new :: BufferData
  heap :: memory
  world :: 'w

text \<open>
  The build: with \<open>USE_AESD_CHAR_DEVICE\<close> the header also defines \<open>DISABLE_LOCKING\<close> and
  \<open>DISABLE_TIMESTAMP\<close>.
\<close>

record build =
  use_aesd_char_device :: bool

abbreviation disable_locking :: "build \<Rightarrow> bool" where
  "disable_locking cfg \<equiv> use_aesd_char_device cfg"

definition set_state :: "ThreadState \<Rightarrow> 'w thread \<Rightarrow> 'w thread" where
  "set_state q t = t\<lparr>t_data := (t_data t)\<lparr>thread_state := q\<rparr>\<rparr>"

text \<open>\<open>RECV_BUFFER_GROW_SIZE\<close>, \<open>RECV_BUFFER_TEMP_SIZE\<close> and \<open>SEND_BUFFER_SIZE\<close>.\<close>

definition RECV_BUFFER_GROW_SIZE :: size_t where "RECV_BUFFER_GROW_SIZE = 1024"
definition RECV_BUFFER_TEMP_SIZE :: size_t where "RECV_BUFFER_TEMP_SIZE = 1024"
definition SEND_BUFFER_SIZE :: nat where "SEND_BUFFER_SIZE = 1024"

section \<open>Mutex and file helpers\<close>

definition get_file_mutex :: "build \<Rightarrow> 'w sys \<Rightarrow> 'w \<Rightarrow> int \<times> 'w" where
  "get_file_mutex cfg sys w =
     (if disable_locking cfg then (0, w)
      else let (rc, w1) = sys_lock sys w in if rc \<noteq> 0 then (- 1, w1) else (0, w1))"

definition release_file_mutex :: "build \<Rightarrow> 'w sys \<Rightarrow> 'w \<Rightarrow> int \<times> 'w" where
  "release_file_mutex cfg sys w =
     (if disable_locking cfg then (0, w)
      else let (rc, w1) = sys_unlock sys w in if rc \<noteq> 0 then (- 1, w1) else (0, w1))"

definition open_file_for_read_write :: "'w sys \<Rightarrow> 'w \<Rightarrow> int \<times> 'w" where
  "open_file_for_read_write sys w =
     (let (fd, w1) = sys_open sys w in if fd = - 1 then (- 1, w1) else (fd, w1))"

text \<open>A short write counts as a failure.\<close>

definition write_to_file :: "'w sys \<Rightarrow> int \<Rightarrow> byte list \<Rightarrow> 'w \<Rightarrow> int \<times> 'w" where
  "write_to_file sys fd data w =
     (let (bytes_written, w1) = sys_write sys fd data w
      in if bytes_written = - 1 then (- 1, w1)
         else if bytes_written \<noteq> int (length data) then (- 1, w1)
         else (to_c_int bytes_written, w1))"

text \<open>
  One byte of the caller's buffer is kept for a terminator, so at most
  \<open>buffer_size - 1\<close> bytes are read. The second component is the bytes now in the buffer.
\<close>

definition read_from_file :: "'w sys \<Rightarrow> int \<Rightarrow> nat \<Rightarrow> 'w \<Rightarrow> (int \<times> byte list) \<times> 'w" where
  "read_from_file sys fd buffer_size w =
     (let ((bytes_read, bs), w1) = sys_read sys fd (buffer_size - 1) w
      in if bytes_read = - 1 then ((- 1, []), w1) else ((to_c_int bytes_read, bs), w1))"

section \<open>Waiting for data\<close>

text \<open>
  \<open>realloc\<close>: on success the old bytes move to the new block and the old block is freed; on
  failure nothing changes.
\<close>

definition mem_realloc :: "memory \<Rightarrow> ptr \<Rightarrow> nat \<Rightarrow> alloc_answer \<Rightarrow> fault + ptr \<times> memory" where
  "mem_realloc h p n ans =
     (case ans of
        None \<Rightarrow> Inr (None, h)
      | Some (a, blk) \<Rightarrow>
          (case p of
             None \<Rightarrow> Inr (Some a, h(a \<mapsto> blk))
           | Some a0 \<Rightarrow>
               (case h a0 of
                  None \<Rightarrow> Inl BadFree
                | Some old \<Rightarrow>
                    Inr (Some a, (h(a0 := None))(a \<mapsto> take n old @ drop (length (take n old)) blk)))))"

text \<open>The loop that grows the receive buffer; \<open>Inr (False, t)\<close> is the return of \<open>-1\<close>.\<close>

partial_function (option) grow_loop :: "'w sys \<Rightarrow> 'w thread \<Rightarrow> (fault + bool \<times> 'w thread) option" where
  "grow_loop sys t =
     (let rb = rb_data t
      in if bd_allocated rb < bd_size rb + bd_size (rb_new t)
         then
           let rb1 = rb\<lparr>bd_allocated := bd_allocated rb + RECV_BUFFER_GROW_SIZE\<rparr>;
               (ans, w1) = sys_alloc sys (heap t) (unat (bd_allocated rb1)) (world t)
           in (case mem_realloc (heap t) (bd_buffer rb1) (unat (bd_allocated rb1)) ans of
                 Inl f \<Rightarrow> Some (Inl f)
               | Inr (r_buffer_new, h1) \<Rightarrow>
                   if r_buffer_new = None
                   then Some (Inr (False, t\<lparr>rb_data := rb1, heap := h1, world := w1\<rparr>))
                   else grow_loop sys (t\<lparr>rb_data := rb1\<lparr>bd_buffer := r_buffer_new\<rparr>,
                                          heap := h1, world := w1\<rparr>))
         else Some (Inr (True, t)))"

text \<open>
  \<open>recv\<close> stores what it received into the buffer; the kernel refuses a NULL buffer with an
  error.
\<close>

definition waiting_for_data :: "'w sys \<Rightarrow> 'w thread \<Rightarrow> (fault + int \<times> 'w thread) option" where
  "waiting_for_data sys t =
     (let ((n, bs), w1) = sys_recv sys (client_fd (t_data t)) (unat (bd_allocated (rb_new t))) (world t);
          received_bytes = (if 0 < n \<and> bd_buffer (rb_new t) = None then - 1 else n);
          t1 = t\<lparr>world := w1\<rparr>
      in if received_bytes = - 1 then Some (Inr (- 1, t1))
         else if received_bytes = 0 then Some (Inr (0, set_state ClosedConnection t1))
         else
           (case mem_write (heap t1) (bd_buffer (rb_new t1)) 0 bs of
              Inl f \<Rightarrow> Some (Inl f)
            | Inr h1 \<Rightarrow>
                let t2 = t1\<lparr>heap := h1,
                           rb_new := (rb_new t1)\<lparr>bd_size := word_of_int received_bytes\<rparr>\<rparr>
                in Option.bind (grow_loop sys t2) (\<lambda>r.
                     Some (bindE r (\<lambda>(grown, t3).
                       if \<not> grown then Inr (- 1, t3)
                       else Inr (0, set_state ProcessingData t3))))))"

section \<open>Processing received data\<close>

text \<open>The search for the end of a packet: whether it was found, and the final index.\<close>

function find_packet_end :: "memory \<Rightarrow> ptr \<Rightarrow> nat \<Rightarrow> nat \<Rightarrow> fault + bool \<times> nat" where
  "find_packet_end h p sz index =
     (if index < sz
      then bindE (mem_read h p index 1) (\<lambda>c.
             if c = [newline] then Inr (True, index) else find_packet_end h p sz (Suc index))
      else Inr (False, index))"
  by pat_completeness auto
termination
  by (relation "measure (\<lambda>(h, p, sz, index). sz - index)") auto

declare find_packet_end.simps [simp del]

text \<open>\<open>memcpy\<close> and \<open>memmove\<close> between two places of the memory.\<close>

definition mem_copy :: "memory \<Rightarrow> ptr \<Rightarrow> nat \<Rightarrow> ptr \<Rightarrow> nat \<Rightarrow> nat \<Rightarrow> fault + memory" where
  "mem_copy h dst doff src soff n =
     bindE (mem_read h src soff n) (\<lambda>bs. mem_write h dst doff bs)"

definition process_received_data :: "'w thread \<Rightarrow> fault + int \<times> 'w thread" where
  "process_received_data t =
     (let rb = rb_data t; rn = rb_new t
      in bindE (find_packet_end (heap t) (bd_buffer rn) (unat (bd_size rn)) 0) (\<lambda>(found_end, index).
         if found_end
         then
           let n = word_of_nat index + 1
           in bindE (mem_copy (heap t) (bd_buffer rb) (unat (bd_size rb)) (bd_buffer rn) 0 (unat n)) (\<lambda>h1.
              bindE (mem_copy h1 (bd_buffer rn) 0 (bd_buffer rn) (unat n) (unat (bd_size rn - n))) (\<lambda>h2.
              Inr (0, set_state SendingData
                        (t\<lparr>heap := h2, rb_data := rb\<lparr>bd_size := bd_size rb + n\<rparr>,
                           rb_new := rn\<lparr>bd_size := bd_size rn - n\<rparr>\<rparr>))))
         else
           bindE (mem_copy (heap t) (bd_buffer rb) (unat (bd_size rb)) (bd_buffer rn) 0 (unat (bd_size rn)))
             (\<lambda>h1.
              Inr (0, set_state WaitingForData
                        (t\<lparr>heap := h1, rb_data := rb\<lparr>bd_size := bd_size rb + bd_size rn\<rparr>,
                           rb_new := rn\<lparr>bd_size := 0\<rparr>\<rparr>)))))"

section \<open>Sending data\<close>

text \<open>
  The loop that sends one block of the file; \<open>False\<close> is a failed \<open>send\<close>. It may run forever
  when the peer takes nothing.
\<close>

partial_function (option) send_loop ::
  "'w sys \<Rightarrow> int \<Rightarrow> byte list \<Rightarrow> int \<Rightarrow> 'w \<Rightarrow> (bool \<times> 'w) option" where
  "send_loop sys fd send_buffer total_bytes_sent w =
     (if total_bytes_sent < int (length send_buffer)
      then
        let (sent_bytes, w1) = sys_send sys fd (drop (nat total_bytes_sent) send_buffer) w
        in if sent_bytes = - 1 then Some (False, w1)
           else send_loop sys fd send_buffer (total_bytes_sent + sent_bytes) w1
      else Some (True, w))"

text \<open>
  The loop over the blocks of the file. The result is \<open>None\<close> for a failed \<open>send\<close>, and
  otherwise the last result of the read, which is zero or \<open>-1\<close>.
\<close>

partial_function (option) read_send_loop ::
  "'w sys \<Rightarrow> int \<Rightarrow> int \<Rightarrow> 'w \<Rightarrow> (int option \<times> 'w) option" where
  "read_send_loop sys f_fd client w =
     (let ((bytes_read, send_buffer), w1) = read_from_file sys f_fd SEND_BUFFER_SIZE w
      in if bytes_read > 0
         then Option.bind (send_loop sys client send_buffer 0 w1) (\<lambda>(sent, w2).
                if sent then read_send_loop sys f_fd client w2 else Some (None, w2))
         else Some (Some bytes_read, w1))"

text \<open>The clean-up of the error paths: close the file, release the mutex.\<close>

definition close_and_release :: "build \<Rightarrow> 'w sys \<Rightarrow> int \<Rightarrow> 'w \<Rightarrow> 'w" where
  "close_and_release cfg sys f_fd w = snd (release_file_mutex cfg sys (snd (sys_close sys f_fd w)))"

definition sending_data :: "build \<Rightarrow> 'w sys \<Rightarrow> 'w thread \<Rightarrow> (fault + int \<times> 'w thread) option" where
  "sending_data cfg sys t =
     (let (rc, w1) = get_file_mutex cfg sys (world t)
      in if rc = - 1 then Some (Inr (- 1, t\<lparr>world := w1\<rparr>))
         else
           let (f_fd, w2) = open_file_for_read_write sys w1
           in if f_fd = - 1
              then Some (Inr (- 1, t\<lparr>world := snd (release_file_mutex cfg sys w2)\<rparr>))
              else
                (case mem_read (heap t) (bd_buffer (rb_data t)) 0 (unat (bd_size (rb_data t))) of
                   Inl f \<Rightarrow> Some (Inl f)
                 | Inr data \<Rightarrow>
                     let (wrc, w3) = write_to_file sys f_fd data w2
                     in if wrc = - 1
                        then Some (Inr (- 1, t\<lparr>world := close_and_release cfg sys f_fd w3\<rparr>))
                        else
                          let t1 = t\<lparr>rb_data := (rb_data t)\<lparr>bd_size := 0\<rparr>\<rparr>;
                              w4 = sys_lseek sys f_fd w3
                          in Option.bind (read_send_loop sys f_fd (client_fd (t_data t1)) w4) (\<lambda>(res, w5).
                             if res = None \<or> res = Some (- 1)
                             then Some (Inr (- 1, t1\<lparr>world := close_and_release cfg sys f_fd w5\<rparr>))
                             else
                               let (crc, w6) = sys_close sys f_fd w5
                               in if crc = - 1
                                  then Some (Inr (- 1, t1\<lparr>world := snd (release_file_mutex cfg sys w6)\<rparr>))
                                  else
                                    let (rrc, w7) = release_file_mutex cfg sys w6;
                                        t2 = t1\<lparr>world := w7\<rparr>
                                    in if rrc = - 1 then Some (Inr (- 1, t2))
                                       else if bd_size (rb_new t2) > 0
                                       then Some (Inr (0, set_state ProcessingData t2))
                                       else Some (Inr (0, set_state WaitingForData t2)))))"

section \<open>The thread's loop\<close>

definition thread_cleanup :: "'w thread \<Rightarrow> fault + 'w thread" where
  "thread_cleanup t =
     bindE (if bd_buffer (rb_data t) \<noteq> None then mem_free (heap t) (bd_buffer (rb_data t))
            else Inr (heap t)) (\<lambda>h1.
     bindE (if bd_buffer (rb_new t) \<noteq> None then mem_free h1 (bd_buffer (rb_new t)) else Inr h1) (\<lambda>h2.
     Inr (t\<lparr>heap := h2\<rparr>)))"

text \<open>
  One pass through the body of the loop: the state chooses the handler, a handler that returns
  \<open>-1\<close> closes the connection, and the loop flag falls on a signal or in the closed state. The
  result of \<open>process_received_data\<close> is unsigned and compared with \<open>-1\<close> too; the handler
  returns only zero.
\<close>

definition close_on_error :: "int \<times> 'w thread \<Rightarrow> 'w thread" where
  "close_on_error = (\<lambda>(rc, t). if rc = - 1 then set_state ClosedConnection t else t)"

definition thread_step :: "build \<Rightarrow> 'w sys \<Rightarrow> 'w thread \<Rightarrow> (fault + bool \<times> 'w thread) option" where
  "thread_step cfg sys t =
     (let (caught_signal, w1) = sys_signal sys (world t);
          t1 = t\<lparr>world := w1\<rparr>;
          keep = (\<not> caught_signal)
      in case thread_state (t_data t1) of
           WaitingForData \<Rightarrow>
             map_option (\<lambda>r. bindE r (\<lambda>x. Inr (keep, close_on_error x))) (waiting_for_data sys t1)
         | ProcessingData \<Rightarrow>
             Some (bindE (process_received_data t1) (\<lambda>x. Inr (keep, close_on_error x)))
         | SendingData \<Rightarrow>
             map_option (\<lambda>r. bindE r (\<lambda>x. Inr (keep, close_on_error x))) (sending_data cfg sys t1)
         | ClosedConnection \<Rightarrow> Some (Inr (False, t1)))"

partial_function (option) thread_loop ::
  "build \<Rightarrow> 'w sys \<Rightarrow> 'w thread \<Rightarrow> (fault + 'w thread) option" where
  "thread_loop cfg sys t =
     Option.bind (thread_step cfg sys t) (\<lambda>r.
       case r of
         Inl f \<Rightarrow> Some (Inl f)
       | Inr (keep, t1) \<Rightarrow> if keep then thread_loop cfg sys t1 else Some (Inr t1))"

text \<open>
  The thread function: its two structs and the fixed receive buffer are allocated (the results
  of these calls are not checked by the code, so a failed one is a NULL dereference, or a NULL
  receive buffer), then the loop runs and the buffers are freed.
\<close>

definition main_loop_thread ::
  "build \<Rightarrow> 'w sys \<Rightarrow> ThreadData \<Rightarrow> memory \<Rightarrow> 'w \<Rightarrow> (fault + 'w thread) option" where
  "main_loop_thread cfg sys thread_param h w =
     (let (ok1, w1) = sys_alloc_struct sys w
      in if \<not> ok1 then Some (Inl NullDeref)
         else
           let (ok2, w2) = sys_alloc_struct sys w1
           in if \<not> ok2 then Some (Inl NullDeref)
              else
                let (ans, w3) = sys_alloc sys h (unat RECV_BUFFER_TEMP_SIZE) w2;
                    (buf, h1) = mem_alloc h ans;
                    t = \<lparr>t_data = thread_param,
                         rb_data = \<lparr>bd_buffer = None, bd_size = 0, bd_allocated = 0\<rparr>,
                         rb_new = \<lparr>bd_buffer = buf, bd_size = 0, bd_allocated = RECV_BUFFER_TEMP_SIZE\<rparr>,
                         heap = h1, world = w3\<rparr>
                in Option.bind (thread_loop cfg sys t) (\<lambda>r. Some (bindE r thread_cleanup)))"

end
