(* ===== verification/Client_Side.thy ===== *)
theory Client_Side
  imports Socket_Thread
begin

text \<open>
  What the two concrete systems for the server share, as definitions that can be evaluated: the
  client at the other end of the connection, the mutex, the allocator and the answers the system
  has prepared. \<open>Plain_File\<close> and \<open>Device_File\<close> add what is behind \<open>FILE_PATH\<close>.
\<close>

section \<open>What a system has beside its file\<close>

text \<open>
  \<open>faults\<close> holds the fate of the calls to come, one for each: \<open>None\<close> to succeed, \<open>Some k\<close> to fail
  (for a write, \<open>Some k\<close> with \<open>k > 0\<close> is a short write of \<open>k - 1\<close> bytes; for a check of the signal
  flag it is a caught signal). \<open>chunks\<close> bounds the sizes of the next transfers by \<open>recv\<close>, \<open>send\<close>
  and \<open>read\<close>. When either list is used up, calls succeed and transfer all they can.
\<close>

record client_side =
  cs_inbox :: "byte list"
  cs_outbox :: "byte list"
  cs_locked :: bool
  cs_faults :: "nat option list"
  cs_chunks :: "nat list"

definition next_fault :: "'a client_side_scheme \<Rightarrow> nat option \<times> 'a client_side_scheme" where
  "next_fault w =
     (case cs_faults w of [] \<Rightarrow> (None, w) | f # fs \<Rightarrow> (f, w\<lparr>cs_faults := fs\<rparr>))"

text \<open>How much of \<open>k\<close> the next transfer takes: at least one, at most \<open>k\<close>.\<close>

definition next_chunk :: "nat \<Rightarrow> 'a client_side_scheme \<Rightarrow> nat \<times> 'a client_side_scheme" where
  "next_chunk k w =
     (case cs_chunks w of [] \<Rightarrow> (k, w) | c # cs \<Rightarrow> (min k (max 1 c), w\<lparr>cs_chunks := cs\<rparr>))"

definition no_faults :: "'a client_side_scheme \<Rightarrow> bool" where
  "no_faults w \<longleftrightarrow> list_all (\<lambda>f. f = None) (cs_faults w)"

text \<open>A client at its start: it will send less than 2 GiB.\<close>

definition fit_client :: "ThreadData \<times> 'a client_side_scheme \<Rightarrow> bool" where
  "fit_client = (\<lambda>(d, w). thread_state d = WaitingForData \<and> \<not> cs_locked w \<and> length (cs_inbox w) < 2 ^ 31)"

definition cs_recv :: "int \<Rightarrow> nat \<Rightarrow> 'a client_side_scheme \<Rightarrow> (int \<times> byte list) \<times> 'a client_side_scheme" where
  "cs_recv fd k w =
     (case next_fault w of
        (Some _, w1) \<Rightarrow> ((-1, []), w1)
      | (None, w1) \<Rightarrow>
          let (c, w2) = next_chunk k w1; bs = take c (cs_inbox w2)
          in ((int (length bs), bs), w2\<lparr>cs_inbox := drop c (cs_inbox w2)\<rparr>))"

definition cs_send :: "int \<Rightarrow> byte list \<Rightarrow> 'a client_side_scheme \<Rightarrow> int \<times> 'a client_side_scheme" where
  "cs_send fd bs w =
     (case next_fault w of
        (Some _, w1) \<Rightarrow> (-1, w1)
      | (None, w1) \<Rightarrow>
          let (c, w2) = next_chunk (length bs) w1
          in (int c, w2\<lparr>cs_outbox := cs_outbox w2 @ take c bs\<rparr>))"

text \<open>A call with no other effect: its result is \<open>bad\<close> on a fault and \<open>good\<close> otherwise.\<close>

definition cs_simple :: "'r \<Rightarrow> 'r \<Rightarrow> 'a client_side_scheme \<Rightarrow> 'r \<times> 'a client_side_scheme" where
  "cs_simple good bad w =
     (let (f, w1) = next_fault w in (if f = None then good else bad, w1))"

text \<open>A default mutex: a failed lock is \<open>EINVAL\<close>, and an unlock of a held mutex succeeds.\<close>

definition cs_lock :: "'a client_side_scheme \<Rightarrow> int \<times> 'a client_side_scheme" where
  "cs_lock w =
     (let (f, w1) = next_fault w in if f = None then (0, w1\<lparr>cs_locked := True\<rparr>) else (22, w1))"

definition cs_unlock :: "'a client_side_scheme \<Rightarrow> int \<times> 'a client_side_scheme" where
  "cs_unlock w = (0, w\<lparr>cs_locked := False\<rparr>)"

text \<open>The allocator takes the first free block name.\<close>

definition cs_alloc :: "memory \<Rightarrow> nat \<Rightarrow> 'a client_side_scheme \<Rightarrow> alloc_answer \<times> 'a client_side_scheme" where
  "cs_alloc h k w =
     (let (f, w1) = next_fault w
      in (if f = None then map_option (\<lambda>a. (a, replicate k 0)) (first_free h 0) else None, w1))"

section \<open>What these calls do\<close>

lemma next_fault_simps:
  assumes "next_fault w = (f, w')"
  shows "cs_inbox w' = cs_inbox w" "cs_outbox w' = cs_outbox w" "cs_locked w' = cs_locked w"
    "client_side.more w' = client_side.more w" "no_faults w \<Longrightarrow> no_faults w' \<and> f = None"
  using assms by (auto simp: next_fault_def no_faults_def split: list.splits)

lemma next_chunk_simps:
  assumes "next_chunk k w = (c, w')"
  shows "cs_inbox w' = cs_inbox w" "cs_outbox w' = cs_outbox w" "cs_locked w' = cs_locked w"
    "client_side.more w' = client_side.more w" "cs_faults w' = cs_faults w" "c \<le> k" "0 < k \<Longrightarrow> 0 < c"
  using assms by (auto simp: next_chunk_def split: list.splits)

lemma no_faults_eq: "cs_faults w' = cs_faults w \<Longrightarrow> no_faults w' = no_faults w"
  by (simp add: no_faults_def)

lemma cs_recv_cases:
  assumes "0 < k" "cs_recv fd k w = ((n, bs), w')"
  shows "client_side.more w' = client_side.more w" "cs_locked w' = cs_locked w" "cs_outbox w' = cs_outbox w"
    "no_faults w \<Longrightarrow> no_faults w' \<and> n \<noteq> -1"
    "n = -1 \<and> cs_inbox w' = cs_inbox w \<or>
     n = int (length bs) \<and> length bs \<le> k \<and> cs_inbox w = bs @ cs_inbox w' \<and> (bs = [] \<longrightarrow> cs_inbox w = [])"
proof -
  obtain f w1 where f: "next_fault w = (f, w1)" by (cases "next_fault w")
  obtain c w2 where c: "next_chunk k w1 = (c, w2)" by (cases "next_chunk k w1")
  note fs = next_fault_simps[OF f] and cs = next_chunk_simps[OF c]
  show "client_side.more w' = client_side.more w" "cs_locked w' = cs_locked w" "cs_outbox w' = cs_outbox w"
    using assms f c fs(1-4) cs by (auto simp: cs_recv_def split: option.splits)
  show "no_faults w \<Longrightarrow> no_faults w' \<and> n \<noteq> -1"
    using assms f c fs(5) cs(5) by (auto simp: cs_recv_def no_faults_def split: option.splits)
  show "n = -1 \<and> cs_inbox w' = cs_inbox w \<or>
     n = int (length bs) \<and> length bs \<le> k \<and> cs_inbox w = bs @ cs_inbox w' \<and> (bs = [] \<longrightarrow> cs_inbox w = [])"
    using assms f c fs(1) cs(1,6,7) by (auto simp: cs_recv_def split: option.splits)
qed

lemma cs_send_cases:
  assumes "bs \<noteq> []" "cs_send fd bs w = (n, w')"
  shows "client_side.more w' = client_side.more w" "cs_locked w' = cs_locked w" "cs_inbox w' = cs_inbox w"
    "no_faults w \<Longrightarrow> no_faults w' \<and> n \<noteq> -1"
    "n = -1 \<and> cs_outbox w' = cs_outbox w \<or>
     0 < n \<and> n \<le> int (length bs) \<and> cs_outbox w' = cs_outbox w @ take (nat n) bs"
proof -
  obtain f w1 where f: "next_fault w = (f, w1)" by (cases "next_fault w")
  obtain c w2 where c: "next_chunk (length bs) w1 = (c, w2)" by (cases "next_chunk (length bs) w1")
  note fs = next_fault_simps[OF f] and cs = next_chunk_simps[OF c]
  show "client_side.more w' = client_side.more w" "cs_locked w' = cs_locked w" "cs_inbox w' = cs_inbox w"
    using assms f c fs(1-4) cs by (auto simp: cs_send_def split: option.splits)
  show "no_faults w \<Longrightarrow> no_faults w' \<and> n \<noteq> -1"
    using assms f c fs(5) cs(5) by (auto simp: cs_send_def no_faults_def split: option.splits)
  show "n = -1 \<and> cs_outbox w' = cs_outbox w \<or>
     0 < n \<and> n \<le> int (length bs) \<and> cs_outbox w' = cs_outbox w @ take (nat n) bs"
    using assms f c fs(2) cs(2,6,7) by (auto simp: cs_send_def split: option.splits)
qed

lemma cs_simple_cases:
  assumes "cs_simple good bad w = (r, w')"
  shows "client_side.more w' = client_side.more w" "cs_locked w' = cs_locked w" "cs_inbox w' = cs_inbox w"
    "cs_outbox w' = cs_outbox w" "no_faults w \<Longrightarrow> no_faults w' \<and> r = good"
  using assms next_fault_simps[of w] by (auto simp: cs_simple_def split: prod.splits)

lemma cs_lock_cases:
  assumes "cs_lock w = (r, w')"
  shows "client_side.more w' = client_side.more w" "cs_inbox w' = cs_inbox w" "cs_outbox w' = cs_outbox w"
    "\<not> cs_locked w \<Longrightarrow> cs_locked w' = (r = 0)" "no_faults w \<Longrightarrow> no_faults w' \<and> r = 0"
  using assms next_fault_simps[of w]
  by (auto simp: cs_lock_def no_faults_def split: prod.splits if_splits)

lemma cs_alloc_cases:
  assumes "cs_alloc h k w = (ans, w')"
  shows "client_side.more w' = client_side.more w" "cs_locked w' = cs_locked w" "cs_inbox w' = cs_inbox w"
    "cs_outbox w' = cs_outbox w" "no_faults w \<Longrightarrow> no_faults w'" "alloc_ok h k ans"
    "no_faults w \<Longrightarrow> finite (dom h) \<Longrightarrow> ans \<noteq> None"
  using assms next_fault_simps[of w] first_free_Some[of h 0] first_free_finite[of h]
  by (auto simp: cs_alloc_def alloc_ok_def split: prod.splits if_splits option.splits)

text \<open>A client whose thread can start: \<open>malloc\<close> has memory for the thread's two buffer structures.\<close>

definition fit_world :: "'a client_side_scheme \<Rightarrow> bool" where
  "fit_world w \<longleftrightarrow> length (cs_inbox w) < 2 ^ 31 \<and> (\<forall>f \<in> set (take 2 (cs_faults w)). f = None)"

lemma fit_world_allocs:
  assumes "fit_world w"
  shows "fst (cs_simple True False w)" "fst (cs_simple True False (snd (cs_simple True False w)))"
  using assms by (auto simp: fit_world_def cs_simple_def next_fault_def numeral_2_eq_2 split: list.splits)

end
