(* ===== verification/Thread_Steps.thy ===== *)
theory Thread_Steps
  imports Socket_Thread
begin

text \<open>
  The thread of \<^verbatim>\<open>server/aesdsocket.c\<close> one call at a time, for the runs in which several threads
  take turns. The handler \<open>sending_data\<close>, which holds the mutex, is cut at every call of the
  system; the other two handlers touch nothing that threads share and stay whole. The theorems
  at the end show that a thread that runs alone does what \<open>Socket_Thread\<close> says, diverging runs
  included.
\<close>

section \<open>The places in \<open>sending_data\<close>\<close>

text \<open>
  \<open>AtSend fd buf n\<close> is the head of the inner loop, with \<open>n\<close> bytes of the block \<open>buf\<close> sent.
  \<open>AtFailedClose\<close> and \<open>AtFailedRelease\<close> are the clean-up of the error paths, whose results the
  code ignores.
\<close>

datatype send_pc =
    AtLock
  | AtOpen
  | AtWrite int
  | AtSeek int
  | AtRead int
  | AtSend int "byte list" int
  | AtClose int
  | AtRelease
  | AtFailedClose int
  | AtFailedRelease
  | Returned int

fun send_step :: "build \<Rightarrow> 'w sys \<Rightarrow> send_pc \<Rightarrow> 'w thread \<Rightarrow> fault + send_pc \<times> 'w thread" where
  "send_step cfg sys AtLock t =
     (let (rc, w) = get_file_mutex cfg sys (world t)
      in Inr (if rc = - 1 then Returned (- 1) else AtOpen, t\<lparr>world := w\<rparr>))"
| "send_step cfg sys AtOpen t =
     (let (f_fd, w) = open_file_for_read_write sys (world t)
      in Inr (if f_fd = - 1 then AtFailedRelease else AtWrite f_fd, t\<lparr>world := w\<rparr>))"
| "send_step cfg sys (AtWrite f_fd) t =
     bindE (mem_read (heap t) (bd_buffer (rb_data t)) 0 (unat (bd_size (rb_data t)))) (\<lambda>data.
       let (rc, w) = write_to_file sys f_fd data (world t)
       in if rc = - 1 then Inr (AtFailedClose f_fd, t\<lparr>world := w\<rparr>)
          else Inr (AtSeek f_fd, t\<lparr>rb_data := (rb_data t)\<lparr>bd_size := 0\<rparr>, world := w\<rparr>))"
| "send_step cfg sys (AtSeek f_fd) t =
     Inr (AtRead f_fd, t\<lparr>world := sys_lseek sys f_fd (world t)\<rparr>)"
| "send_step cfg sys (AtRead f_fd) t =
     (let ((bytes_read, send_buffer), w) = read_from_file sys f_fd SEND_BUFFER_SIZE (world t)
      in Inr (if bytes_read > 0 then AtSend f_fd send_buffer 0
              else if bytes_read = - 1 then AtFailedClose f_fd else AtClose f_fd, t\<lparr>world := w\<rparr>))"
| "send_step cfg sys (AtSend f_fd send_buffer total_bytes_sent) t =
     (if total_bytes_sent < int (length send_buffer)
      then
        let (sent_bytes, w) =
              sys_send sys (client_fd (t_data t)) (drop (nat total_bytes_sent) send_buffer) (world t)
        in Inr (if sent_bytes = - 1 then AtFailedClose f_fd
                else AtSend f_fd send_buffer (total_bytes_sent + sent_bytes), t\<lparr>world := w\<rparr>)
      else Inr (AtRead f_fd, t))"
| "send_step cfg sys (AtClose f_fd) t =
     (let (rc, w) = sys_close sys f_fd (world t)
      in Inr (if rc = - 1 then AtFailedRelease else AtRelease, t\<lparr>world := w\<rparr>))"
| "send_step cfg sys AtRelease t =
     (let (rc, w) = release_file_mutex cfg sys (world t); t1 = t\<lparr>world := w\<rparr>
      in if rc = - 1 then Inr (Returned (- 1), t1)
         else if bd_size (rb_new t1) > 0 then Inr (Returned 0, set_state ProcessingData t1)
         else Inr (Returned 0, set_state WaitingForData t1))"
| "send_step cfg sys (AtFailedClose f_fd) t =
     Inr (AtFailedRelease, t\<lparr>world := snd (sys_close sys f_fd (world t))\<rparr>)"
| "send_step cfg sys AtFailedRelease t =
     Inr (Returned (- 1), t\<lparr>world := snd (release_file_mutex cfg sys (world t))\<rparr>)"
| "send_step cfg sys (Returned rc) t = Inr (Returned rc, t)"

partial_function (option) send_run ::
  "build \<Rightarrow> 'w sys \<Rightarrow> send_pc \<Rightarrow> 'w thread \<Rightarrow> (fault + int \<times> 'w thread) option" where
  "send_run cfg sys pc t =
     (case pc of
        Returned rc \<Rightarrow> Some (Inr (rc, t))
      | _ \<Rightarrow>
          (case send_step cfg sys pc t of
             Inl f \<Rightarrow> Some (Inl f)
           | Inr (pc1, t1) \<Rightarrow> send_run cfg sys pc1 t1))"

lemma send_run_Returned [simp]: "send_run cfg sys (Returned rc) t = Some (Inr (rc, t))"
  by (subst send_run.simps) simp

lemma send_run_step:
  assumes "\<nexists>rc. pc = Returned rc"
  shows "send_run cfg sys pc t =
    (case send_step cfg sys pc t of Inl f \<Rightarrow> Some (Inl f) | Inr (pc1, t1) \<Rightarrow> send_run cfg sys pc1 t1)"
  using assms by (subst send_run.simps) (auto split: send_pc.splits)

section \<open>The two loops\<close>

lemma send_loop_run:
  assumes "send_loop sys fd buf n w = Some (b, w')" "world t = w" "client_fd (t_data t) = fd"
  shows "send_run cfg sys (AtSend f_fd buf n) t =
    send_run cfg sys (if b then AtRead f_fd else AtFailedClose f_fd) (t\<lparr>world := w'\<rparr>)"
proof -
  let ?P = "\<lambda>sys fd buf n w r. \<forall>t. world t = w \<longrightarrow> client_fd (t_data t) = fd \<longrightarrow>
    send_run cfg sys (AtSend f_fd buf n) t =
    send_run cfg sys (if fst r then AtRead f_fd else AtFailedClose f_fd) (t\<lparr>world := snd r\<rparr>)"
  have "?P sys fd buf n w (b, w')"
  proof (rule send_loop.raw_induct[where P = ?P, OF _ assms(1)], intro allI impI)
    fix f and sys :: "'a sys" and fd buf n w r and t :: "'a thread"
    assume IH: "\<And>sys fd buf n w r. f sys fd buf n w = Some r \<Longrightarrow> ?P sys fd buf n w r"
      and body: "(if n < int (length buf)
        then let (sent_bytes, w1) = sys_send sys fd (drop (nat n) buf) w
             in if sent_bytes = - 1 then Some (False, w1) else f sys fd buf (n + sent_bytes) w1
        else Some (True, w)) = Some r"
      and t: "world t = w" "client_fd (t_data t) = fd"
    show "send_run cfg sys (AtSend f_fd buf n) t =
      send_run cfg sys (if fst r then AtRead f_fd else AtFailedClose f_fd) (t\<lparr>world := snd r\<rparr>)"
    proof (cases "n < int (length buf)")
      case False
      moreover have "t = t\<lparr>world := world t\<rparr>" by (cases t) simp
      ultimately show ?thesis using body t by (subst send_run_step) auto
    next
      case True
      obtain m w1 where s: "sys_send sys fd (drop (nat n) buf) w = (m, w1)"
        by (cases "sys_send sys fd (drop (nat n) buf) w")
      show ?thesis
        using True body t s IH[of sys fd buf "n + m" w1 r]
        by (subst send_run_step) (auto split: if_splits)
    qed
  qed
  then show ?thesis using assms(2,3) by simp
qed

lemma read_send_loop_run:
  assumes "read_send_loop sys f_fd fd w = Some (res, w')" "world t = w" "client_fd (t_data t) = fd"
  shows "send_run cfg sys (AtRead f_fd) t =
    send_run cfg sys (if res = None \<or> res = Some (- 1) then AtFailedClose f_fd else AtClose f_fd)
      (t\<lparr>world := w'\<rparr>)"
proof -
  let ?P = "\<lambda>sys f_fd fd w r. \<forall>t. world t = w \<longrightarrow> client_fd (t_data t) = fd \<longrightarrow>
    send_run cfg sys (AtRead f_fd) t =
    send_run cfg sys (if fst r = None \<or> fst r = Some (- 1) then AtFailedClose f_fd else AtClose f_fd)
      (t\<lparr>world := snd r\<rparr>)"
  have "?P sys f_fd fd w (res, w')"
  proof (rule read_send_loop.raw_induct[where P = ?P, OF _ assms(1)], intro allI impI)
    fix f and sys :: "'a sys" and f_fd fd w r and t :: "'a thread"
    assume IH: "\<And>sys f_fd fd w r. f sys f_fd fd w = Some r \<Longrightarrow> ?P sys f_fd fd w r"
      and body: "(let ((bytes_read, send_buffer), w1) = read_from_file sys f_fd SEND_BUFFER_SIZE w
        in if bytes_read > 0
           then Option.bind (send_loop sys fd send_buffer 0 w1) (\<lambda>(sent, w2).
                  if sent then f sys f_fd fd w2 else Some (None, w2))
           else Some (Some bytes_read, w1)) = Some r"
      and t: "world t = w" "client_fd (t_data t) = fd"
    obtain n buf w1 where rd: "read_from_file sys f_fd SEND_BUFFER_SIZE w = ((n, buf), w1)"
      by (metis prod.exhaust)
    show "send_run cfg sys (AtRead f_fd) t =
      send_run cfg sys (if fst r = None \<or> fst r = Some (- 1) then AtFailedClose f_fd else AtClose f_fd)
        (t\<lparr>world := snd r\<rparr>)"
    proof (cases "n > 0")
      case False
      then show ?thesis using body t rd by (subst send_run_step) auto
    next
      case True
      then obtain b w2 where s: "send_loop sys fd buf 0 w1 = Some (b, w2)"
        "(if b then f sys f_fd fd w2 else Some (None, w2)) = Some r"
        using body rd by (auto simp: bind_eq_Some_conv)
      have "send_run cfg sys (AtRead f_fd) t = send_run cfg sys (AtSend f_fd buf 0) (t\<lparr>world := w1\<rparr>)"
        using True t rd by (subst send_run_step) auto
      also have "\<dots> = send_run cfg sys (if b then AtRead f_fd else AtFailedClose f_fd) (t\<lparr>world := w2\<rparr>)"
        using send_loop_run[OF s(1), of "t\<lparr>world := w1\<rparr>"] t(2) by simp
      also have "\<dots> = send_run cfg sys
          (if fst r = None \<or> fst r = Some (- 1) then AtFailedClose f_fd else AtClose f_fd) (t\<lparr>world := snd r\<rparr>)"
        using s(2) IH[of sys f_fd fd w2 r] t(2) by (cases b) (auto split: if_splits)
      finally show ?thesis .
    qed
  qed
  then show ?thesis using assms(2,3) by simp
qed

text \<open>A loop of the code that never ends is a run that never ends.\<close>

definition loops_return :: "'w sys \<Rightarrow> send_pc \<Rightarrow> 'w thread \<Rightarrow> bool" where
  "loops_return sys pc t \<longleftrightarrow>
     (case pc of
        AtSend f_fd buf n \<Rightarrow> (\<exists>b w. send_loop sys (client_fd (t_data t)) buf n (world t) = Some (b, w) \<and>
          (b \<longrightarrow> read_send_loop sys f_fd (client_fd (t_data t)) w \<noteq> None))
      | AtRead f_fd \<Rightarrow> read_send_loop sys f_fd (client_fd (t_data t)) (world t) \<noteq> None
      | _ \<Rightarrow> True)"

text \<open>They return if they return from the place after the next step.\<close>

lemma loops_step:
  assumes "\<And>pc1 t1. send_step cfg sys pc t = Inr (pc1, t1) \<Longrightarrow> loops_return sys pc1 t1"
  shows "loops_return sys pc t"
proof (cases pc)
  case (AtSend f_fd buf n)
  show ?thesis
  proof (cases "n < int (length buf)")
    case False
    then have "loops_return sys (AtRead f_fd) t" using assms AtSend by simp
    with False AtSend show ?thesis by (simp add: loops_return_def) (subst send_loop.simps, auto intro: exI[of _ True])
  next
    case True
    obtain m w1 where s: "sys_send sys (client_fd (t_data t)) (drop (nat n) buf) (world t) = (m, w1)"
      by (cases "sys_send sys (client_fd (t_data t)) (drop (nat n) buf) (world t)")
    have "m \<noteq> - 1 \<Longrightarrow> loops_return sys (AtSend f_fd buf (n + m)) (t\<lparr>world := w1\<rparr>)" using assms AtSend s True by simp
    with True s AtSend show ?thesis
      by (simp add: loops_return_def) (subst send_loop.simps, auto intro: exI[of _ False])
  qed
next
  case (AtRead f_fd)
  obtain n buf w1 where rd: "read_from_file sys f_fd SEND_BUFFER_SIZE (world t) = ((n, buf), w1)"
    by (metis prod.exhaust)
  have "n > 0 \<Longrightarrow> loops_return sys (AtSend f_fd buf 0) (t\<lparr>world := w1\<rparr>)" using assms AtRead rd by simp
  with rd AtRead show ?thesis by (simp add: loops_return_def) (subst read_send_loop.simps, auto)
qed (simp_all add: loops_return_def)

lemma loops_end:
  assumes "send_run cfg sys pc t = Some r"
  shows "loops_return sys pc t"
proof (rule send_run.raw_induct[where P = "\<lambda>(cfg :: build) sys pc t r. loops_return sys pc t", OF _ assms])
  fix f and cfg :: build and sys :: "'a sys" and pc and t :: "'a thread" and r
  assume IH: "\<And>cfg sys pc t r. f cfg sys pc t = Some r \<Longrightarrow> loops_return sys pc t"
    and body: "(case pc of
        Returned rc \<Rightarrow> Some (Inr (rc, t))
      | _ \<Rightarrow> (case send_step cfg sys pc t of Inl f \<Rightarrow> Some (Inl f) | Inr (pc1, t1) \<Rightarrow> f cfg sys pc1 t1)) = Some r"
  show "loops_return sys pc t"
  proof (cases "\<exists>rc. pc = Returned rc")
    case True
    then show ?thesis by (auto simp: loops_return_def)
  next
    case False
    then have body: "(case send_step cfg sys pc t of Inl f \<Rightarrow> Some (Inl f) | Inr (pc1, t1) \<Rightarrow> f cfg sys pc1 t1) = Some r"
      using body by (cases pc) simp_all
    show ?thesis by (rule loops_step[of cfg]) (use body IH in auto)
  qed
qed

lemma read_loop_run:
  "send_run cfg sys (AtRead f_fd) t =
    Option.bind (read_send_loop sys f_fd (client_fd (t_data t)) (world t)) (\<lambda>(res, w).
      send_run cfg sys (if res = None \<or> res = Some (- 1) then AtFailedClose f_fd else AtClose f_fd)
        (t\<lparr>world := w\<rparr>))"
proof (cases "read_send_loop sys f_fd (client_fd (t_data t)) (world t)")
  case None
  then have "send_run cfg sys (AtRead f_fd) t = None"
    using loops_end[of cfg sys "AtRead f_fd" t]
    by (cases "send_run cfg sys (AtRead f_fd) t") (auto simp: loops_return_def)
  with None show ?thesis by simp
next
  case (Some r)
  then show ?thesis using read_send_loop_run[of sys f_fd _ _ _ _ t] by (cases r) simp
qed

section \<open>The machine is the function\<close>

lemma sending_data_run: "send_run cfg sys AtLock t = sending_data cfg sys t"
proof -
  have rel: "send_run cfg sys AtFailedRelease t = Some (Inr (- 1, t\<lparr>world := snd (release_file_mutex cfg sys (world t))\<rparr>))" for t
    by (subst send_run_step) simp_all
  have fc: "send_run cfg sys (AtFailedClose fd) t = Some (Inr (- 1, t\<lparr>world := close_and_release cfg sys fd (world t)\<rparr>))" for t fd
    by (subst send_run_step) (simp_all add: rel close_and_release_def)
  have re: "send_run cfg sys AtRelease t =
      (let (rrc, w7) = release_file_mutex cfg sys (world t); t2 = t\<lparr>world := w7\<rparr>
       in if rrc = - 1 then Some (Inr (- 1, t2))
          else if bd_size (rb_new t2) > 0 then Some (Inr (0, set_state ProcessingData t2))
          else Some (Inr (0, set_state WaitingForData t2)))" for t
    by (subst send_run_step) (auto simp: Let_def split: prod.splits)
  have cl: "send_run cfg sys (AtClose fd) t =
      (let (crc, w6) = sys_close sys fd (world t)
       in if crc = - 1 then Some (Inr (- 1, t\<lparr>world := snd (release_file_mutex cfg sys w6)\<rparr>))
          else send_run cfg sys AtRelease (t\<lparr>world := w6\<rparr>))" for t fd
    by (subst send_run_step) (auto simp: rel split: prod.splits)
  have tail: "send_run cfg sys (AtSeek fd) t =
      Option.bind (read_send_loop sys fd (client_fd (t_data t)) (sys_lseek sys fd (world t))) (\<lambda>(res, w5).
        if res = None \<or> res = Some (- 1) then Some (Inr (- 1, t\<lparr>world := close_and_release cfg sys fd w5\<rparr>))
        else send_run cfg sys (AtClose fd) (t\<lparr>world := w5\<rparr>))" for t fd
    by (subst send_run_step) (auto simp: read_loop_run fc intro!: bind_option_cong)
  have wr: "send_run cfg sys (AtWrite fd) t =
      (case mem_read (heap t) (bd_buffer (rb_data t)) 0 (unat (bd_size (rb_data t))) of
         Inl f \<Rightarrow> Some (Inl f)
       | Inr data \<Rightarrow>
           let (wrc, w3) = write_to_file sys fd data (world t)
           in if wrc = - 1 then Some (Inr (- 1, t\<lparr>world := close_and_release cfg sys fd w3\<rparr>))
              else send_run cfg sys (AtSeek fd) (t\<lparr>rb_data := (rb_data t)\<lparr>bd_size := 0\<rparr>, world := w3\<rparr>))" for t fd
    by (subst send_run_step) (auto simp: fc split: sum.splits prod.splits)
  have op: "send_run cfg sys AtOpen t =
      (let (fd, w2) = open_file_for_read_write sys (world t)
       in if fd = - 1 then Some (Inr (- 1, t\<lparr>world := snd (release_file_mutex cfg sys w2)\<rparr>))
          else send_run cfg sys (AtWrite fd) (t\<lparr>world := w2\<rparr>))" for t
    by (subst send_run_step) (auto simp: rel split: prod.splits)
  show ?thesis
    by (subst send_run_step)
      (auto simp: sending_data_def op wr tail cl re Let_def split: prod.splits sum.splits intro!: bind_option_cong)
qed


section \<open>The whole thread\<close>

text \<open>
  \<open>AtTop\<close> is the head of the loop in \<open>main_loop_thread\<close>, \<open>Ended\<close> its return after the buffers
  were freed. \<open>InSending keep pc\<close> is inside \<open>sending_data\<close>, with the loop flag \<open>keep\<close> of this pass.
\<close>

datatype thread_pc = AtTop | InSending bool send_pc | Ended

definition leave_pass :: "bool \<Rightarrow> 'w thread \<Rightarrow> fault + thread_pc \<times> 'w thread" where
  "leave_pass keep t =
     (if keep then Inr (AtTop, t) else bindE (thread_cleanup t) (\<lambda>t1. Inr (Ended, t1)))"

definition thread_small_step ::
  "build \<Rightarrow> 'w sys \<Rightarrow> thread_pc \<Rightarrow> 'w thread \<Rightarrow> (fault + thread_pc \<times> 'w thread) option" where
  "thread_small_step cfg sys pc t =
     (case pc of
        AtTop \<Rightarrow>
          let (caught_signal, w1) = sys_signal sys (world t);
              t1 = t\<lparr>world := w1\<rparr>;
              keep = (\<not> caught_signal)
          in (case thread_state (t_data t1) of
                WaitingForData \<Rightarrow>
                  map_option (\<lambda>r. bindE r (\<lambda>x. leave_pass keep (close_on_error x))) (waiting_for_data sys t1)
              | ProcessingData \<Rightarrow>
                  Some (bindE (process_received_data t1) (\<lambda>x. leave_pass keep (close_on_error x)))
              | SendingData \<Rightarrow> Some (Inr (InSending keep AtLock, t1))
              | ClosedConnection \<Rightarrow> Some (leave_pass False t1))
      | InSending keep (Returned rc) \<Rightarrow> Some (leave_pass keep (close_on_error (rc, t)))
      | InSending keep spc \<Rightarrow>
          Some (bindE (send_step cfg sys spc t) (\<lambda>(spc1, t1). Inr (InSending keep spc1, t1)))
      | Ended \<Rightarrow> Some (Inr (Ended, t)))"

partial_function (option) thread_run ::
  "build \<Rightarrow> 'w sys \<Rightarrow> thread_pc \<Rightarrow> 'w thread \<Rightarrow> (fault + 'w thread) option" where
  "thread_run cfg sys pc t =
     (if pc = Ended then Some (Inr t)
      else Option.bind (thread_small_step cfg sys pc t) (\<lambda>r.
        case r of
          Inl f \<Rightarrow> Some (Inl f)
        | Inr (pc1, t1) \<Rightarrow> thread_run cfg sys pc1 t1))"

text \<open>What \<open>main_loop_thread\<close> does before its loop.\<close>

definition begin_thread :: "'w sys \<Rightarrow> ThreadData \<Rightarrow> memory \<Rightarrow> 'w \<Rightarrow> fault + 'w thread" where
  "begin_thread sys thread_param h w =
     (let (ok1, w1) = sys_alloc_struct sys w
      in if \<not> ok1 then Inl NullDeref
         else
           let (ok2, w2) = sys_alloc_struct sys w1
           in if \<not> ok2 then Inl NullDeref
              else
                let (ans, w3) = sys_alloc sys h (unat RECV_BUFFER_TEMP_SIZE) w2;
                    (buf, h1) = mem_alloc h ans
                in Inr \<lparr>t_data = thread_param,
                        rb_data = \<lparr>bd_buffer = None, bd_size = 0, bd_allocated = 0\<rparr>,
                        rb_new = \<lparr>bd_buffer = buf, bd_size = 0, bd_allocated = RECV_BUFFER_TEMP_SIZE\<rparr>,
                        heap = h1, world = w3\<rparr>)"

lemma thread_run_Ended [simp]: "thread_run cfg sys Ended t = Some (Inr t)"
  by (subst thread_run.simps) simp

lemma thread_run_step:
  assumes "pc \<noteq> Ended"
  shows "thread_run cfg sys pc t = Option.bind (thread_small_step cfg sys pc t) (\<lambda>r.
    case r of Inl f \<Rightarrow> Some (Inl f) | Inr (pc1, t1) \<Rightarrow> thread_run cfg sys pc1 t1)"
  using assms by (subst thread_run.simps) simp

lemma small_step_InSending:
  "thread_small_step cfg sys (InSending keep pc) t =
     (case pc of
        Returned rc \<Rightarrow> Some (leave_pass keep (close_on_error (rc, t)))
      | _ \<Rightarrow> Some (bindE (send_step cfg sys pc t) (\<lambda>(pc1, t1). Inr (InSending keep pc1, t1))))"
  by (cases pc) (simp_all add: thread_small_step_def)

text \<open>How a pass goes on after its handler.\<close>

definition after_pass ::
  "build \<Rightarrow> 'w sys \<Rightarrow> bool \<Rightarrow> fault + int \<times> 'w thread \<Rightarrow> (fault + 'w thread) option" where
  "after_pass cfg sys keep r =
     (case bindE r (\<lambda>x. leave_pass keep (close_on_error x)) of
        Inl f \<Rightarrow> Some (Inl f)
      | Inr (pc1, t1) \<Rightarrow> thread_run cfg sys pc1 t1)"

lemma run_Returned:
  "thread_run cfg sys (InSending keep (Returned rc)) t = after_pass cfg sys keep (Inr (rc, t))"
  by (subst thread_run_step) (simp_all add: small_step_InSending after_pass_def)

lemma sending_ends:
  assumes "send_run cfg sys pc t = Some r"
  shows "thread_run cfg sys (InSending keep pc) t = after_pass cfg sys keep r"
proof (rule send_run.raw_induct[where
      P = "\<lambda>cfg sys pc t r. thread_run cfg sys (InSending keep pc) t = after_pass cfg sys keep r", OF _ assms])
  fix f and cfg :: build and sys :: "'a sys" and pc and t :: "'a thread" and r
  assume IH: "\<And>cfg sys pc t r. f cfg sys pc t = Some r \<Longrightarrow>
      thread_run cfg sys (InSending keep pc) t = after_pass cfg sys keep r"
    and body: "(case pc of
        Returned rc \<Rightarrow> Some (Inr (rc, t))
      | _ \<Rightarrow> (case send_step cfg sys pc t of Inl f \<Rightarrow> Some (Inl f) | Inr (pc1, t1) \<Rightarrow> f cfg sys pc1 t1)) = Some r"
  show "thread_run cfg sys (InSending keep pc) t = after_pass cfg sys keep r"
  proof (cases "\<exists>rc. pc = Returned rc")
    case True
    then show ?thesis using body by (auto simp: run_Returned)
  next
    case False
    then have b: "(case send_step cfg sys pc t of Inl f \<Rightarrow> Some (Inl f) | Inr (pc1, t1) \<Rightarrow> f cfg sys pc1 t1) = Some r"
      using body by (cases pc) simp_all
    have "thread_small_step cfg sys (InSending keep pc) t =
        Some (bindE (send_step cfg sys pc t) (\<lambda>(pc1, t1). Inr (InSending keep pc1, t1)))"
      using False by (cases pc) (simp_all add: small_step_InSending)
    then show ?thesis using b IH
      by (subst thread_run_step) (auto simp: after_pass_def split: sum.splits)
  qed
qed

lemma thread_loop_run:
  assumes "thread_loop cfg sys t = Some r"
  shows "thread_run cfg sys AtTop t = Some (bindE r thread_cleanup)"
proof (rule thread_loop.raw_induct[where
      P = "\<lambda>cfg sys t r. thread_run cfg sys AtTop t = Some (bindE r thread_cleanup)", OF _ assms])
  fix f and cfg :: build and sys :: "'a sys" and t :: "'a thread" and r
  assume IH: "\<And>cfg sys t r. f cfg sys t = Some r \<Longrightarrow>
      thread_run cfg sys AtTop t = Some (bindE r thread_cleanup)"
    and body: "Option.bind (thread_step cfg sys t) (\<lambda>r. case r of Inl f \<Rightarrow> Some (Inl f)
      | Inr (keep, t1) \<Rightarrow> if keep then f cfg sys t1 else Some (Inr t1)) = Some r"
  obtain b w1 where sg: "sys_signal sys (world t) = (b, w1)" by (cases "sys_signal sys (world t)")
  let ?t1 = "t\<lparr>world := w1\<rparr>"
  have handler: "after_pass cfg sys (\<not> b) h = Some (bindE r thread_cleanup)"
    if "(case bindE h (\<lambda>x. Inr (\<not> b, close_on_error x)) of Inl f \<Rightarrow> Some (Inl f)
      | Inr (keep, t1) \<Rightarrow> if keep then f cfg sys t1 else Some (Inr t1)) = Some r" for h
    using that IH by (cases h; cases b) (auto simp: after_pass_def leave_pass_def bindE_def split: sum.splits)
  show "thread_run cfg sys AtTop t = Some (bindE r thread_cleanup)"
  proof (cases "thread_state (t_data t)")
    case SendingData
    then obtain h where h: "sending_data cfg sys ?t1 = Some h"
      "(case bindE h (\<lambda>x. Inr (\<not> b, close_on_error x)) of Inl f \<Rightarrow> Some (Inl f)
        | Inr (keep, t1) \<Rightarrow> if keep then f cfg sys t1 else Some (Inr t1)) = Some r"
      using body sg by (auto simp: thread_step_def bind_eq_Some_conv)
    have "thread_run cfg sys AtTop t = thread_run cfg sys (InSending (\<not> b) AtLock) ?t1"
      using SendingData sg by (subst thread_run_step) (simp_all add: thread_small_step_def)
    also have "\<dots> = after_pass cfg sys (\<not> b) h"
      using h(1) by (intro sending_ends) (simp add: sending_data_run)
    finally show ?thesis using handler[OF h(2)] by simp
  next
    case WaitingForData
    then obtain h where h: "waiting_for_data sys ?t1 = Some h"
      "(case bindE h (\<lambda>x. Inr (\<not> b, close_on_error x)) of Inl f \<Rightarrow> Some (Inl f)
        | Inr (keep, t1) \<Rightarrow> if keep then f cfg sys t1 else Some (Inr t1)) = Some r"
      using body sg by (auto simp: thread_step_def bind_eq_Some_conv)
    have "thread_run cfg sys AtTop t = after_pass cfg sys (\<not> b) h"
      using WaitingForData sg h(1) by (subst thread_run_step) (simp_all add: thread_small_step_def after_pass_def)
    then show ?thesis using handler[OF h(2)] by simp
  next
    case ProcessingData
    let ?h = "process_received_data ?t1"
    have "(case bindE ?h (\<lambda>x. Inr (\<not> b, close_on_error x)) of Inl f \<Rightarrow> Some (Inl f)
        | Inr (keep, t1) \<Rightarrow> if keep then f cfg sys t1 else Some (Inr t1)) = Some r"
      using body sg ProcessingData by (simp add: thread_step_def)
    moreover have "thread_run cfg sys AtTop t = after_pass cfg sys (\<not> b) ?h"
      using ProcessingData sg by (subst thread_run_step) (simp_all add: thread_small_step_def after_pass_def)
    ultimately show ?thesis using handler[of ?h] by simp
  next
    case ClosedConnection
    then show ?thesis using body sg
      by (subst thread_run_step)
        (auto simp: thread_step_def thread_small_step_def leave_pass_def bindE_def split: sum.splits)
  qed
qed

text \<open>Conversely, a machine that ends has come out of every loop of the code.\<close>

definition loop_ends :: "build \<Rightarrow> 'w sys \<Rightarrow> thread_pc \<Rightarrow> 'w thread \<Rightarrow> bool" where
  "loop_ends cfg sys pc t \<longleftrightarrow>
     (case pc of
        AtTop \<Rightarrow> thread_loop cfg sys t \<noteq> None
      | InSending keep spc \<Rightarrow> (\<exists>x. send_run cfg sys spc t = Some x \<and>
          (\<forall>y. x = Inr y \<and> keep \<longrightarrow> thread_loop cfg sys (close_on_error y) \<noteq> None))
      | Ended \<Rightarrow> True)"

lemma leave_ends:
  assumes "\<And>pc1 t1. leave_pass keep (close_on_error x) = Inr (pc1, t1) \<Longrightarrow> loop_ends cfg sys pc1 t1" keep
  shows "thread_loop cfg sys (close_on_error x) \<noteq> None"
  using assms(1)[of AtTop "close_on_error x"] assms(2) by (simp add: leave_pass_def loop_ends_def)

lemma top_ends:
  assumes "thread_small_step cfg sys AtTop t = Some q"
    "\<And>pc1 t1. q = Inr (pc1, t1) \<Longrightarrow> loop_ends cfg sys pc1 t1"
  shows "thread_loop cfg sys t \<noteq> None"
proof -
  obtain b w1 where sg: "sys_signal sys (world t) = (b, w1)" by (cases "sys_signal sys (world t)")
  let ?t1 = "t\<lparr>world := w1\<rparr>"
  have leave: "thread_loop cfg sys (close_on_error x) \<noteq> None"
    if "q = leave_pass (\<not> b) (close_on_error x)" "\<not> b" for x
    using leave_ends[of "\<not> b" x cfg sys] assms(2) that by simp
  show ?thesis
  proof (cases "thread_state (t_data t)")
    case SendingData
    with assms sg have "loop_ends cfg sys (InSending (\<not> b) AtLock) ?t1" by (simp add: thread_small_step_def)
    then obtain x where "sending_data cfg sys ?t1 = Some x"
      "\<forall>y. x = Inr y \<and> \<not> b \<longrightarrow> thread_loop cfg sys (close_on_error y) \<noteq> None"
      by (auto simp: sending_data_run loop_ends_def)
    with SendingData sg show ?thesis
      by (subst thread_loop.simps) (auto simp: thread_step_def bindE_def split: sum.splits)
  next
    case WaitingForData
    with assms(1) sg obtain x where "waiting_for_data sys ?t1 = Some x"
      "q = bindE x (\<lambda>x. leave_pass (\<not> b) (close_on_error x))"
      by (auto simp: thread_small_step_def)
    with WaitingForData sg leave show ?thesis
      by (subst thread_loop.simps) (auto simp: thread_step_def bindE_def split: sum.splits)
  next
    case ProcessingData
    with assms(1) sg have "q = bindE (process_received_data ?t1) (\<lambda>x. leave_pass (\<not> b) (close_on_error x))"
      by (simp add: thread_small_step_def)
    with ProcessingData sg leave show ?thesis
      by (subst thread_loop.simps) (auto simp: thread_step_def bindE_def split: sum.splits)
  next
    case ClosedConnection
    with sg show ?thesis by (subst thread_loop.simps) (simp add: thread_step_def)
  qed
qed

lemma sending_ends_too:
  assumes "thread_small_step cfg sys (InSending keep spc) t = Some q"
    "\<And>pc1 t1. q = Inr (pc1, t1) \<Longrightarrow> loop_ends cfg sys pc1 t1"
  shows "loop_ends cfg sys (InSending keep spc) t"
proof (cases "\<exists>rc. spc = Returned rc")
  case True
  then obtain rc where "spc = Returned rc" by blast
  with assms leave_ends[of keep "(rc, t)" cfg sys] show ?thesis
    by (auto simp: small_step_InSending loop_ends_def)
next
  case False
  then have "q = bindE (send_step cfg sys spc t) (\<lambda>(pc1, t1). Inr (InSending keep pc1, t1))"
    using assms(1) by (cases spc) (simp_all add: small_step_InSending)
  with assms(2) False show ?thesis
    by (cases "send_step cfg sys spc t") (auto simp: send_run_step loop_ends_def)
qed

lemma thread_run_loop_ends:
  assumes "thread_run cfg sys pc t = Some r"
  shows "loop_ends cfg sys pc t"
proof (rule thread_run.raw_induct[where P = "\<lambda>cfg sys pc t _. loop_ends cfg sys pc t", OF _ assms])
  fix f and cfg :: build and sys :: "'a sys" and pc and t :: "'a thread" and r
  assume IH: "\<And>cfg sys pc t r. f cfg sys pc t = Some r \<Longrightarrow> loop_ends cfg sys pc t"
    and body: "(if pc = Ended then Some (Inr t)
      else Option.bind (thread_small_step cfg sys pc t) (\<lambda>r. case r of Inl f \<Rightarrow> Some (Inl f)
        | Inr (pc1, t1) \<Rightarrow> f cfg sys pc1 t1)) = Some r"
  show "loop_ends cfg sys pc t"
  proof (cases "pc = Ended")
    case False
    with body obtain q where q: "thread_small_step cfg sys pc t = Some q"
      "(case q of Inl f \<Rightarrow> Some (Inl f) | Inr (pc1, t1) \<Rightarrow> f cfg sys pc1 t1) = Some r"
      by (auto simp: bind_eq_Some_conv)
    have "\<And>pc1 t1. q = Inr (pc1, t1) \<Longrightarrow> loop_ends cfg sys pc1 t1" using q(2) IH by simp
    with q(1) False show ?thesis
      using top_ends sending_ends_too by (cases pc) (simp add: loop_ends_def, blast+)
  qed (simp add: loop_ends_def)
qed

lemma thread_run_loop:
  "thread_run cfg sys AtTop t =
    Option.bind (thread_loop cfg sys t) (\<lambda>r. Some (bindE r thread_cleanup))"
proof (cases "thread_loop cfg sys t")
  case None
  then have "thread_run cfg sys AtTop t = None"
    using thread_run_loop_ends[of cfg sys AtTop t] by (cases "thread_run cfg sys AtTop t") (auto simp: loop_ends_def)
  with None show ?thesis by simp
next
  case (Some r)
  then show ?thesis by (simp add: thread_loop_run)
qed

text \<open>
  C20. Cut at every call, the thread computes what the translated function computes: the run of
  the machine from the state that the first lines of \<open>main_loop_thread\<close> leave has the result of
  \<open>main_loop_thread\<close> for every system, build and client, and it goes on for ever exactly when the
  function does.
\<close>

theorem small_steps_are_the_thread:
  "main_loop_thread cfg sys d h w =
    (case begin_thread sys d h w of
       Inl f \<Rightarrow> Some (Inl f)
     | Inr t \<Rightarrow> thread_run cfg sys AtTop t)"
  by (auto simp: main_loop_thread_def begin_thread_def thread_run_loop Let_def split: prod.splits)

end
