(* ===== verification/Socket_Buffers.thy ===== *)
theory Socket_Buffers
  imports Socket_Thread
begin

text \<open>
  The two buffers of a server thread: what makes them well formed, the bytes they hold, and what
  \<open>process_received_data\<close> and the growing of the receive buffer do to them. The packets of a
  byte stream are defined here too.
\<close>

section \<open>Packets of a byte stream\<close>

text \<open>
  The packets of a stream, when \<open>acc\<close> of the current packet has been read already, and the bytes
  left over after the last of them.
\<close>

fun split_packets :: "byte list \<Rightarrow> byte list \<Rightarrow> byte list list \<times> byte list" where
  "split_packets acc [] = ([], acc)"
| "split_packets acc (b # bs) =
     (if b = newline
      then let (ps, rest) = split_packets [] bs in ((acc @ [b]) # ps, rest)
      else split_packets (acc @ [b]) bs)"

definition packets :: "byte list \<Rightarrow> byte list \<Rightarrow> byte list list" where
  "packets acc bs = fst (split_packets acc bs)"

lemma packets_Nil [simp]: "packets acc [] = []"
  by (simp add: packets_def)

lemma packets_no_end: "newline \<notin> set us \<Longrightarrow> packets acc (us @ bs) = packets (acc @ us) bs"
  by (induction us arbitrary: acc) (auto simp: packets_def)

lemma packets_end:
  "newline \<notin> set us \<Longrightarrow> packets acc (us @ newline # bs) = (acc @ us @ [newline]) # packets [] bs"
  by (simp add: packets_no_end) (simp add: packets_def split: prod.splits)

lemma split_packets_concat:
  "split_packets acc bs = (ps, rest) \<Longrightarrow> concat ps @ rest = acc @ bs"
  by (induction acc bs arbitrary: ps rest rule: split_packets.induct)
     (auto split: if_splits prod.splits)

lemma split_packets_shape:
  "split_packets acc bs = (ps, rest) \<Longrightarrow> newline \<notin> set acc \<Longrightarrow>
   (\<forall>p \<in> set ps. \<exists>q. p = q @ [newline] \<and> newline \<notin> set q) \<and> newline \<notin> set rest"
  by (induction acc bs arbitrary: ps rest rule: split_packets.induct)
     (auto split: if_splits prod.splits)

lemma packets_line: "newline \<notin> set q \<Longrightarrow> packets [] ((q @ [newline]) @ bs) = (q @ [newline]) # packets [] bs"
  using packets_end[of q "[]" bs] by simp

lemma packets_concat:
  "\<forall>p \<in> set ps. \<exists>q. p = q @ [newline] \<and> newline \<notin> set q \<Longrightarrow> packets [] (concat ps) = ps"
  by (induction ps) (auto simp: packets_end)

section \<open>Well-formed buffers\<close>

definition buffer_ok :: "memory \<Rightarrow> BufferData \<Rightarrow> bool" where
  "buffer_ok h b \<longleftrightarrow> bd_size b \<le> bd_allocated b \<and>
     (case bd_buffer b of
        None \<Rightarrow> bd_size b = 0
      | Some a \<Rightarrow> \<exists>blk. h a = Some blk \<and> length blk = unat (bd_allocated b))"

definition filled :: "memory \<Rightarrow> BufferData \<Rightarrow> byte list" where
  "filled h b =
     (case bd_buffer b of None \<Rightarrow> [] | Some a \<Rightarrow> take (unat (bd_size b)) (the (h a)))"

lemma buffer_okE:
  assumes "buffer_ok h b" "bd_buffer b = Some a"
  obtains blk where "h a = Some blk" "length blk = unat (bd_allocated b)"
    "unat (bd_size b) \<le> length blk" "filled h b = take (unat (bd_size b)) blk"
  using assms by (auto simp: buffer_ok_def filled_def word_le_nat_alt)

lemma length_filled: "buffer_ok h b \<Longrightarrow> length (filled h b) = unat (bd_size b)"
  by (auto simp: buffer_ok_def filled_def word_le_nat_alt split: option.splits)

lemma buffer_upd_other:
  assumes "bd_buffer b \<noteq> Some a"
  shows "buffer_ok (h(a := x)) b = buffer_ok h b" "filled (h(a := x)) b = filled h b"
  using assms by (auto simp: buffer_ok_def filled_def split: option.splits)

abbreviation received :: "'w thread \<Rightarrow> byte list" where
  "received t \<equiv> filled (heap t) (rb_data t)"

abbreviation unread :: "'w thread \<Rightarrow> byte list" where
  "unread t \<equiv> filled (heap t) (rb_new t)"

text \<open>
  Both buffers of a thread, between the handlers: the receive buffer has room for what is still
  unread, and it is NULL only as long as it is empty.
\<close>

definition buffers_ok :: "'w thread \<Rightarrow> bool" where
  "buffers_ok t \<longleftrightarrow>
     buffer_ok (heap t) (rb_data t) \<and> buffer_ok (heap t) (rb_new t) \<and>
     (bd_buffer (rb_data t) = None \<longrightarrow> bd_allocated (rb_data t) = 0) \<and>
     bd_allocated (rb_new t) = RECV_BUFFER_TEMP_SIZE \<and>
     unat (bd_size (rb_data t)) + unat (bd_size (rb_new t)) \<le> unat (bd_allocated (rb_data t))"

text \<open>Which blocks of the memory the thread has added to the memory \<open>h0\<close> it started with.\<close>

definition owns :: "memory \<Rightarrow> 'w thread \<Rightarrow> bool" where
  "owns h0 t \<longleftrightarrow>
     (bd_buffer (rb_data t) = bd_buffer (rb_new t) \<longrightarrow> bd_buffer (rb_data t) = None) \<and>
     (\<forall>a. (bd_buffer (rb_data t) = Some a \<or> bd_buffer (rb_new t) = Some a) \<longrightarrow>
        h0 a = None \<and> heap t a \<noteq> None) \<and>
     (\<forall>a. bd_buffer (rb_data t) \<noteq> Some a \<and> bd_buffer (rb_new t) \<noteq> Some a \<longrightarrow> heap t a = h0 a)"

lemma owns_finite:
  assumes "owns h0 t" "finite (dom h0)"
  shows "finite (dom (heap t))"
proof -
  have "dom (heap t) \<subseteq> dom h0 \<union> set_option (bd_buffer (rb_data t)) \<union> set_option (bd_buffer (rb_new t))"
  proof
    fix a assume "a \<in> dom (heap t)"
    then show "a \<in> dom h0 \<union> set_option (bd_buffer (rb_data t)) \<union> set_option (bd_buffer (rb_new t))"
      using assms(1)
      by (cases "bd_buffer (rb_data t) = Some a \<or> bd_buffer (rb_new t) = Some a") (auto simp: owns_def)
  qed
  moreover have "finite (set_option (p :: ptr))" for p by (cases p) simp_all
  ultimately show ?thesis using assms(2) by (simp add: finite_subset)
qed

lemma thread_cleanup_restores:
  assumes "owns h0 t"
  shows "thread_cleanup t = Inr (t\<lparr>heap := h0\<rparr>)"
proof -
  have "heap t = h0" if "bd_buffer (rb_data t) = None" "bd_buffer (rb_new t) = None"
    using assms that by (auto simp: owns_def)
  moreover have "(heap t)(a := None) = h0"
    if "bd_buffer (rb_data t) = Some a \<and> bd_buffer (rb_new t) = None \<or>
        bd_buffer (rb_data t) = None \<and> bd_buffer (rb_new t) = Some a" for a
    using assms that by (auto simp: owns_def)
  moreover have "(heap t)(a := None, b := None) = h0 \<and> a \<noteq> b"
    if "bd_buffer (rb_data t) = Some a" "bd_buffer (rb_new t) = Some b" for a b
    using assms that by (auto simp: owns_def)
  moreover have "heap t a \<noteq> None"
    if "bd_buffer (rb_data t) = Some a \<or> bd_buffer (rb_new t) = Some a" for a
    using assms that by (auto simp: owns_def)
  moreover have "t = t\<lparr>heap := heap t\<rparr>" by (cases t) simp
  ultimately show ?thesis
    by (cases "bd_buffer (rb_data t)"; cases "bd_buffer (rb_new t)")
       (fastforce simp: thread_cleanup_def mem_free_def split: option.splits)+
qed

section \<open>Processing the received bytes\<close>

lemma find_packet_end_spec:
  assumes "h a = Some blk" "sz \<le> length blk" "i \<le> sz"
  defines "us \<equiv> takeWhile (\<lambda>c. c \<noteq> newline) (drop i (take sz blk))"
  shows "find_packet_end h (Some a) sz i = Inr (i + length us < sz, i + length us)"
  using assms(1-3) unfolding us_def
proof (induction "sz - i" arbitrary: i)
  case 0
  then show ?case by (simp add: find_packet_end.simps)
next
  case (Suc k)
  then have i: "i < sz" "i < length blk" by simp_all
  have d: "drop i (take sz blk) = blk ! i # drop (Suc i) (take sz blk)"
    using i by (simp add: Cons_nth_drop_Suc[symmetric])
  have r: "mem_read h (Some a) i 1 = Inr [blk ! i]"
    using i Suc.prems by (simp add: mem_read_Some take_Suc_conv_app_nth hd_drop_conv_nth take_Suc)
  show ?case
  proof (cases "blk ! i = newline")
    case True
    then show ?thesis using i d r by (subst find_packet_end.simps) simp
  next
    case False
    moreover have "find_packet_end h (Some a) sz (Suc i) =
        Inr (Suc i + length (takeWhile (\<lambda>c. c \<noteq> newline) (drop (Suc i) (take sz blk))) < sz,
             Suc i + length (takeWhile (\<lambda>c. c \<noteq> newline) (drop (Suc i) (take sz blk))))"
      using Suc.hyps i Suc.prems by (intro Suc.hyps(1)) auto
    ultimately show ?thesis using i d r by (subst find_packet_end.simps) simp
  qed
qed

lemma mem_copy_blocks:
  assumes "h a = Some A" "h b = Some B" "s + n \<le> length A" "off + n \<le> length B"
  shows "mem_copy h (Some a) s (Some b) off n =
    Inr (h(a \<mapsto> take s A @ take n (drop off B) @ drop (s + n) A))"
proof -
  have "length (take n (drop off B)) = n" using assms(4) by simp
  then show ?thesis using assms by (simp add: mem_copy_def mem_read_Some mem_write_Some)
qed

lemma takeWhile_split:
  assumes "newline \<in> set xs"
  obtains us vs where "xs = us @ newline # vs" "newline \<notin> set us"
    "takeWhile (\<lambda>c. c \<noteq> newline) xs = us"
proof -
  obtain us vs where x: "xs = us @ newline # vs" "newline \<notin> set us"
    using split_list_first[OF assms] by blast
  then have "takeWhile (\<lambda>c. c \<noteq> newline) xs = us"
    by (metis (mono_tags, lifting) append_Nil2 takeWhile_append2 takeWhile.simps(2))
  with x show thesis using that by blast
qed

text \<open>
  The buffers of a thread with something unread, with the sizes as natural numbers: \<open>A\<close> and
  \<open>B\<close> are the blocks, \<open>s\<close> and \<open>n\<close> the numbers of bytes in use.
\<close>

lemma buffers_okE:
  assumes "buffers_ok t" "owns h0 t" "0 < bd_size (rb_new t)"
  obtains a b A B where "bd_buffer (rb_data t) = Some a" "bd_buffer (rb_new t) = Some b" "a \<noteq> b"
    "heap t a = Some A" "heap t b = Some B"
    "length A = unat (bd_allocated (rb_data t))" "length B = unat (bd_allocated (rb_new t))"
    "unat (bd_size (rb_data t)) + unat (bd_size (rb_new t)) \<le> length A"
    "unat (bd_size (rb_new t)) \<le> length B" "0 < unat (bd_size (rb_new t))"
    "received t = take (unat (bd_size (rb_data t))) A" "unread t = take (unat (bd_size (rb_new t))) B"
proof -
  have pos: "0 < unat (bd_size (rb_new t))"
    using assms(3) by (simp add: unat_gt_0 word_gt_0)
  obtain b where b: "bd_buffer (rb_new t) = Some b"
    using assms(1) pos by (auto simp: buffers_ok_def buffer_ok_def split: option.splits)
  obtain a where a: "bd_buffer (rb_data t) = Some a"
    using assms(1) pos by (cases "bd_buffer (rb_data t)") (auto simp: buffers_ok_def)
  have "a \<noteq> b" using assms(2) a b by (auto simp: owns_def)
  moreover obtain A where "heap t a = Some A" "length A = unat (bd_allocated (rb_data t))"
    "unat (bd_size (rb_data t)) \<le> length A" "received t = take (unat (bd_size (rb_data t))) A"
    using assms(1) a by (auto simp: buffers_ok_def elim: buffer_okE)
  moreover obtain B where "heap t b = Some B" "length B = unat (bd_allocated (rb_new t))"
    "unat (bd_size (rb_new t)) \<le> length B" "unread t = take (unat (bd_size (rb_new t))) B"
    using assms(1) b by (auto simp: buffers_ok_def elim: buffer_okE)
  moreover have "unat (bd_size (rb_data t)) + unat (bd_size (rb_new t)) \<le> unat (bd_allocated (rb_data t))"
    using assms(1) by (simp add: buffers_ok_def)
  ultimately show thesis using a b pos that by simp
qed

text \<open>The state after \<open>k\<close> unread bytes moved to the receive buffer, as lists.\<close>

lemma moved_buffers_ok:
  assumes "owns h0 t" "buffers_ok t"
    and bufs: "bd_buffer (rb_data t) = Some a" "bd_buffer (rb_new t) = Some b" "a \<noteq> b"
    and lens: "length A' = unat (bd_allocated (rb_data t))" "length B' = unat (bd_allocated (rb_new t))"
      "unat s' + unat n' \<le> length A'" "unat n' \<le> length B'"
    and t': "t' = t\<lparr>t_data := d, heap := (heap t)(a \<mapsto> A', b \<mapsto> B'), rb_data := (rb_data t)\<lparr>bd_size := s'\<rparr>,
      rb_new := (rb_new t)\<lparr>bd_size := n'\<rparr>\<rparr>"
  shows "buffers_ok t'" "owns h0 t'" "received t' = take (unat s') A'" "unread t' = take (unat n') B'"
  using assms(1,2) bufs lens
  by (auto simp: t' buffers_ok_def buffer_ok_def owns_def filled_def word_le_nat_alt)

lemma find_packet_end_unread:
  assumes "heap t b = Some B" "bd_buffer (rb_new t) = Some b" "unat (bd_size (rb_new t)) \<le> length B"
    "unread t = take (unat (bd_size (rb_new t))) B"
  shows "find_packet_end (heap t) (bd_buffer (rb_new t)) (unat (bd_size (rb_new t))) 0 =
    (let us = takeWhile (\<lambda>c. c \<noteq> newline) (unread t) in Inr (length us < unat (bd_size (rb_new t)), length us))"
  using find_packet_end_spec[where h = "heap t" and a = b and i = 0, OF assms(1,3)] assms(2,4)
  by (simp add: Let_def)

lemma prefix_parts:
  assumes "take n B = us @ x # vs" "Suc (length us) + length vs = n"
  shows "take (Suc (length us)) B = us @ [x]" "take (length vs) (drop (Suc (length us)) B) = vs"
proof -
  have "take (Suc (length us)) B = take (Suc (length us)) (take n B)" using assms(2) by simp
  then show "take (Suc (length us)) B = us @ [x]" using assms(1) by simp
  have "take (length vs) (drop (Suc (length us)) B) = drop (Suc (length us)) (take n B)"
    using arg_cong[OF assms(2), of "\<lambda>k. k - Suc (length us)"] by (simp add: drop_take)
  then show "take (length vs) (drop (Suc (length us)) B) = vs" using assms(1) by simp
qed

text \<open>No newline among the unread bytes: all of them go to the received bytes.\<close>

lemma process_rest:
  assumes inv: "buffers_ok t" "owns h0 t" "0 < bd_size (rb_new t)" and False: "newline \<notin> set (unread t)"
  shows "\<exists>t'. process_received_data t = Inr (0, t') \<and> world t' = world t \<and> buffers_ok t' \<and> owns h0 t' \<and>
    bd_buffer (rb_new t') = bd_buffer (rb_new t) \<and> client_fd (t_data t') = client_fd (t_data t) \<and>
    thread_state (t_data t') = WaitingForData \<and>
    received t' = received t @ unread t \<and> bd_size (rb_new t') = 0"
proof -
  let ?s = "unat (bd_size (rb_data t))" and ?n = "unat (bd_size (rb_new t))"
  obtain a b A B where b: "bd_buffer (rb_data t) = Some a" "bd_buffer (rb_new t) = Some b" "a \<noteq> b"
    and h: "heap t a = Some A" "heap t b = Some B"
    and len: "length A = unat (bd_allocated (rb_data t))" "length B = unat (bd_allocated (rb_new t))"
      "?s + ?n \<le> length A" "?n \<le> length B" "0 < ?n"
    and lists: "received t = take ?s A" "unread t = take ?n B"
    using buffers_okE[OF inv] by blast
  have small: "length A < 2 ^ 64" "length B < 2 ^ 64" using len(1,2) unat_less_pow by metis+
  note find = find_packet_end_unread[OF h(2) b(2) len(4) lists(2)]
  from False have "takeWhile (\<lambda>c. c \<noteq> newline) (unread t) = unread t"
    by (metis (mono_tags, lifting) takeWhile_eq_all_conv)
  moreover have "length (unread t) = ?n" using lists len by simp
  ultimately have f: "find_packet_end (heap t) (bd_buffer (rb_new t)) ?n 0 = Inr (False, ?n)"
    unfolding find by (simp only: Let_def) simp
  let ?A = "take ?s A @ take ?n B @ drop (?s + ?n) A"
  define t' where "t' = set_state WaitingForData (t\<lparr>heap := (heap t)(a \<mapsto> ?A),
    rb_data := (rb_data t)\<lparr>bd_size := bd_size (rb_data t) + bd_size (rb_new t)\<rparr>,
    rb_new := (rb_new t)\<lparr>bd_size := 0\<rparr>\<rparr>)"
  have p: "process_received_data t = Inr (0, t')"
    using f mem_copy_blocks[OF h, of ?s ?n 0] b len
    by (simp add: process_received_data_def t'_def Let_def)
  have s: "unat (bd_size (rb_data t) + bd_size (rb_new t)) = ?s + ?n"
    using len small by (simp add: unat_add_64)
  have "t' = t\<lparr>t_data := (t_data t)\<lparr>thread_state := WaitingForData\<rparr>, heap := (heap t)(a \<mapsto> ?A, b \<mapsto> B),
    rb_data := (rb_data t)\<lparr>bd_size := bd_size (rb_data t) + bd_size (rb_new t)\<rparr>,
    rb_new := (rb_new t)\<lparr>bd_size := 0\<rparr>\<rparr>"
    using b(3) h(2) by (simp add: t'_def set_state_def fun_upd_twist fun_upd_idem)
  note m = moved_buffers_ok[OF inv(2,1) b _ _ _ _ this]
  have "received t' = received t @ unread t"
    using m(3) len s lists by simp
  moreover have "buffers_ok t'" "owns h0 t'" using m(1,2) len s by simp_all
  ultimately show ?thesis
    using p False by (auto simp: t'_def set_state_def)
qed

text \<open>A newline among the unread bytes: the bytes up to it complete the packet.\<close>

lemma process_packet:
  assumes inv: "buffers_ok t" "owns h0 t" "0 < bd_size (rb_new t)" and True: "newline \<in> set (unread t)"
  shows "\<exists>t' us. process_received_data t = Inr (0, t') \<and> world t' = world t \<and> buffers_ok t' \<and> owns h0 t' \<and>
    bd_buffer (rb_new t') = bd_buffer (rb_new t) \<and> client_fd (t_data t') = client_fd (t_data t) \<and>
    thread_state (t_data t') = SendingData \<and>
    unread t = us @ newline # unread t' \<and> newline \<notin> set us \<and> received t' = received t @ us @ [newline]"
proof -
  let ?s = "unat (bd_size (rb_data t))" and ?n = "unat (bd_size (rb_new t))"
  obtain a b A B where b: "bd_buffer (rb_data t) = Some a" "bd_buffer (rb_new t) = Some b" "a \<noteq> b"
    and h: "heap t a = Some A" "heap t b = Some B"
    and len: "length A = unat (bd_allocated (rb_data t))" "length B = unat (bd_allocated (rb_new t))"
      "?s + ?n \<le> length A" "?n \<le> length B" "0 < ?n"
    and lists: "received t = take ?s A" "unread t = take ?n B"
    using buffers_okE[OF inv] by blast
  have small: "length A < 2 ^ 64" "length B < 2 ^ 64" using len(1,2) unat_less_pow by metis+
  note find = find_packet_end_unread[OF h(2) b(2) len(4) lists(2)]
  from True obtain us vs where u: "unread t = us @ newline # vs" "newline \<notin> set us"
    "takeWhile (\<lambda>c. c \<noteq> newline) (unread t) = us" by (rule takeWhile_split)
  let ?k = "Suc (length us)"
  have kn: "?k + length vs = ?n" using arg_cong[OF u(1), of length] lists len by simp
  have f: "find_packet_end (heap t) (bd_buffer (rb_new t)) ?n 0 = Inr (True, length us)"
    unfolding find u(3) using kn by simp
  let ?A = "take ?s A @ take ?k B @ drop (?s + ?k) A"
  let ?B = "take (length vs) (drop ?k B) @ drop (length vs) B"
  define n where "n = (word_of_nat (length us) + 1 :: size_t)"
  have "n = word_of_nat ?k" by (simp add: n_def)
  moreover have "?k < 2 ^ 64" using kn len(4) small(2) by linarith
  ultimately have n: "unat n = ?k" by (simp only: unat_of_nat_64)
  have le: "n \<le> bd_size (rb_new t)" using kn n by (simp add: word_le_nat_alt)
  have m: "unat (bd_size (rb_new t) - n) = length vs"
    using le kn n by (simp add: unat_sub_le)
  define t' where "t' = t\<lparr>t_data := (t_data t)\<lparr>thread_state := SendingData\<rparr>,
    heap := (heap t)(a \<mapsto> ?A, b \<mapsto> ?B),
    rb_data := (rb_data t)\<lparr>bd_size := bd_size (rb_data t) + n\<rparr>,
    rb_new := (rb_new t)\<lparr>bd_size := bd_size (rb_new t) - n\<rparr>\<rparr>"
  have c1: "mem_copy (heap t) (Some a) ?s (Some b) 0 ?k = Inr ((heap t)(a \<mapsto> ?A))"
    using mem_copy_blocks[OF h, of ?s ?k 0] kn len by simp
  have c2: "mem_copy ((heap t)(a \<mapsto> ?A)) (Some b) 0 (Some b) ?k (length vs) =
      Inr ((heap t)(a \<mapsto> ?A, b \<mapsto> ?B))"
    using mem_copy_blocks[of "(heap t)(a \<mapsto> ?A)" b B b B 0 "length vs" ?k] b h kn len by simp
  have p: "process_received_data t = Inr (0, t')"
    using f c1 c2 b by (simp add: process_received_data_def t'_def Let_def n_def[symmetric] n m set_state_def)
  have s: "unat (bd_size (rb_data t) + n) = ?s + ?k"
    using len small kn n by (simp add: unat_add_64)
  note mv = moved_buffers_ok[OF inv(2,1) b _ _ _ _ t'_def]
  note parts = prefix_parts[OF u(1)[unfolded lists(2)] kn]
  have "received t' = received t @ us @ [newline]" "unread t' = vs"
    using mv(3,4) len s m kn lists parts by simp_all
  moreover have "buffers_ok t'" "owns h0 t'" using mv(1,2) len s m kn by simp_all
  ultimately show ?thesis
    using p u by (auto simp: t'_def)
qed

lemma process_received_data_ok:
  assumes inv: "buffers_ok t" "owns h0 t" "0 < bd_size (rb_new t)"
  shows "\<exists>t'. process_received_data t = Inr (0, t') \<and> world t' = world t \<and> buffers_ok t' \<and> owns h0 t' \<and>
    bd_buffer (rb_new t') = bd_buffer (rb_new t) \<and>
    client_fd (t_data t') = client_fd (t_data t) \<and>
    (thread_state (t_data t') = SendingData \<and>
       (\<exists>us. unread t = us @ newline # unread t' \<and> newline \<notin> set us \<and>
             received t' = received t @ us @ [newline]) \<or>
     thread_state (t_data t') = WaitingForData \<and> newline \<notin> set (unread t) \<and>
       received t' = received t @ unread t \<and> bd_size (rb_new t') = 0)"
  using process_rest[OF assms] process_packet[OF assms] by (cases "newline \<in> set (unread t)") metis+

section \<open>Growing the receive buffer\<close>

lemma realloc_ok:
  assumes "owns h0 t" "buffer_ok (heap t) (rb_data t)" "buffer_ok (heap t) (rb_new t)"
    and null: "bd_buffer (rb_data t) = None \<longrightarrow> bd_allocated (rb_data t) = 0"
    and more: "bd_allocated (rb_data t) \<le> n"
    and ans: "alloc_ok (heap t) (unat n) (Some (a, blk))"
  shows "\<exists>h1. mem_realloc (heap t) (bd_buffer (rb_data t)) (unat n) (Some (a, blk)) = Inr (Some a, h1) \<and>
    (\<forall>w. let t1 = t\<lparr>rb_data := (rb_data t)\<lparr>bd_allocated := n, bd_buffer := Some a\<rparr>, heap := h1, world := w\<rparr>
      in owns h0 t1 \<and> buffer_ok h1 (rb_data t1) \<and> buffer_ok h1 (rb_new t1) \<and>
         received t1 = received t \<and> unread t1 = unread t)"
proof (cases "bd_buffer (rb_data t)")
  case None
  with assms show ?thesis
    by (auto simp: mem_realloc_def alloc_ok_def owns_def buffer_ok_def filled_def split: option.splits)
next
  case (Some a0)
  with assms(2) obtain old where old: "heap t a0 = Some old" "length old = unat (bd_allocated (rb_data t))"
    "unat (bd_size (rb_data t)) \<le> length old" by (auto elim: buffer_okE)
  have new: "heap t a = None" "length blk = unat n" using ans by (simp_all add: alloc_ok_def)
  have "a \<noteq> a0" using new old by auto
  have le: "length old \<le> unat n" using more old by (simp add: word_le_nat_alt)
  let ?blk = "old @ drop (length old) blk"
  let ?h = "(heap t)(a0 := None, a \<mapsto> ?blk)"
  have r: "mem_realloc (heap t) (bd_buffer (rb_data t)) (unat n) (Some (a, blk)) = Inr (Some a, ?h)"
    using Some old le by (simp add: mem_realloc_def)
  have rn: "bd_buffer (rb_new t) \<noteq> Some a" "bd_buffer (rb_new t) \<noteq> Some a0"
    using assms(1) Some new by (auto simp: owns_def)
  show ?thesis
    using assms(1-3) Some old new le rn \<open>a \<noteq> a0\<close> r more
    by (intro exI[of _ ?h])
       (auto simp: Let_def owns_def buffer_upd_other, auto simp: buffer_ok_def filled_def word_le_nat_alt)
qed

end
