(* ===== verification/Socket_Session.thy ===== *)
theory Socket_Session
  imports Socket_Env Socket_Buffers
begin

text \<open>
  One client session, from the laws of the calls alone: each handler returns without a fault
  whatever the calls answer, keeps the invariant of the thread and brings the end of the session
  nearer, and while no call fails the session does to the store and to the client exactly what
  the packets of the byte stream ask for.
\<close>

text \<open>What a session sends: the whole store after each packet was appended.\<close>

primrec replies :: "('s \<Rightarrow> byte list \<Rightarrow> 's) \<Rightarrow> ('s \<Rightarrow> byte list) \<Rightarrow> 's \<Rightarrow> byte list list \<Rightarrow> byte list" where
  "replies app bs s [] = []"
| "replies app bs s (p # ps) = bs (app s p) @ replies app bs (app s p) ps"

lemma to_c_int_short: "length bs < 2 ^ 31 \<Longrightarrow> to_c_int (int (length bs)) = int (length bs)"
  by (simp add: to_c_int_id)

lemma drop_step:
  "n \<le> length xs - k \<Longrightarrow> take n (drop k xs) @ drop (k + n) xs = drop k xs"
  by (metis add.commute append_take_drop_id drop_drop)

context server_env
begin

section \<open>Reading and sending\<close>

lemma open_ok:
  assumes "inv w" "open_file_for_read_write sys w = (fd, w')"
  shows "same w w'" "reliable w \<Longrightarrow> fd \<noteq> -1" "fd \<noteq> -1 \<Longrightarrow> ready w'"
  using open_law[OF assms(1)] assms(2)
  by (cases "sys_open sys w"; force simp: open_file_for_read_write_def split: if_splits)+

lemma write_to_file_ok:
  assumes "inv w" "p \<noteq> []" "last p = newline" "length p < 2 ^ 31" "write_to_file sys fd p w = (n, w')"
  shows "inv w' \<and> locked w' = locked w \<and> inbox w' = inbox w \<and> outbox w' = outbox w \<and>
    (ready w \<longrightarrow> ready w') \<and> (reliable w \<longrightarrow> reliable w' \<and> n \<noteq> -1) \<and> (n \<noteq> -1 \<longrightarrow> store w' = append (store w) p)"
proof -
  obtain m w1 where m: "sys_write sys fd p w = (m, w1)" by (cases "sys_write sys fd p w")
  with assms(5) have "w' = w1" "n = (if m = int (length p) then m else -1)"
    by (auto simp: write_to_file_def to_c_int_short[OF assms(4)] split: if_splits)
  then show ?thesis using write_law[OF assms(1-4) m] by auto
qed

lemma read_from_file_ok:
  assumes "inv w" "read_from_file sys fd SEND_BUFFER_SIZE w = ((n, bs), w')"
  shows "same w w' \<and> (reliable w \<longrightarrow> n \<noteq> -1) \<and>
    (n = -1 \<or> n = int (length bs) \<and> pos w' = pos w + length bs \<and>
       bs = take (length bs) (drop (pos w) (bytes (store w))) \<and>
       (bs = [] \<longrightarrow> length (bytes (store w)) \<le> pos w))"
proof -
  obtain m cs w1 where m: "sys_read sys fd 1023 w = ((m, cs), w1)"
    by (metis prod.exhaust)
  note law = read_law[OF assms(1) _ _ m]
  show ?thesis
  proof (cases "m = -1")
    case True
    then show ?thesis using law m assms(2) by (auto simp: read_from_file_def SEND_BUFFER_SIZE_def)
  next
    case False
    then have "m = int (length cs)" "length cs \<le> 1023" using law by auto
    then have "to_c_int m = m" using to_c_int_short[of cs] by simp
    then show ?thesis using law m assms(2) False by (auto simp: read_from_file_def SEND_BUFFER_SIZE_def)
  qed
qed

text \<open>The send loop ends, and sends all of its buffer unless a \<open>send\<close> fails.\<close>

definition sent_to :: "'w \<Rightarrow> byte list \<Rightarrow> 'w \<Rightarrow> bool" where
  "sent_to w bs w' \<longleftrightarrow> inv w' \<and> store w' = store w \<and> locked w' = locked w \<and> inbox w' = inbox w \<and>
     pos w' = pos w \<and> outbox w' = outbox w @ bs \<and> (reliable w \<longrightarrow> reliable w')"

lemma send_loop_ok:
  assumes "inv w" "k \<le> length bs"
  shows "\<exists>b w' n. send_loop sys fd bs (int k) w = Some (b, w') \<and> (reliable w \<longrightarrow> b) \<and>
    sent_to w (take n (drop k bs)) w' \<and> (b \<longrightarrow> n = length bs - k)"
  using assms
proof (induction "length bs - k" arbitrary: k w rule: less_induct)
  case less
  show ?case
  proof (cases "k < length bs")
    case False
    with less.prems show ?thesis by (subst send_loop.simps) (auto simp: sent_to_def intro!: exI[of _ 0])
  next
    case True
    obtain m w1 where m: "sys_send sys fd (drop k bs) w = (m, w1)" by (cases "sys_send sys fd (drop k bs) w")
    have law: "inv w1" "store w1 = store w" "locked w1 = locked w" "inbox w1 = inbox w" "pos w1 = pos w"
      "reliable w \<longrightarrow> reliable w1 \<and> m \<noteq> -1"
      "m = -1 \<and> outbox w1 = outbox w \<or>
       0 < m \<and> m \<le> int (length bs - k) \<and> outbox w1 = outbox w @ take (nat m) (drop k bs)"
      using send_law[OF less.prems(1) _ m] True by auto
    show ?thesis
    proof (cases "m = -1")
      case True
      with m law \<open>k < length bs\<close> show ?thesis
        by (subst send_loop.simps) (auto simp: sent_to_def intro!: exI[of _ 0])
    next
      case False
      define i where "i = nat m"
      with False law have i: "0 < i" "i \<le> length bs - k" "m = int i"
        and out: "outbox w1 = outbox w @ take i (drop k bs)" by auto
      have "length bs - (k + i) < length bs - k" "k + i \<le> length bs" using i True by auto
      from less.hyps[OF this(1) law(1) this(2)] obtain b w' n where ih: "send_loop sys fd bs (int (k + i)) w1 = Some (b, w')" "reliable w1 \<longrightarrow> b"
        "sent_to w1 (take n (drop (k + i) bs)) w'" "b \<longrightarrow> n = length bs - (k + i)" by blast
      have "take i (drop k bs) @ take n (drop (k + i) bs) = take (i + n) (drop k bs)"
        by (simp add: take_add add.commute)
      then have "sent_to w (take (i + n) (drop k bs)) w'"
        using ih(3) law out by (auto simp: sent_to_def)
      moreover have "send_loop sys fd bs (int k) w = Some (b, w')"
        using True m ih(1) i False by (subst send_loop.simps) simp
      ultimately show ?thesis using ih(2,4) law(6) i(2) True
        by (intro exI[of _ b] exI[of _ w'] exI[of _ "i + n"]) auto
    qed
  qed
qed

text \<open>The loop over the blocks of the file ends, and unless a call fails everything is sent.\<close>

text \<open>One turn of the loop: what was read is sent, and less is left to read.\<close>

lemma read_send_turn:
  assumes w: "inv w" and r: "read_from_file sys fd SEND_BUFFER_SIZE w = ((n, bs), w1)" and n: "0 < n"
    and s: "send_loop sys c bs 0 w1 = Some (True, w2)"
  shows "read_send_loop sys fd c w = read_send_loop sys fd c w2" "inv w2" "store w2 = store w" "locked w2 = locked w"
    "inbox w2 = inbox w" "outbox w2 = outbox w @ bs" "reliable w \<longrightarrow> reliable w2"
    "bs @ drop (pos w2) (bytes (store w2)) = drop (pos w) (bytes (store w))"
    "length (bytes (store w2)) - pos w2 < length (bytes (store w)) - pos w"
proof -
  note law = read_from_file_ok[OF w r]
  have w1: "inv w1" "store w1 = store w" "locked w1 = locked w" "inbox w1 = inbox w"
    "outbox w1 = outbox w" "reliable w \<longrightarrow> reliable w1" using law by (auto simp: same_def)
  have b: "bs \<noteq> []" "pos w1 = pos w + length bs" "bs = take (length bs) (drop (pos w) (bytes (store w)))"
    using law n by auto
  obtain b' w' k where sl: "send_loop sys c bs 0 w1 = Some (b', w')" "reliable w1 \<longrightarrow> b'"
    "sent_to w1 (take k bs) w'" "b' \<longrightarrow> k = length bs"
    using send_loop_ok[OF w1(1), of 0 bs c] by auto
  then have k: "sent_to w1 bs w2" using s by simp
  show "read_send_loop sys fd c w = read_send_loop sys fd c w2" using r n s by (subst read_send_loop.simps) simp
  show "inv w2" "store w2 = store w" "locked w2 = locked w" "inbox w2 = inbox w" "outbox w2 = outbox w @ bs"
    "reliable w \<longrightarrow> reliable w2" using k w1 by (auto simp: sent_to_def)
  have p: "pos w2 = pos w + length bs" "store w2 = store w" using k w1(2) b(2) by (simp_all add: sent_to_def)
  show "bs @ drop (pos w2) (bytes (store w2)) = drop (pos w) (bytes (store w))"
    using b(3) unfolding p by (metis add.commute append_take_drop_id drop_drop)
  have "length bs \<le> length (bytes (store w)) - pos w" using arg_cong[OF b(3), of length] by simp
  then show "length (bytes (store w2)) - pos w2 < length (bytes (store w)) - pos w"
    using b(1) unfolding p by (cases bs) auto
qed

lemma read_send_loop_ok:
  assumes "inv w"
  shows "\<exists>r w' bs. read_send_loop sys fd c w = Some (r, w') \<and>
    (r = None \<or> r = Some (-1) \<or> r = Some 0 \<and> bs = drop (pos w) (bytes (store w))) \<and>
    (reliable w \<longrightarrow> r = Some 0) \<and>
    inv w' \<and> store w' = store w \<and> locked w' = locked w \<and> inbox w' = inbox w \<and>
    outbox w' = outbox w @ bs \<and> (reliable w \<longrightarrow> reliable w')"
  using assms
proof (induction "length (bytes (store w)) - pos w" arbitrary: w rule: less_induct)
  case less
  obtain n bs w1 where r: "read_from_file sys fd SEND_BUFFER_SIZE w = ((n, bs), w1)"
    by (metis prod.exhaust)
  note law = read_from_file_ok[OF less.prems r]
  have w1: "inv w1" "store w1 = store w" "locked w1 = locked w" "inbox w1 = inbox w"
    "outbox w1 = outbox w" "reliable w \<longrightarrow> reliable w1"
    using law by (auto simp: same_def)
  show ?case
  proof (cases "0 < n")
    case False
    with r w1 law show ?thesis by (subst read_send_loop.simps) (auto intro!: exI[of _ "[]"])
  next
    case True
    obtain b w2 k where sl: "send_loop sys c bs 0 w1 = Some (b, w2)" "reliable w1 \<longrightarrow> b" "sent_to w1 (take k bs) w2"
      using send_loop_ok[OF w1(1), of 0 bs c] by auto
    show ?thesis
    proof (cases b)
      case False
      with True r sl w1 show ?thesis by (subst read_send_loop.simps) (auto simp: sent_to_def)
    next
      case b: True
      note t = read_send_turn[OF less.prems r True sl(1)[unfolded b[THEN eqTrueI]]]
      from less.hyps[OF t(9,2)] t show ?thesis by (metis append_assoc)
    qed
  qed
qed

section \<open>Mutex and clean-up\<close>

text \<open>Two worlds that agree on all the view shows but the mutex and the file position.\<close>

definition quiet :: "'w \<Rightarrow> 'w \<Rightarrow> bool" where
  "quiet w w' \<longleftrightarrow> inv w' \<and> store w' = store w \<and> inbox w' = inbox w \<and> outbox w' = outbox w \<and>
     (reliable w \<longrightarrow> reliable w')"

lemma same_quiet: "same w w' \<Longrightarrow> quiet w w' \<and> locked w' = locked w"
  by (simp add: same_def quiet_def)

lemma quiet_trans: "quiet w w' \<Longrightarrow> quiet w' w'' \<Longrightarrow> quiet w w''"
  by (simp add: quiet_def)

lemma get_file_mutex_ok:
  assumes "inv w" "\<not> locked w" "get_file_mutex cfg sys w = (rc, w')"
  shows "quiet w w'" "reliable w \<Longrightarrow> rc = 0"
    "rc = 0 \<and> locked w' = (\<not> disable_locking cfg) \<or> rc = -1 \<and> \<not> locked w'"
proof -
  obtain n w1 where "sys_lock sys w = (n, w1)" by (cases "sys_lock sys w")
  note law = lock_law[OF assms(1,2) this] this
  show "quiet w w'" using assms law by (auto simp: get_file_mutex_def quiet_def split: if_splits)
  show "reliable w \<Longrightarrow> rc = 0" using assms law by (auto simp: get_file_mutex_def split: if_splits)
  show "rc = 0 \<and> locked w' = (\<not> disable_locking cfg) \<or> rc = -1 \<and> \<not> locked w'"
    using assms law by (auto simp: get_file_mutex_def split: if_splits)
qed

lemma release_file_mutex_ok:
  assumes "inv w" "locked w = (\<not> disable_locking cfg)" "release_file_mutex cfg sys w = (rc, w')"
  shows "quiet w w'" "\<not> locked w'" "rc = 0"
proof -
  obtain n w1 where "sys_unlock sys w = (n, w1)" by (cases "sys_unlock sys w")
  note law = unlock_law[OF assms(1) _ this] this
  show "quiet w w'" using assms law by (auto simp: release_file_mutex_def quiet_def split: if_splits)
  show "\<not> locked w'" using assms law by (auto simp: release_file_mutex_def split: if_splits)
  show "rc = 0" using assms law by (auto simp: release_file_mutex_def split: if_splits)
qed

lemma release_snd_ok:
  assumes "inv w" "locked w = (\<not> disable_locking cfg)"
  shows "quiet w (snd (release_file_mutex cfg sys w)) \<and> \<not> locked (snd (release_file_mutex cfg sys w))"
  using release_file_mutex_ok[OF assms surjective_pairing] by simp

lemma close_and_release_ok:
  assumes "inv w" "locked w = (\<not> disable_locking cfg)"
  shows "quiet w (close_and_release cfg sys fd w) \<and> \<not> locked (close_and_release cfg sys fd w)"
proof -
  let ?w = "snd (sys_close sys fd w)"
  have "same w ?w" using close_law[OF assms(1) surjective_pairing] by simp
  with assms(2) have "quiet w ?w" "inv ?w" "locked ?w = (\<not> disable_locking cfg)"
    by (auto simp: same_def quiet_def)
  then show ?thesis using release_snd_ok[of ?w cfg]
    by (auto simp: close_and_release_def intro: quiet_trans)
qed

section \<open>Sending data\<close>

lemma received_read:
  assumes "buffers_ok t" "received t \<noteq> []"
  shows "mem_read (heap t) (bd_buffer (rb_data t)) 0 (unat (bd_size (rb_data t))) = Inr (received t)"
proof -
  obtain a where a: "bd_buffer (rb_data t) = Some a"
    using assms(2) by (cases "bd_buffer (rb_data t)") (auto simp: filled_def)
  have "buffer_ok (heap t) (rb_data t)" using assms(1) by (simp add: buffers_ok_def)
  then show ?thesis using a by (elim buffer_okE) (auto simp: mem_read_Some)
qed

text \<open>
  What \<open>sending_data\<close> leaves in all cases (the mutex free, the memory as it was), and what it
  does when it returns zero: the packet is in the store, the whole store was sent.
\<close>

definition sent_packet :: "'w thread \<Rightarrow> int \<Rightarrow> 'w thread \<Rightarrow> bool" where
  "sent_packet t rc t' \<longleftrightarrow>
     inv (world t') \<and> \<not> locked (world t') \<and> inbox (world t') = inbox (world t) \<and>
     heap t' = heap t \<and> rb_new t' = rb_new t \<and> bd_buffer (rb_data t') = bd_buffer (rb_data t) \<and>
     client_fd (t_data t') = client_fd (t_data t) \<and>
     (reliable (world t) \<longrightarrow> reliable (world t') \<and> rc = 0) \<and>
     (rc = -1 \<or>
      rc = 0 \<and> rb_data t' = (rb_data t)\<lparr>bd_size := 0\<rparr> \<and>
      store (world t') = append (store (world t)) (received t) \<and>
      outbox (world t') = outbox (world t) @ bytes (append (store (world t)) (received t)) \<and>
      thread_state (t_data t') = (if 0 < bd_size (rb_new t) then ProcessingData else WaitingForData))"

text \<open>The second half of \<open>sending_data\<close>: the packet is written, the whole store goes to the client.\<close>

definition send_reply :: "build \<Rightarrow> int \<Rightarrow> 'w thread \<Rightarrow> 'w \<Rightarrow> (fault + int \<times> 'w thread) option" where
  "send_reply cfg fd t w4 =
     Option.bind (read_send_loop sys fd (client_fd (t_data t)) w4) (\<lambda>(res, w5).
       if res = None \<or> res = Some (- 1)
       then Some (Inr (- 1, t\<lparr>world := close_and_release cfg sys fd w5\<rparr>))
       else
         let (crc, w6) = sys_close sys fd w5
         in if crc = - 1 then Some (Inr (- 1, t\<lparr>world := snd (release_file_mutex cfg sys w6)\<rparr>))
            else
              let (rrc, w7) = release_file_mutex cfg sys w6; t2 = t\<lparr>world := w7\<rparr>
              in if rrc = - 1 then Some (Inr (- 1, t2))
                 else if bd_size (rb_new t2) > 0 then Some (Inr (0, set_state ProcessingData t2))
                 else Some (Inr (0, set_state WaitingForData t2)))"

lemma send_reply_ok:
  assumes "inv w" "locked w = (\<not> disable_locking cfg)" "pos w = 0" "reliable (world t) \<longrightarrow> reliable w"
    and p: "inbox w = inbox (world t)" "outbox w = outbox (world t)" "store w = append (store (world t)) (received t)"
  shows "\<exists>rc t'. send_reply cfg fd (t\<lparr>rb_data := (rb_data t)\<lparr>bd_size := 0\<rparr>\<rparr>) w = Some (Inr (rc, t')) \<and>
    sent_packet t rc t'"
proof -
  let ?t1 = "t\<lparr>rb_data := (rb_data t)\<lparr>bd_size := 0\<rparr>\<rparr>"
  obtain r w5 bs where rs: "read_send_loop sys fd (client_fd (t_data t)) w = Some (r, w5)"
    "r = None \<or> r = Some (-1) \<or> r = Some 0 \<and> bs = bytes (store w)"
    "reliable w \<longrightarrow> r = Some 0" "inv w5" "store w5 = store w" "locked w5 = locked w"
    "inbox w5 = inbox w" "outbox w5 = outbox w @ bs" "reliable w \<longrightarrow> reliable w5"
    using read_send_loop_ok[OF assms(1), of fd "client_fd (t_data t)"] assms(3) by auto
  have w5: "inv w5" "locked w5 = (\<not> disable_locking cfg)" using rs assms(2) by simp_all
  show ?thesis
  proof (cases "r = None \<or> r = Some (-1)")
    case True
    with assms(4) p rs close_and_release_ok[OF w5, of fd] show ?thesis
      by (auto simp: send_reply_def sent_packet_def quiet_def)
  next
    case False
    then have r: "r = Some 0" "bs = bytes (store w)" using rs(2) by auto
    obtain crc w6 where c: "sys_close sys fd w5 = (crc, w6)" by (cases "sys_close sys fd w5")
    note cl = close_law[OF w5(1) c]
    have w6: "inv w6" "locked w6 = (\<not> disable_locking cfg)" using cl w5 by (auto simp: same_def)
    obtain rrc w7 where u: "release_file_mutex cfg sys w6 = (rrc, w7)" by (cases "release_file_mutex cfg sys w6")
    from assms(4) p rs r c u cl release_file_mutex_ok[OF w6 u] show ?thesis
      by (auto simp: send_reply_def sent_packet_def quiet_def same_def set_state_def Let_def)
  qed
qed

lemma sending_data_ok:
  assumes "inv (world t)" "\<not> locked (world t)" "buffers_ok t"
    and p: "received t \<noteq> []" "last (received t) = newline" "length (received t) < 2 ^ 31"
  shows "\<exists>rc t'. sending_data cfg sys t = Some (Inr (rc, t')) \<and> sent_packet t rc t'"
proof -
  let ?w = "world t" and ?p = "received t"
  obtain rc w1 where l: "get_file_mutex cfg sys ?w = (rc, w1)" by (cases "get_file_mutex cfg sys ?w")
  note mx = get_file_mutex_ok[OF assms(1,2) l]
  show ?thesis
  proof (cases "rc = -1")
    case True
    with l mx show ?thesis by (auto simp: sending_data_def sent_packet_def quiet_def)
  next
    case False
    with mx have lk: "locked w1 = (\<not> disable_locking cfg)" and w1: "inv w1"
      by (auto simp: quiet_def)
    obtain fd w2 where o: "open_file_for_read_write sys w1 = (fd, w2)"
      by (cases "open_file_for_read_write sys w1")
    note op = open_ok[OF w1 o]
    have w2: "inv w2" "locked w2 = (\<not> disable_locking cfg)" "quiet ?w w2"
      using op(1) lk mx(1) by (auto simp: same_def quiet_def)
    show ?thesis
    proof (cases "fd = -1")
      case True
      with l o op mx w2 False release_snd_ok[of w2 cfg] show ?thesis
        by (auto simp: sending_data_def sent_packet_def quiet_def)
    next
      case fd: False
      obtain wrc w3 where wr: "write_to_file sys fd ?p w2 = (wrc, w3)"
        by (cases "write_to_file sys fd ?p w2")
      note wt = write_to_file_ok[OF w2(1) p wr]
      note rd = received_read[OF assms(3) p(1)]
      have w3: "inv w3" "locked w3 = (\<not> disable_locking cfg)" using wt w2 by auto
      show ?thesis
      proof (cases "wrc = -1")
        case True
        with l o wr rd False fd wt w2(3) close_and_release_ok[OF w3, of fd] show ?thesis
          by (auto simp: sending_data_def sent_packet_def quiet_def)
      next
        case wrc: False
        let ?t1 = "t\<lparr>rb_data := (rb_data t)\<lparr>bd_size := 0\<rparr>\<rparr>" and ?w4 = "sys_lseek sys fd w3"
        have "sending_data cfg sys t = send_reply cfg fd ?t1 ?w4"
          using l o wr rd False fd wrc by (simp add: sending_data_def send_reply_def Let_def)
        moreover have "\<exists>rc t'. send_reply cfg fd ?t1 ?w4 = Some (Inr (rc, t')) \<and> sent_packet t rc t'"
          using lseek_law[OF w3(1), of fd] op(3)[OF fd] wt wrc w3 w2(3)
          by (intro send_reply_ok) (auto simp: same_def quiet_def)
        ultimately show ?thesis by simp
      qed
    qed
  qed
qed

section \<open>Waiting for data\<close>

text \<open>One pass of the growing loop is enough: a block received is no longer than the step.\<close>

lemma grow_loop_ok:
  assumes "inv (world t)" "owns h0 t" "buffer_ok (heap t) (rb_data t)" "buffer_ok (heap t) (rb_new t)"
    and null: "bd_buffer (rb_data t) = None \<longrightarrow> bd_allocated (rb_data t) = 0"
    and rn: "bd_allocated (rb_new t) = RECV_BUFFER_TEMP_SIZE"
    and bound: "unat (bd_size (rb_data t)) < 2 ^ 31"
    and fin: "finite (dom h0)"
  shows "\<exists>b t'. grow_loop sys t = Some (Inr (b, t')) \<and> same (world t) (world t') \<and> t_data t' = t_data t \<and>
    rb_new t' = rb_new t \<and> owns h0 t' \<and> (reliable (world t) \<longrightarrow> b) \<and>
    (b \<longrightarrow> buffers_ok t' \<and> received t' = received t \<and> unread t' = unread t)"
proof -
  let ?rb = "rb_data t"
  have new: "unat (bd_size (rb_new t)) \<le> 1024"
    using assms(4) rn by (auto simp: buffer_ok_def word_le_nat_alt RECV_BUFFER_TEMP_SIZE_def)
  have sum: "unat (bd_size ?rb + bd_size (rb_new t)) = unat (bd_size ?rb) + unat (bd_size (rb_new t))"
    using bound new by (simp add: unat_add_64)
  show ?thesis
  proof (cases "bd_allocated ?rb < bd_size ?rb + bd_size (rb_new t)")
    case False
    with assms sum show ?thesis
      by (subst grow_loop.simps) (auto simp: Let_def same_refl buffers_ok_def word_less_nat_alt)
  next
    case True
    define n where "n = bd_allocated ?rb + RECV_BUFFER_GROW_SIZE"
    have n: "unat n = unat (bd_allocated ?rb) + 1024"
      using True sum bound new
      by (simp add: n_def RECV_BUFFER_GROW_SIZE_def word_less_nat_alt unat_add_64)
    obtain ans w1 where al: "sys_alloc sys (heap t) (unat n) (world t) = (ans, w1)"
      by (cases "sys_alloc sys (heap t) (unat n) (world t)")
    note law = alloc_law[OF assms(1) al]
    have "finite (dom (heap t))" using owns_finite[OF assms(2) fin] .
    with law have law: "same (world t) w1 \<and> alloc_ok (heap t) (unat n) ans \<and> (reliable (world t) \<longrightarrow> ans \<noteq> None)"
      by simp
    show ?thesis
    proof (cases ans)
      case None
      with True al law assms(2) show ?thesis
        by (subst grow_loop.simps) (auto simp: Let_def n_def[symmetric] mem_realloc_def owns_def)
    next
      case (Some ab)
      obtain a blk where ab: "ans = Some (a, blk)" using Some by (cases ab) simp
      have "bd_allocated ?rb \<le> n" using n by (simp add: word_le_nat_alt)
      from realloc_ok[OF assms(2-4) null this, of a blk] law ab obtain h1 where
        r: "mem_realloc (heap t) (bd_buffer ?rb) (unat n) ans = Inr (Some a, h1)"
        and ok: "\<And>w. let t1 = t\<lparr>rb_data := ?rb\<lparr>bd_allocated := n, bd_buffer := Some a\<rparr>, heap := h1, world := w\<rparr>
          in owns h0 t1 \<and> buffer_ok h1 (rb_data t1) \<and> buffer_ok h1 (rb_new t1) \<and>
             received t1 = received t \<and> unread t1 = unread t" by blast
      let ?t1 = "t\<lparr>rb_data := ?rb\<lparr>bd_allocated := n, bd_buffer := Some a\<rparr>, heap := h1, world := w1\<rparr>"
      have size: "unat (bd_size ?rb) \<le> unat (bd_allocated ?rb)"
        using assms(3) by (simp add: buffer_ok_def word_le_nat_alt)
      have "\<not> n < bd_size ?rb + bd_size (rb_new t)"
        using n sum size new by (simp add: word_less_nat_alt)
      then have stop: "grow_loop sys ?t1 = Some (Inr (True, ?t1))"
        by (subst grow_loop.simps) (simp add: Let_def)
      have "grow_loop sys t = grow_loop sys ?t1"
        using True al r by (subst grow_loop.simps) (simp add: Let_def n_def[symmetric])
      then show ?thesis
        using stop ok[of w1] law n size new rn by (auto simp: Let_def buffers_ok_def)
    qed
  qed
qed

definition took_data :: "'w thread \<Rightarrow> int \<Rightarrow> 'w thread \<Rightarrow> bool" where
  "took_data t rc t' \<longleftrightarrow>
     inv (world t') \<and> locked (world t') = locked (world t) \<and> store (world t') = store (world t) \<and>
     outbox (world t') = outbox (world t) \<and> client_fd (t_data t') = client_fd (t_data t) \<and>
     bd_buffer (rb_new t') = bd_buffer (rb_new t) \<and>
     (reliable (world t) \<longrightarrow> reliable (world t') \<and> (bd_buffer (rb_new t) \<noteq> None \<longrightarrow> rc = 0)) \<and>
     (rc = -1 \<or>
      rc = 0 \<and> thread_state (t_data t') = ClosedConnection \<and> inbox (world t) = [] \<and> inbox (world t') = [] \<or>
      rc = 0 \<and> thread_state (t_data t') = ProcessingData \<and> buffers_ok t' \<and> received t' = received t \<and>
        unread t' \<noteq> [] \<and> inbox (world t) = unread t' @ inbox (world t'))"

lemma filled_write:
  assumes "h b = Some blk" "length bs \<le> length blk" "unat n = length bs" "length blk = unat (bd_allocated x)"
  shows "filled (h(b \<mapsto> bs @ drop (length bs) blk)) (x\<lparr>bd_buffer := Some b, bd_size := n\<rparr>) = bs"
    "buffer_ok (h(b \<mapsto> bs @ drop (length bs) blk)) (x\<lparr>bd_buffer := Some b, bd_size := n\<rparr>)"
  using assms by (auto simp: filled_def buffer_ok_def word_le_nat_alt)

text \<open>The bytes received are in the fixed buffer, and nothing else has changed.\<close>

lemma stored_block:
  fixes t :: "'w thread" and w :: 'w
  assumes "owns h0 t" "buffers_ok t" "bd_buffer (rb_new t) = Some b" "length bs \<le> 1024"
  defines "h \<equiv> (heap t)(b \<mapsto> bs @ drop (length bs) (the (heap t b)))"
  defines "t2 \<equiv> t\<lparr>world := w, heap := h, rb_new := (rb_new t)\<lparr>bd_size := word_of_nat (length bs)\<rparr>\<rparr>"
  shows "mem_write (heap t) (bd_buffer (rb_new t)) 0 bs = Inr h" "owns h0 t2" "unread t2 = bs"
    "received t2 = received t" "buffer_ok (heap t2) (rb_data t2)" "buffer_ok (heap t2) (rb_new t2)"
proof -
  obtain blk where blk: "heap t b = Some blk" "length blk = 1024" "length blk = unat (bd_allocated (rb_new t))"
    using assms(2,3) by (auto simp: buffers_ok_def RECV_BUFFER_TEMP_SIZE_def elim: buffer_okE)
  have un: "unat (word_of_nat (length bs) :: size_t) = length bs" using assms(4) by (simp add: unat_of_nat_64)
  have rn: "(rb_new t)\<lparr>bd_size := word_of_nat (length bs)\<rparr> =
      (rb_new t)\<lparr>bd_buffer := Some b, bd_size := word_of_nat (length bs)\<rparr>" using assms(3) by simp
  show "mem_write (heap t) (bd_buffer (rb_new t)) 0 bs = Inr h"
    using assms(3,4) blk by (simp add: mem_write_Some h_def)
  have ab: "bd_buffer (rb_data t) \<noteq> Some b" using assms(1,3) by (auto simp: owns_def)
  show "unread t2 = bs" "buffer_ok (heap t2) (rb_new t2)"
    unfolding t2_def h_def using filled_write[of "heap t" b blk bs "word_of_nat (length bs)" "rb_new t"] blk assms(4) un rn
    by simp_all
  show "owns h0 t2" using assms(1,3) blk by (auto simp: t2_def h_def owns_def)
  show "buffer_ok (heap t2) (rb_data t2)" "received t2 = received t"
    using assms(2) ab by (simp_all add: t2_def h_def buffers_ok_def buffer_upd_other)
qed

lemma waiting_for_data_ok:
  assumes "inv (world t)" "owns h0 t" "buffers_ok t" "length (received t) < 2 ^ 31" "finite (dom h0)"
  shows "\<exists>rc t'. waiting_for_data sys t = Some (Inr (rc, t')) \<and> owns h0 t' \<and> took_data t rc t'"
proof -
  obtain n bs w1 where r: "sys_recv sys (client_fd (t_data t)) 1024 (world t) = ((n, bs), w1)"
    by (metis prod.exhaust)
  note law = recv_law[OF assms(1) _ r]
  have al: "unat (bd_allocated (rb_new t)) = 1024"
    using assms(3) by (simp add: buffers_ok_def RECV_BUFFER_TEMP_SIZE_def)
  consider (error) "n = -1 \<or> 0 < n \<and> bd_buffer (rb_new t) = None"
    | (eof) "n = 0"
    | (data) b where "n = int (length bs)" "0 < length bs" "bd_buffer (rb_new t) = Some b"
    using law by (cases "bd_buffer (rb_new t)") auto
  then show ?thesis
  proof cases
    case error
    with r law al assms(2) show ?thesis
      by (auto simp: waiting_for_data_def took_data_def owns_def)
  next
    case eof
    with r law al assms(2) show ?thesis
      by (auto simp: waiting_for_data_def took_data_def owns_def set_state_def)
  next
    case data
    have len: "length bs \<le> 1024" "inbox (world t) = bs @ inbox w1" using law data by auto
    define t2 where "t2 = t\<lparr>world := w1, heap := (heap t)(b \<mapsto> bs @ drop (length bs) (the (heap t b))),
      rb_new := (rb_new t)\<lparr>bd_size := word_of_nat (length bs)\<rparr>\<rparr>"
    note wr = stored_block(1)[OF assms(2,3) data(3) len(1)]
    note st = stored_block(2-6)[OF assms(2,3) data(3) len(1), of w1, folded t2_def]
    have "unat (bd_size (rb_data t)) < 2 ^ 31"
      using assms(3,4) length_filled[of "heap t" "rb_data t"] by (simp add: buffers_ok_def)
    then have pre: "inv (world t2)"
      "bd_buffer (rb_data t2) = None \<longrightarrow> bd_allocated (rb_data t2) = 0"
      "bd_allocated (rb_new t2) = RECV_BUFFER_TEMP_SIZE" "unat (bd_size (rb_data t2)) < 2 ^ 31"
      using law assms(3) by (simp_all add: t2_def buffers_ok_def)
    obtain b' t3 where g: "grow_loop sys t2 = Some (Inr (b', t3))" "same (world t2) (world t3)"
      "t_data t3 = t_data t2" "rb_new t3 = rb_new t2" "owns h0 t3" "reliable (world t2) \<longrightarrow> b'"
      "b' \<longrightarrow> buffers_ok t3 \<and> received t3 = received t2 \<and> unread t3 = unread t2"
      using grow_loop_ok[OF pre(1) st(1,4,5) pre(2-4) assms(5)] by blast
    have e: "waiting_for_data sys t = Some (if b' then Inr (0, set_state ProcessingData t3) else Inr (-1, t3))"
      using r al data(1,2) wr g(1) data(3) by (simp add: waiting_for_data_def Let_def t2_def)
    show ?thesis
    proof (cases b')
      case True
      with e g st law len data(2,3) show ?thesis
        by (auto simp: took_data_def set_state_def owns_def buffers_ok_def same_def t2_def)
    next
      case False
      with e g law data show ?thesis
        by (auto simp: took_data_def same_def t2_def)
    qed
  qed
qed

section \<open>One pass of the loop\<close>

definition load :: "'w thread \<Rightarrow> nat" where
  "load t = length (received t) + length (unread t) + length (inbox (world t))"

text \<open>
  The invariant of the thread's own state: the memory is as at the start but for the two
  buffers, and while the connection is open the buffers are well formed and hold what the state
  of the thread says. Between the handlers of a thread that runs alone the mutex is free too.
\<close>

definition session_inv :: "memory \<Rightarrow> 'w thread \<Rightarrow> bool" where
  "session_inv h0 t \<longleftrightarrow>
     inv (world t) \<and> owns h0 t \<and> finite (dom h0) \<and>
     (thread_state (t_data t) \<noteq> ClosedConnection \<longrightarrow>
        buffers_ok t \<and> load t < 2 ^ 31 \<and>
        (case thread_state (t_data t) of
           WaitingForData \<Rightarrow> bd_size (rb_new t) = 0
         | ProcessingData \<Rightarrow> 0 < bd_size (rb_new t)
         | SendingData \<Rightarrow> received t \<noteq> [] \<and> last (received t) = newline
         | ClosedConnection \<Rightarrow> True))"

definition thread_inv :: "memory \<Rightarrow> 'w thread \<Rightarrow> bool" where
  "thread_inv h0 t \<longleftrightarrow> \<not> locked (world t) \<and> session_inv h0 t"

text \<open>How far the session is from its end, and the packets still to be answered.\<close>

definition togo :: "'w thread \<Rightarrow> nat" where
  "togo t =
     (case thread_state (t_data t) of
        WaitingForData \<Rightarrow> 4 * length (inbox (world t)) + 1
      | ProcessingData \<Rightarrow> 4 * length (inbox (world t)) + 3 * length (unread t)
      | SendingData \<Rightarrow> 4 * length (inbox (world t)) + 3 * length (unread t) + 2
      | ClosedConnection \<Rightarrow> 0)"

definition todo :: "'w thread \<Rightarrow> byte list list" where
  "todo t =
     (let rest = unread t @ inbox (world t)
      in case thread_state (t_data t) of
           SendingData \<Rightarrow> received t # packets [] rest
         | ClosedConnection \<Rightarrow> []
         | _ \<Rightarrow> packets (received t) rest)"

text \<open>The store and the bytes sent once all packets still to come have been answered.\<close>

definition outcome :: "'w thread \<Rightarrow> 's \<times> byte list" where
  "outcome t =
     (foldl append (store (world t)) (todo t),
      outbox (world t) @ replies append bytes (store (world t)) (todo t))"

text \<open>What a pass does when no call fails.\<close>

definition on_course :: "'w thread \<Rightarrow> 'w thread \<Rightarrow> bool" where
  "on_course t t' \<longleftrightarrow>
     (reliable (world t) \<and> bd_buffer (rb_new t) \<noteq> None \<longrightarrow>
        reliable (world t') \<and> bd_buffer (rb_new t') \<noteq> None \<and> outcome t' = outcome t \<and>
        (thread_state (t_data t') = ClosedConnection \<longrightarrow>
           inbox (world t') = [] \<or> thread_state (t_data t) = ClosedConnection \<and> inbox (world t') = inbox (world t)))"

text \<open>
  What the two handlers do that touch nothing shared: the store and the mutex stay, and the
  packets still to be answered and the bytes sent do not change.
\<close>

definition private_turn :: "'w thread \<Rightarrow> 'w thread \<Rightarrow> bool" where
  "private_turn t t' \<longleftrightarrow>
     store (world t') = store (world t) \<and> locked (world t') = locked (world t) \<and>
     (reliable (world t) \<and> bd_buffer (rb_new t) \<noteq> None \<longrightarrow>
        reliable (world t') \<and> bd_buffer (rb_new t') \<noteq> None \<and> todo t' = todo t \<and>
        outbox (world t') = outbox (world t) \<and>
        (thread_state (t_data t') = ClosedConnection \<longrightarrow>
           inbox (world t') = [] \<or> thread_state (t_data t) = ClosedConnection \<and> inbox (world t') = inbox (world t)))"

lemma private_turn_on_course: "private_turn t t' \<Longrightarrow> on_course t t'"
  by (auto simp: private_turn_def on_course_def outcome_def)

text \<open>What the third handler does: the first packet to be answered is answered.\<close>

definition answers_packet :: "'w thread \<Rightarrow> 'w thread \<Rightarrow> bool" where
  "answers_packet t t' \<longleftrightarrow>
     (reliable (world t) \<and> bd_buffer (rb_new t) \<noteq> None \<longrightarrow>
        reliable (world t') \<and> bd_buffer (rb_new t') \<noteq> None \<and> thread_state (t_data t') \<noteq> ClosedConnection \<and>
        (\<exists>p. todo t = p # todo t' \<and> store (world t') = append (store (world t)) p \<and>
           outbox (world t') = outbox (world t) @ bytes (append (store (world t)) p)))"

lemma answers_packet_on_course: "answers_packet t t' \<Longrightarrow> on_course t t'"
  by (auto simp: answers_packet_def on_course_def outcome_def)

lemma close_on_error_simps [simp]:
  "close_on_error (- 1, t) = set_state ClosedConnection t"
  "rc \<noteq> - 1 \<Longrightarrow> close_on_error (rc, t) = t"
  by (simp_all add: close_on_error_def)

lemma set_state_simps [simp]:
  "thread_state (t_data (set_state q t)) = q" "client_fd (t_data (set_state q t)) = client_fd (t_data t)"
  "rb_data (set_state q t) = rb_data t" "rb_new (set_state q t) = rb_new t"
  "heap (set_state q t) = heap t" "world (set_state q t) = world t"
  "owns h0 (set_state q t) = owns h0 t"
  by (simp_all add: set_state_def owns_def)

lemma unread_size:
  assumes "buffers_ok t"
  shows "length (unread t) = unat (bd_size (rb_new t))" "unread t = [] \<longleftrightarrow> bd_size (rb_new t) = 0"
proof -
  show "length (unread t) = unat (bd_size (rb_new t))"
    using assms by (simp add: buffers_ok_def length_filled)
  then show "unread t = [] \<longleftrightarrow> bd_size (rb_new t) = 0"
    by (metis length_0_conv unat_eq_zero)
qed

lemma session_inv_closed:
  "inv (world t) \<Longrightarrow> owns h0 t \<Longrightarrow> finite (dom h0) \<Longrightarrow> session_inv h0 (set_state ClosedConnection t)"
  by (simp add: session_inv_def)

lemma waiting_turn:
  assumes "session_inv h0 t" "thread_state (t_data t) = WaitingForData"
  shows "\<exists>x. waiting_for_data sys t = Some (Inr x) \<and> session_inv h0 (close_on_error x) \<and>
    togo (close_on_error x) < togo t \<and> private_turn t (close_on_error x)"
proof -
  have t: "inv (world t)" "owns h0 t" "buffers_ok t" "load t < 2 ^ 31" "bd_size (rb_new t) = 0"
    "finite (dom h0)" using assms by (auto simp: session_inv_def)
  then have "length (received t) < 2 ^ 31" by (simp add: load_def)
  from waiting_for_data_ok[OF t(1-3) this t(6)] obtain rc t' where
    w: "waiting_for_data sys t = Some (Inr (rc, t'))" "owns h0 t'" "took_data t rc t'" by blast
  have un: "unread t = []" using unread_size(2)[OF t(3)] t(5) by simp
  have w': "inv (world t')" "locked (world t') = locked (world t)" "store (world t') = store (world t)"
    "outbox (world t') = outbox (world t)" "bd_buffer (rb_new t') = bd_buffer (rb_new t)"
    "reliable (world t) \<Longrightarrow> reliable (world t')"
    "reliable (world t) \<Longrightarrow> bd_buffer (rb_new t) \<noteq> None \<Longrightarrow> rc = 0"
    using w(3) by (simp_all add: took_data_def)
  from w(3) consider (error) "rc = -1" | (eof) "rc = 0" "thread_state (t_data t') = ClosedConnection"
      "inbox (world t) = []" "inbox (world t') = []"
    | (data) "rc = 0" "thread_state (t_data t') = ProcessingData" "buffers_ok t'" "received t' = received t"
        "unread t' \<noteq> []" "inbox (world t) = unread t' @ inbox (world t')"
    unfolding took_data_def by blast
  then have "session_inv h0 (close_on_error (rc, t')) \<and> togo (close_on_error (rc, t')) < togo t \<and>
    private_turn t (close_on_error (rc, t'))"
  proof cases
    case error
    have "rc \<noteq> 0" using error by simp
    then have "\<not> (reliable (world t) \<and> bd_buffer (rb_new t) \<noteq> None)" using w'(7) by blast
    moreover have "store (world (close_on_error (rc, t'))) = store (world t)"
      "locked (world (close_on_error (rc, t'))) = locked (world t)" using error w'(2,3) by simp_all
    ultimately have "private_turn t (close_on_error (rc, t'))" unfolding private_turn_def by blast
    with error w'(1,2) w(2) assms(2) t(6) show ?thesis
      by (simp add: togo_def session_inv_closed)
  next
    case eof
    with w' w(2) assms(2) un t(6) show ?thesis
      by (simp add: private_turn_def togo_def session_inv_def todo_def)
  next
    case data
    have "0 < bd_size (rb_new t')" using unread_size(2)[OF data(3)] data(5) by (simp add: word_gt_0)
    moreover have "load t' < 2 ^ 31" using data un t(4) by (simp add: load_def)
    ultimately have "session_inv h0 t'"
      using w'(1,2) w(2) data(2,3) t(6) by (simp add: session_inv_def)
    moreover have "togo t' < togo t"
      using data(2,5,6) assms(2) by (cases "unread t'") (simp_all add: togo_def)
    moreover have "todo t' = todo t"
      using data(2,4,6) assms(2) un by (simp add: todo_def)
    ultimately show ?thesis using data(1,2) w'(2-6) by (simp add: private_turn_def)
  qed
  with w(1) show ?thesis by blast
qed

lemma processing_turn:
  assumes "session_inv h0 t" "thread_state (t_data t) = ProcessingData"
  shows "\<exists>x. process_received_data t = Inr x \<and> session_inv h0 (close_on_error x) \<and>
    togo (close_on_error x) < togo t \<and> private_turn t (close_on_error x)"
proof -
  have t: "inv (world t)" "owns h0 t" "buffers_ok t" "load t < 2 ^ 31" "0 < bd_size (rb_new t)"
    "finite (dom h0)" using assms by (auto simp: session_inv_def)
  obtain t' where p: "process_received_data t = Inr (0, t')" "world t' = world t" "buffers_ok t'" "owns h0 t'"
    and cases: "thread_state (t_data t') = SendingData \<and>
       (\<exists>us. unread t = us @ newline # unread t' \<and> newline \<notin> set us \<and>
             received t' = received t @ us @ [newline]) \<or>
     thread_state (t_data t') = WaitingForData \<and> newline \<notin> set (unread t) \<and>
       received t' = received t @ unread t \<and> bd_size (rb_new t') = 0"
    and rn: "bd_buffer (rb_new t') = bd_buffer (rb_new t)"
    using process_received_data_ok[OF t(3,2,5)] by blast
  from cases have "session_inv h0 t' \<and> togo t' < togo t \<and> todo t' = todo t \<and>
      thread_state (t_data t') \<noteq> ClosedConnection"
  proof (elim disjE conjE exE)
    fix us assume s: "thread_state (t_data t') = SendingData" "unread t = us @ newline # unread t'"
      "newline \<notin> set us" "received t' = received t @ us @ [newline]"
    have "load t' = load t" using s p(2) by (simp add: load_def)
    then have "session_inv h0 t'" using s(1,4) p t by (simp add: session_inv_def)
    moreover have "togo t' < togo t" using s assms(2) p(2) by (simp add: togo_def)
    moreover have "todo t' = todo t"
      using s assms(2) p(2) by (simp add: todo_def packets_end)
    ultimately show ?thesis using s(1) by simp
  next
    assume s: "thread_state (t_data t') = WaitingForData" "newline \<notin> set (unread t)"
      "received t' = received t @ unread t" "bd_size (rb_new t') = 0"
    have un: "unread t' = []" "unread t \<noteq> []"
      using unread_size(2)[OF p(3)] unread_size(2)[OF t(3)] s(4) t(5) by auto
    have "load t' = load t" using s un p(2) by (simp add: load_def)
    then have "session_inv h0 t'" using s(1,4) p t by (simp add: session_inv_def)
    moreover have "togo t' < togo t"
      using s(1) assms(2) p(2) un by (cases "unread t") (simp_all add: togo_def)
    moreover have "todo t' = todo t"
      using s assms(2) p(2) un by (simp add: todo_def packets_no_end)
    ultimately show ?thesis using s(1) by simp
  qed
  with p(1,2) rn show ?thesis by (auto simp: private_turn_def)
qed

lemma emptied_buffers:
  assumes "buffers_ok t" "heap t' = heap t" "rb_new t' = rb_new t" "rb_data t' = (rb_data t)\<lparr>bd_size := 0\<rparr>"
  shows "buffers_ok t'" "received t' = []" "unread t' = unread t"
  using assms by (auto simp: buffers_ok_def buffer_ok_def filled_def split: option.splits)

lemma sending_turn:
  assumes "thread_inv h0 t" "thread_state (t_data t) = SendingData"
  shows "\<exists>x. sending_data cfg sys t = Some (Inr x) \<and> thread_inv h0 (close_on_error x) \<and>
    togo (close_on_error x) < togo t \<and> answers_packet t (close_on_error x)"
proof -
  have t: "inv (world t)" "\<not> locked (world t)" "buffers_ok t" "received t \<noteq> []"
    "last (received t) = newline" "owns h0 t" "load t < 2 ^ 31" "finite (dom h0)"
    using assms by (auto simp: thread_inv_def session_inv_def)
  have len: "length (received t) < 2 ^ 31" using t(7) by (simp add: load_def)
  obtain rc t' where s: "sending_data cfg sys t = Some (Inr (rc, t'))" "sent_packet t rc t'"
    using sending_data_ok[OF t(1-5) len] by blast
  have t': "inv (world t')" "\<not> locked (world t')" "inbox (world t') = inbox (world t)"
    "heap t' = heap t" "rb_new t' = rb_new t" "bd_buffer (rb_data t') = bd_buffer (rb_data t)"
    "reliable (world t) \<Longrightarrow> reliable (world t')" "reliable (world t) \<Longrightarrow> rc = 0"
    using s(2) by (simp_all add: sent_packet_def)
  have owns: "owns h0 t'" using t(6) t'(4-6) by (simp add: owns_def)
  consider "rc = -1" | (ok) "rc = 0" "rb_data t' = (rb_data t)\<lparr>bd_size := 0\<rparr>"
      "store (world t') = append (store (world t)) (received t)"
      "outbox (world t') = outbox (world t) @ bytes (append (store (world t)) (received t))"
      "thread_state (t_data t') = (if 0 < bd_size (rb_new t) then ProcessingData else WaitingForData)"
    using s(2) unfolding sent_packet_def by blast
  then have "thread_inv h0 (close_on_error (rc, t')) \<and> togo (close_on_error (rc, t')) < togo t \<and>
    answers_packet t (close_on_error (rc, t'))"
  proof cases
    case 1
    then have "rc \<noteq> 0" by simp
    then have "answers_packet t (close_on_error (rc, t'))" using t'(8) unfolding answers_packet_def by blast
    with 1 t'(1,2) owns assms(2) t(8) show ?thesis by (simp add: togo_def thread_inv_def session_inv_closed)
  next
    case ok
    note e = emptied_buffers[OF t(3) t'(4,5) ok(2)]
    have "load t' < 2 ^ 31" using t(7) e t'(3) by (simp add: load_def)
    then have "thread_inv h0 t'"
      using ok(5) e t' owns t(8) by (simp add: thread_inv_def session_inv_def word_gt_0)
    moreover have "togo t' < togo t"
      using assms(2) ok(5) e t'(3) unread_size(2)[OF t(3)] by (simp add: togo_def word_gt_0)
    moreover have "todo t = received t # todo t'"
      using assms(2) ok(5) e t'(3) unread_size(2)[OF t(3)] by (simp add: todo_def Let_def)
    ultimately show ?thesis using ok(1,3-5) t'(5,7) by (simp add: answers_packet_def)
  qed
  with s(1) show ?thesis by blast
qed

text \<open>The same for a thread that runs alone.\<close>

lemma private_turn_alone:
  "thread_inv h0 t \<Longrightarrow> session_inv h0 t' \<Longrightarrow> private_turn t t' \<Longrightarrow> thread_inv h0 t' \<and> on_course t t'"
  by (auto simp: thread_inv_def private_turn_def intro: private_turn_on_course[unfolded private_turn_def])

lemma waiting_step:
  assumes "thread_inv h0 t" "thread_state (t_data t) = WaitingForData"
  shows "\<exists>x. waiting_for_data sys t = Some (Inr x) \<and> thread_inv h0 (close_on_error x) \<and>
    togo (close_on_error x) < togo t \<and> on_course t (close_on_error x)"
  using waiting_turn[of h0 t] assms private_turn_alone[OF assms(1)] by (auto simp: thread_inv_def)

lemma processing_step:
  assumes "thread_inv h0 t" "thread_state (t_data t) = ProcessingData"
  shows "\<exists>x. process_received_data t = Inr x \<and> thread_inv h0 (close_on_error x) \<and>
    togo (close_on_error x) < togo t \<and> on_course t (close_on_error x)"
  using processing_turn[of h0 t] assms private_turn_alone[OF assms(1)] by (auto simp: thread_inv_def)

lemma sending_step:
  assumes "thread_inv h0 t" "thread_state (t_data t) = SendingData"
  shows "\<exists>x. sending_data cfg sys t = Some (Inr x) \<and> thread_inv h0 (close_on_error x) \<and>
    togo (close_on_error x) < togo t \<and> on_course t (close_on_error x)"
  using sending_turn[OF assms] answers_packet_on_course by blast

section \<open>The session\<close>

lemma thread_step_ok:
  assumes "thread_inv h0 t"
  shows "\<exists>keep t'. thread_step cfg sys t = Some (Inr (keep, t')) \<and> thread_inv h0 t' \<and> on_course t t' \<and>
    (keep \<longrightarrow> togo t' < togo t) \<and> (\<not> keep \<longrightarrow> reliable (world t) \<longrightarrow> thread_state (t_data t) = ClosedConnection)"
proof -
  obtain b w1 where sg: "sys_signal sys (world t) = (b, w1)" by (cases "sys_signal sys (world t)")
  let ?t = "t\<lparr>world := w1\<rparr>"
  have inv: "inv (world t)" using assms by (simp add: thread_inv_def session_inv_def)
  note law = signal_law[OF inv sg]
  have w1: "inv w1" "store w1 = store (world t)" "locked w1 = locked (world t)"
    "inbox w1 = inbox (world t)" "outbox w1 = outbox (world t)" "reliable (world t) \<longrightarrow> reliable w1 \<and> \<not> b"
    using law by (simp_all add: same_def)
  have o: "owns h0 ?t = owns h0 t" "buffers_ok ?t = buffers_ok t" by (simp_all add: owns_def buffers_ok_def)
  have t1: "thread_inv h0 ?t" "togo ?t = togo t" "outcome ?t = outcome t"
    using assms w1 o
    by (cases "thread_state (t_data t)"; simp add: thread_inv_def session_inv_def load_def togo_def outcome_def todo_def)+
  have oc: "on_course t t'" if "on_course ?t t'" for t'
    using that t1(3) w1(4,6) by (simp add: on_course_def)
  have step: ?thesis if "thread_step cfg sys t = Some (Inr (\<not> b, close_on_error x))"
    "thread_inv h0 (close_on_error x)" "togo (close_on_error x) < togo ?t" "on_course ?t (close_on_error x)" for x
    using that t1(2) oc[OF that(4)] w1(6) by (intro exI[of _ "\<not> b"] exI[of _ "close_on_error x"]) auto
  show ?thesis
  proof (cases "thread_state (t_data t)")
    case SendingData
    then have "thread_state (t_data ?t) = SendingData" by simp
    from sending_step[OF t1(1) this] obtain x where "sending_data cfg sys ?t = Some (Inr x)" "thread_inv h0 (close_on_error x)"
      "togo (close_on_error x) < togo ?t" "on_course ?t (close_on_error x)"
      by blast
    with SendingData show ?thesis by (intro step[of x]) (simp_all add: thread_step_def sg)
  next
    case WaitingForData
    then have "thread_state (t_data ?t) = WaitingForData" by simp
    from waiting_step[OF t1(1) this] obtain x where "waiting_for_data sys ?t = Some (Inr x)" "thread_inv h0 (close_on_error x)"
      "togo (close_on_error x) < togo ?t" "on_course ?t (close_on_error x)"
      by blast
    with WaitingForData show ?thesis by (intro step[of x]) (simp_all add: thread_step_def sg)
  next
    case ProcessingData
    then have "thread_state (t_data ?t) = ProcessingData" by simp
    from processing_step[OF t1(1) this] obtain x where "process_received_data ?t = Inr x" "thread_inv h0 (close_on_error x)"
      "togo (close_on_error x) < togo ?t" "on_course ?t (close_on_error x)"
      by blast
    with ProcessingData show ?thesis by (intro step[of x]) (simp_all add: thread_step_def sg)
  next
    case ClosedConnection
    then have "thread_step cfg sys t = Some (Inr (False, ?t))" by (simp add: thread_step_def sg)
    moreover have "on_course t ?t" using t1(3) w1(4,6) ClosedConnection
      by (simp add: on_course_def)
    ultimately show ?thesis using t1(1) ClosedConnection
      by (intro exI[of _ False] exI[of _ ?t]) simp
  qed
qed

lemma on_course_trans:
  assumes "on_course t t'" "on_course t' t''"
  shows "on_course t t''"
  using assms unfolding on_course_def by metis

text \<open>The loop ends, whatever the calls answer, and keeps the invariant.\<close>

lemma thread_loop_ok:
  assumes "thread_inv h0 t"
  shows "\<exists>t'. thread_loop cfg sys t = Some (Inr t') \<and> thread_inv h0 t' \<and> on_course t t' \<and>
    (reliable (world t) \<and> bd_buffer (rb_new t) \<noteq> None \<longrightarrow> todo t' = [])"
  using assms
proof (induction "togo t" arbitrary: t rule: less_induct)
  case less
  obtain keep t1 where s: "thread_step cfg sys t = Some (Inr (keep, t1))" "thread_inv h0 t1" "on_course t t1"
    "keep \<longrightarrow> togo t1 < togo t"
    "\<not> keep \<longrightarrow> reliable (world t) \<longrightarrow> thread_state (t_data t) = ClosedConnection"
    using thread_step_ok[OF less.prems] by blast
  show ?case
  proof (cases keep)
    case True
    with s obtain t' where t': "thread_loop cfg sys t1 = Some (Inr t')" "thread_inv h0 t'" "on_course t1 t'"
      "reliable (world t1) \<and> bd_buffer (rb_new t1) \<noteq> None \<longrightarrow> todo t' = []"
      using less.hyps[of t1] by blast
    have "thread_loop cfg sys t = Some (Inr t')"
      using True s(1) t'(1) by (subst thread_loop.simps) simp
    moreover have "reliable (world t) \<and> bd_buffer (rb_new t) \<noteq> None \<longrightarrow> todo t' = []"
      using t'(4) s(3) unfolding on_course_def by blast
    ultimately show ?thesis using t'(2) on_course_trans[OF s(3) t'(3)] by blast
  next
    case False
    then have "thread_loop cfg sys t = Some (Inr t1)"
      using s(1) by (subst thread_loop.simps) simp
    moreover have "todo t1 = []" if "reliable (world t)"
    proof -
      have "thread_state (t_data t) = ClosedConnection" using False s(5) that by blast
      then have "thread_state (t_data t1) = ClosedConnection"
        using s(1) by (auto simp: thread_step_def split: prod.splits)
      then show ?thesis by (simp add: todo_def)
    qed
    ultimately show ?thesis using s(2,3) by blast
  qed
qed

text \<open>The state in which the loop starts, after the receive buffer was allocated.\<close>

lemma thread_start_inv:
  assumes "inv w" "\<not> locked w" "alloc_ok h 1024 ans" "mem_alloc h ans = (buf, h1)"
    "thread_state d = WaitingForData" "length (inbox w) < 2 ^ 31" "finite (dom h)"
  defines "t \<equiv> \<lparr>t_data = d, rb_data = \<lparr>bd_buffer = None, bd_size = 0, bd_allocated = 0\<rparr>,
    rb_new = \<lparr>bd_buffer = buf, bd_size = 0, bd_allocated = RECV_BUFFER_TEMP_SIZE\<rparr>, heap = h1, world = w\<rparr>"
  shows "thread_inv h t" "received t = []" "unread t = []"
proof -
  show e: "received t = []" "unread t = []" by (simp_all add: t_def filled_def split: option.splits)
  have "owns h t" "buffers_ok t"
    using assms(3,4)
    by (auto simp: t_def owns_def buffers_ok_def buffer_ok_def alloc_ok_def mem_alloc_def
          RECV_BUFFER_TEMP_SIZE_def split: option.splits if_splits)
  then show "thread_inv h t" using assms(1,2,5-7) e by (simp add: t_def thread_inv_def session_inv_def load_def)
qed

lemma unat_temp_size: "unat RECV_BUFFER_TEMP_SIZE = 1024"
  by (simp add: RECV_BUFFER_TEMP_SIZE_def)

lemma main_loop_thread_ok:
  assumes "inv w" "\<not> locked w" "thread_state d = WaitingForData" "length (inbox w) < 2 ^ 31"
    "finite (dom h)"
  shows "\<exists>r. main_loop_thread cfg sys d h w = Some r \<and>
    (fst (sys_alloc_struct sys w) \<and> fst (sys_alloc_struct sys (snd (sys_alloc_struct sys w))) \<longrightarrow>
       (\<exists>t. r = Inr t \<and> heap t = h \<and> inv (world t) \<and> \<not> locked (world t))) \<and>
    (reliable w \<longrightarrow>
       (\<exists>t. r = Inr t \<and> reliable (world t) \<and>
          store (world t) = foldl append (store w) (packets [] (inbox w)) \<and>
          outbox (world t) = outbox w @ replies append bytes (store w) (packets [] (inbox w))))"
proof -
  obtain b1 w1 where a1: "sys_alloc_struct sys w = (b1, w1)" by (cases "sys_alloc_struct sys w")
  note l1 = alloc_struct_law[OF assms(1) a1]
  obtain b2 w2 where a2: "sys_alloc_struct sys w1 = (b2, w2)" by (cases "sys_alloc_struct sys w1")
  have i1: "inv w1" using l1 by (simp add: same_def)
  note l2 = alloc_struct_law[OF i1 a2]
  have i2: "inv w2" using l2 by (simp add: same_def)
  obtain ans w3 where a3: "sys_alloc sys h 1024 w2 = (ans, w3)" by (cases "sys_alloc sys h 1024 w2")
  note l3 = alloc_law[OF i2 a3]
  have w3: "inv w3" "\<not> locked w3" "store w3 = store w" "inbox w3 = inbox w" "outbox w3 = outbox w"
    "reliable w \<longrightarrow> reliable w3 \<and> b1 \<and> b2 \<and> ans \<noteq> None" "alloc_ok h 1024 ans"
    using l1 l2 l3 assms(2,5) by (auto simp: same_def)
  obtain buf h1 where m: "mem_alloc h ans = (buf, h1)" by (cases "mem_alloc h ans")
  define t where "t = \<lparr>t_data = d, rb_data = \<lparr>bd_buffer = None, bd_size = 0, bd_allocated = 0\<rparr>,
    rb_new = \<lparr>bd_buffer = buf, bd_size = 0, bd_allocated = RECV_BUFFER_TEMP_SIZE\<rparr>, heap = h1, world = w3\<rparr>"
  have len: "length (inbox w3) < 2 ^ 31" using w3(4) assms(4) by simp
  note st = thread_start_inv[OF w3(1,2,7) m assms(3) len assms(5), folded t_def]
  from thread_loop_ok[OF st(1)] obtain t' where
    t': "thread_loop cfg sys t = Some (Inr t')" "thread_inv h t'" "on_course t t'"
    "reliable (world t) \<and> bd_buffer (rb_new t) \<noteq> None \<longrightarrow> todo t' = []" by blast
  have own: "owns h t'" and fin: "inv (world t')" "\<not> locked (world t')"
    using t'(2) by (simp_all add: thread_inv_def session_inv_def)
  show ?thesis
  proof (cases "b1 \<and> b2")
    case False
    then have "main_loop_thread cfg sys d h w = Some (Inl NullDeref)"
      using a1 a2 by (auto simp: main_loop_thread_def)
    moreover have "\<not> reliable w" using False w3(6) by blast
    ultimately show ?thesis using False a1 a2 by auto
  next
    case True
    have r: "main_loop_thread cfg sys d h w = Some (Inr (t'\<lparr>heap := h\<rparr>))"
      using a1 a2 a3 m True t'(1) thread_cleanup_restores[OF own]
      by (simp add: main_loop_thread_def unat_temp_size t_def Let_def)
    have "outcome t' = outcome t \<and> todo t' = [] \<and> reliable (world t')" if "reliable w"
    proof -
      have "buf \<noteq> None" using m w3(6) that by (auto simp: mem_alloc_def)
      then have "reliable (world t) \<and> bd_buffer (rb_new t) \<noteq> None" using w3(6) that by (simp add: t_def)
      then show ?thesis using t'(3,4) unfolding on_course_def by blast
    qed
    moreover have "outcome t = (foldl append (store w) (packets [] (inbox w)),
        outbox w @ replies append bytes (store w) (packets [] (inbox w)))"
      using st(2,3) w3(3-5) assms(3) by (simp add: t_def outcome_def todo_def)
    ultimately show ?thesis using r fin by (auto simp: outcome_def)
  qed
qed

end

end
