(* ===== verification/Session_Steps.thy ===== *)
theory Session_Steps
  imports Thread_Steps Socket_Session
begin

text \<open>
  The passes of a client thread outside \<open>sending_data\<close>, for the runs in which several threads take
  turns: from the laws of the calls, a pass returns, keeps what the thread owns and neither sees
  nor changes the store.
\<close>

text \<open>The threads of a list of clients, each with its data and its world, before their first pass.\<close>

fun begin_all :: "'w sys \<Rightarrow> (ThreadData \<times> 'w) list \<Rightarrow> fault + 'w thread list" where
  "begin_all sys [] = Inr []"
| "begin_all sys ((d, w) # cls) =
     bindE (begin_thread sys d Map.empty w) (\<lambda>t. bindE (begin_all sys cls) (\<lambda>ts. Inr (t # ts)))"

context server_env
begin

lemma session_world:
  assumes "inv w" "inbox w = inbox (world t)"
  shows "session_inv h0 t \<Longrightarrow> session_inv h0 (t\<lparr>world := w\<rparr>)"
    "togo (t\<lparr>world := w\<rparr>) = togo t" "todo (t\<lparr>world := w\<rparr>) = todo t"
  using assms
  by (cases "thread_state (t_data t)"; simp add: session_inv_def owns_def buffers_ok_def load_def togo_def todo_def)+

lemma leave_ok:
  assumes "session_inv h0 t"
  shows "leave_pass keep t = Inr (if keep then (AtTop, t) else (Ended, t\<lparr>heap := h0\<rparr>))"
proof -
  have "owns h0 t" using assms by (simp add: session_inv_def)
  from thread_cleanup_restores[OF this] show ?thesis by (simp add: leave_pass_def)
qed

text \<open>Where a pass that starts at the head of the loop leads.\<close>

definition outside_step :: "memory \<Rightarrow> 'w thread \<Rightarrow> thread_pc \<Rightarrow> 'w thread \<Rightarrow> bool" where
  "outside_step h0 t pc1 t1 \<longleftrightarrow>
     inv (world t1) \<and> store (world t1) = store (world t) \<and> locked (world t1) = locked (world t) \<and>
     (case pc1 of
        AtTop \<Rightarrow> session_inv h0 t1 \<and> togo t1 < togo t \<and> private_turn t t1
      | InSending keep pc \<Rightarrow>
          pc = AtLock \<and> session_inv h0 t1 \<and> thread_state (t_data t1) = SendingData \<and>
          togo t1 = togo t \<and> private_turn t t1 \<and> (reliable (world t) \<longrightarrow> keep)
      | Ended \<Rightarrow>
          reliable (world t) \<and> bd_buffer (rb_new t) \<noteq> None \<longrightarrow>
            reliable (world t1) \<and> bd_buffer (rb_new t1) \<noteq> None \<and> outbox (world t1) = outbox (world t) \<and>
            todo t = [])"

lemma leave_outside:
  assumes "session_inv h0 t'" "private_turn t t'"
    and "\<not> keep \<Longrightarrow> reliable (world t) \<Longrightarrow> thread_state (t_data t') = ClosedConnection"
    and "keep \<Longrightarrow> togo t' < togo t"
  shows "\<exists>pc1 t1. leave_pass keep t' = Inr (pc1, t1) \<and> outside_step h0 t pc1 t1"
proof (cases keep)
  case True
  with assms show ?thesis by (auto simp: leave_ok outside_step_def private_turn_def session_inv_def)
next
  case False
  have "todo t' = []" if "reliable (world t)" using assms(3)[OF False that] by (simp add: todo_def)
  with False assms show ?thesis by (auto simp: leave_ok outside_step_def private_turn_def session_inv_def)
qed

lemma top_step:
  assumes "session_inv h0 t"
  shows "\<exists>pc1 t1. thread_small_step cfg sys AtTop t = Some (Inr (pc1, t1)) \<and> outside_step h0 t pc1 t1"
proof -
  obtain b w1 where sg: "sys_signal sys (world t) = (b, w1)" by (cases "sys_signal sys (world t)")
  let ?t = "t\<lparr>world := w1\<rparr>"
  have inv: "inv (world t)" using assms by (simp add: session_inv_def)
  have w1: "inv w1" "store w1 = store (world t)" "locked w1 = locked (world t)" "inbox w1 = inbox (world t)"
    "outbox w1 = outbox (world t)" "reliable (world t) \<longrightarrow> reliable w1 \<and> \<not> b"
    using signal_law[OF inv sg] by (simp_all add: same_def)
  note t1 = session_world[OF w1(1,4)]
  have pt: "private_turn t t'" if "private_turn ?t t'" for t'
    using that w1 t1(3) by (auto simp: private_turn_def)
  have handled: "\<exists>pc1 t1. leave_pass (\<not> b) (close_on_error x) = Inr (pc1, t1) \<and> outside_step h0 t pc1 t1"
    if "session_inv h0 (close_on_error x)" "togo (close_on_error x) < togo ?t"
      "private_turn ?t (close_on_error x)" for x
    using that t1(2) w1(6) by (intro leave_outside pt) auto
  show ?thesis
  proof (cases "thread_state (t_data t)")
    case SendingData
    have "outside_step h0 t (InSending (\<not> b) AtLock) ?t"
      using SendingData w1 t1(2,3) t1(1)[OF assms] by (auto simp: outside_step_def private_turn_def)
    with SendingData sg show ?thesis by (auto simp: thread_small_step_def)
  next
    case WaitingForData
    then have "thread_state (t_data ?t) = WaitingForData" by simp
    from waiting_turn[OF t1(1)[OF assms] this] obtain x where "waiting_for_data sys ?t = Some (Inr x)"
      "session_inv h0 (close_on_error x)" "togo (close_on_error x) < togo ?t" "private_turn ?t (close_on_error x)"
      by blast
    with handled[OF this(2-4)] WaitingForData sg show ?thesis by (auto simp: thread_small_step_def)
  next
    case ProcessingData
    then have "thread_state (t_data ?t) = ProcessingData" by simp
    from processing_turn[OF t1(1)[OF assms] this] obtain x where "process_received_data ?t = Inr x"
      "session_inv h0 (close_on_error x)" "togo (close_on_error x) < togo ?t" "private_turn ?t (close_on_error x)"
      by blast
    with handled[OF this(2-4)] ProcessingData sg show ?thesis by (auto simp: thread_small_step_def)
  next
    case ClosedConnection
    have "private_turn t ?t" using w1 t1(3) ClosedConnection by (auto simp: private_turn_def)
    then have "\<exists>pc1 t1. leave_pass False ?t = Inr (pc1, t1) \<and> outside_step h0 t pc1 t1"
      using t1(1)[OF assms] ClosedConnection by (intro leave_outside) auto
    with ClosedConnection sg show ?thesis by (auto simp: thread_small_step_def)
  qed
qed

text \<open>The start of a thread.\<close>

lemma begin_thread_ok:
  assumes "inv w" "\<not> locked w" "begin_thread sys d h w = Inr t" "thread_state d = WaitingForData"
    "length (inbox w) < 2 ^ 31" "finite (dom h)"
  shows "session_inv h t" "todo t = packets [] (inbox w)" "outbox (world t) = outbox w"
    "reliable w \<Longrightarrow> reliable (world t) \<and> bd_buffer (rb_new t) \<noteq> None"
proof -
  obtain b1 w1 where a1: "sys_alloc_struct sys w = (b1, w1)" by (cases "sys_alloc_struct sys w")
  note l1 = alloc_struct_law[OF assms(1) a1]
  obtain b2 w2 where a2: "sys_alloc_struct sys w1 = (b2, w2)" by (cases "sys_alloc_struct sys w1")
  have "inv w1" using l1 by (simp add: same_def)
  note l2 = alloc_struct_law[OF this a2]
  have i2: "inv w2" using l2 by (simp add: same_def)
  obtain ans w3 where a3: "sys_alloc sys h 1024 w2 = (ans, w3)" by (cases "sys_alloc sys h 1024 w2")
  note l3 = alloc_law[OF i2 a3]
  have w3: "inv w3" "\<not> locked w3" "inbox w3 = inbox w" "outbox w3 = outbox w" "alloc_ok h 1024 ans"
    "reliable w \<longrightarrow> reliable w3 \<and> ans \<noteq> None"
    using l1 l2 l3 assms(2,6) by (auto simp: same_def)
  obtain buf h1 where m: "mem_alloc h ans = (buf, h1)" by (cases "mem_alloc h ans")
  have t: "t = \<lparr>t_data = d, rb_data = \<lparr>bd_buffer = None, bd_size = 0, bd_allocated = 0\<rparr>,
    rb_new = \<lparr>bd_buffer = buf, bd_size = 0, bd_allocated = RECV_BUFFER_TEMP_SIZE\<rparr>, heap = h1, world = w3\<rparr>"
    using assms(3) a1 a2 a3 m by (auto simp: begin_thread_def unat_temp_size Let_def split: if_splits)
  have len: "length (inbox w3) < 2 ^ 31" using w3(3) assms(5) by simp
  note st = thread_start_inv[OF w3(1,2,5) m assms(4) len assms(6), folded t]
  show "session_inv h t" using st(1) by (simp add: thread_inv_def)
  show "todo t = packets [] (inbox w)" using st(2,3) w3(3) assms(4) by (simp add: t todo_def)
  show "outbox (world t) = outbox w" using w3(4) by (simp add: t)
  show "reliable w \<Longrightarrow> reliable (world t) \<and> bd_buffer (rb_new t) \<noteq> None"
    using w3(6) m by (auto simp: t mem_alloc_def)
qed

text \<open>All threads of a list of clients.\<close>

lemma begin_all_nth:
  assumes "begin_all sys cls = Inr ts"
    "\<forall>(d, w) \<in> set cls. inv w \<and> \<not> locked w \<and> thread_state d = WaitingForData \<and> length (inbox w) < 2 ^ 31"
  shows "length ts = length cls \<and> (\<forall>i < length cls.
    session_inv Map.empty (ts ! i) \<and> todo (ts ! i) = packets [] (inbox (snd (cls ! i))) \<and>
    outbox (world (ts ! i)) = outbox (snd (cls ! i)) \<and>
    (reliable (snd (cls ! i)) \<longrightarrow> reliable (world (ts ! i)) \<and> bd_buffer (rb_new (ts ! i)) \<noteq> None))"
  using assms
proof (induction cls arbitrary: ts)
  case (Cons c cls)
  obtain d w where c: "c = (d, w)" by (cases c)
  from Cons.prems(1) obtain t ts1 where t: "begin_thread sys d Map.empty w = Inr t" "begin_all sys cls = Inr ts1"
    "ts = t # ts1" by (auto simp: c bindE_eq_Inr)
  have fit: "inv w" "\<not> locked w" "thread_state d = WaitingForData" "length (inbox w) < 2 ^ 31"
    "finite (dom (Map.empty :: memory))" using Cons.prems(2) by (simp_all add: c)
  from Cons.IH[OF t(2)] Cons.prems(2) begin_thread_ok[OF fit(1,2) t(1) fit(3-5)] t(3) show ?case
    by (auto simp: c nth_Cons split: nat.splits)
qed simp

end

end
