(* ===== verification/Socket_Server.thy ===== *)
theory Socket_Server
  imports Slist Socket_Thread
begin

text \<open>
  The main thread of \<^verbatim>\<open>server/aesdsocket.c\<close>: start-up and shut-down, the loop that accepts
  clients, creates a thread for each, joins the threads that have ended and writes time stamps,
  and the daemon's fork. As in \<open>Socket_Thread\<close> the system is an argument, and messages to the log
  are left out.
\<close>

section \<open>The system as the main thread sees it\<close>

text \<open>
  A system call with an integer result. The arguments that are constants of the code are left
  out: \<open>Socket\<close> is the IPv4 stream socket that \<open>getaddrinfo\<close> described, \<open>Listen\<close> has a backlog of
  10, \<open>Unlink\<close> removes \<open>FILE_PATH\<close>, \<open>Chdir\<close> goes to the root directory.
\<close>

datatype syscall =
    Pthread_mutex_init | Sigaction int | Getaddrinfo | Socket | Bind int | Listen int
  | Fcntl_getfl int | Fcntl_setfl int int | Accept int | Close int | Freeaddrinfo | Unlink
  | Fork | Setsid | Chdir | Open_dev_null | Dup2 int int | Exit int

text \<open>
  \<open>os_caught_signal\<close> reads the flag the signal handler sets, \<open>os_clock\<close> the seconds of the
  monotonic clock, \<open>os_eintr\<close> tells whether \<open>errno\<close> is \<open>EINTR\<close>, \<open>os_client_ip\<close> gives the bytes of
  the IPv4 address of the client accepted last, \<open>os_strftime\<close> the formatted local time, empty on a
  failure. The two allocators answer the \<open>malloc\<close> of a list item and of a thread's data;
  \<open>os_pthread_create\<close> starts \<open>main_loop_thread\<close> on the data at an address and gives a result and
  the thread's id, and \<open>os_tryjoin\<close> gives the result of \<open>pthread_tryjoin_np\<close> and the value that the
  thread returned.
\<close>

record 'w os =
  os_call :: "syscall \<Rightarrow> 'w \<Rightarrow> int \<times> 'w"
  os_caught_signal :: "'w \<Rightarrow> bool \<times> 'w"
  os_clock :: "'w \<Rightarrow> int \<times> 'w"
  os_eintr :: "'w \<Rightarrow> bool \<times> 'w"
  os_client_ip :: "'w \<Rightarrow> byte list \<times> 'w"
  os_strftime :: "'w \<Rightarrow> byte list \<times> 'w"
  os_alloc_item :: "links \<Rightarrow> 'w \<Rightarrow> addr option \<times> 'w"
  os_alloc_data :: "(addr \<rightharpoonup> ThreadData) \<Rightarrow> 'w \<Rightarrow> addr option \<times> 'w"
  os_pthread_create :: "addr \<Rightarrow> ThreadData \<Rightarrow> 'w \<Rightarrow> (int \<times> int) \<times> 'w"
  os_tryjoin :: "int \<Rightarrow> 'w \<Rightarrow> (int \<times> ptr) \<times> 'w"
  os_file :: "'w sys"

section \<open>State\<close>

datatype State = State_None | Startup | CreatingThread | ShuttingDown | Waiting | WritingTimeStamp

record LinkedListItem =
  thread_id :: int
  client_ip_string :: "byte list"

text \<open>
  The global variables, and the memory of the list items (their fields in \<open>items\<close>, their list
  entries in \<open>links\<close>) and of the data shared with the threads.
\<close>

record 'w server =
  current_state :: State
  keep_looping :: bool
  socket_fd :: int
  res_allocated :: bool
  daemon_enabled :: bool
  linked_list :: ptr
  links :: links
  items :: "addr \<rightharpoonup> LinkedListItem"
  datas :: "addr \<rightharpoonup> ThreadData"
  env :: 'w

definition initial_server :: "'w \<Rightarrow> 'w server" where
  "initial_server w =
     \<lparr>current_state = State_None, keep_looping = True, socket_fd = 0, res_allocated = False,
      daemon_enabled = False, linked_list = None, links = Map.empty, items = Map.empty,
      datas = Map.empty, env = w\<rparr>"

text \<open>One call that only its result and the system's state matter of.\<close>

definition do_call :: "'w os \<Rightarrow> syscall \<Rightarrow> 'w server \<Rightarrow> int \<times> 'w server" where
  "do_call os c s = (let (r, w) = os_call os c (env s) in (r, s\<lparr>env := w\<rparr>))"

definition SIGINT :: int where "SIGINT = 2"
definition SIGTERM :: int where "SIGTERM = 15"
definition O_NONBLOCK :: int where "O_NONBLOCK = 2048"

text \<open>The handler's effect on the flag \<open>caught_signal\<close>.\<close>

definition signal_handler :: "int \<Rightarrow> bool \<Rightarrow> bool" where
  "signal_handler signal_number caught_signal =
     (if signal_number = SIGINT \<or> signal_number = SIGTERM then True else caught_signal)"

section \<open>Start-up and shut-down\<close>

definition startup :: "build \<Rightarrow> 'w os \<Rightarrow> 'w server \<Rightarrow> int \<times> 'w server" where
  "startup cfg os s0 =
     (let s1 = s0\<lparr>current_state := Startup, linked_list := SLIST_INIT\<rparr>;
          s2 = (if disable_locking cfg then s1 else snd (do_call os Pthread_mutex_init s1));
          (r1, s3) = do_call os (Sigaction SIGTERM) s2
      in if r1 \<noteq> 0 then (-1, s3)
         else let (r2, s4) = do_call os (Sigaction SIGINT) s3
      in if r2 \<noteq> 0 then (-1, s4)
         else let (r3, s5) = do_call os Getaddrinfo s4
      in if r3 \<noteq> 0 then (-1, s5)
         else let (fd, s6) = do_call os Socket (s5\<lparr>res_allocated := True\<rparr>); s7 = s6\<lparr>socket_fd := fd\<rparr>
      in if fd = -1 then (-1, s7)
         else let (r4, s8) = do_call os (Bind fd) s7
      in if r4 = -1 then (-1, s8)
         else let (r5, s9) = do_call os (Listen fd) s8
      in if r5 = -1 then (-1, s9)
         else let (flags, s10) = do_call os (Fcntl_getfl fd) s9
      in if flags = -1 then (-1, s10)
         else let (r6, s11) = do_call os (Fcntl_setfl fd (or flags O_NONBLOCK)) s10
      in if r6 = -1 then (-1, s11) else (0, s11))"

definition shutting_down :: "build \<Rightarrow> 'w os \<Rightarrow> 'w server \<Rightarrow> int \<times> 'w server" where
  "shutting_down cfg os s0 =
     (let s1 = s0\<lparr>current_state := ShuttingDown\<rparr>;
          s2 = (if res_allocated s1 then (snd (do_call os Freeaddrinfo s1))\<lparr>res_allocated := False\<rparr> else s1);
          s3 = (if socket_fd s2 \<noteq> -1
                then (snd (do_call os (Close (socket_fd s2)) s2))\<lparr>socket_fd := -1\<rparr> else s2);
          s4 = (if use_aesd_char_device cfg then s3 else snd (do_call os Unlink s3))
      in (0, s4))"

section \<open>Time stamps\<close>

definition write_time_stamp :: "build \<Rightarrow> 'w os \<Rightarrow> 'w \<Rightarrow> int \<times> 'w" where
  "write_time_stamp cfg os w =
     (let sys = os_file os; (time_buffer, w1) = os_strftime os w
      in if time_buffer = [] then (-1, w1)
         else let (rc, w2) = get_file_mutex cfg sys w1
      in if rc = -1 then (-1, w2)
         else let (f_fd, w3) = open_file_for_read_write sys w2
      in if f_fd = -1 then (-1, snd (release_file_mutex cfg sys w3))
         else let (wrc, w4) = write_to_file sys f_fd (takeWhile (\<lambda>c. c \<noteq> 0) time_buffer) w3
      in if wrc = -1 then (-1, close_and_release cfg sys f_fd w4)
         else let (crc, w5) = sys_close sys f_fd w4
      in if crc = -1 then (-1, snd (release_file_mutex cfg sys w5))
         else let (rrc, w6) = release_file_mutex cfg sys w5
      in if rrc = -1 then (-1, w6) else (0, w6))"

section \<open>Client connections\<close>

text \<open>
  \<open>inet_ntop\<close> writes the four bytes in decimal, with dots in between, if the text and its NUL fit into
  the buffer; otherwise the buffer stays as it is. \<open>main_loop\<close> passes a buffer of \<open>INET_ADDRSTRLEN\<close> bytes.
\<close>

fun decimal :: "nat \<Rightarrow> byte list" where
  "decimal n = (if n < 10 then [word_of_nat (48 + n)] else decimal (n div 10) @ [word_of_nat (48 + n mod 10)])"

declare decimal.simps [simp del]

definition dotted :: "byte list \<Rightarrow> byte list" where
  "dotted addr = tl (concat (map (\<lambda>a. 46 # decimal (unat a)) addr))"

definition INET_ADDRSTRLEN :: nat where
  "INET_ADDRSTRLEN = 16"

definition get_client_ip_address :: "byte list \<Rightarrow> byte list \<Rightarrow> nat \<Rightarrow> byte list" where
  "get_client_ip_address sin_addr ip_string ip_string_size =
     (let text = dotted sin_addr in if length text < ip_string_size then text else ip_string)"

lemma decimal_length:
  assumes "n < 256"
  shows "length (decimal n) \<le> 3"
proof -
  have "n div 10 div 10 < 10" using assms by simp
  then show ?thesis by (simp add: decimal.simps[of n] decimal.simps[of "n div 10"] decimal.simps[of "n div 10 div 10"])
qed

text \<open>The text of an address always fits.\<close>

lemma get_client_ip_address_fits:
  assumes "length addr = 4"
  shows "get_client_ip_address addr ip INET_ADDRSTRLEN = dotted addr" "length (dotted addr) < INET_ADDRSTRLEN"
proof -
  obtain a b c d where a: "addr = [a, b, c, d]" using assms by (auto simp: length_Suc_conv eval_nat_numeral)
  have "length (decimal (unat x)) \<le> 3" for x :: byte
    using decimal_length[of "unat x"] unsigned_less[of x] by simp
  from this[of a] this[of b] this[of c] this[of d] show "length (dotted addr) < INET_ADDRSTRLEN"
    by (simp add: dotted_def INET_ADDRSTRLEN_def a)
  then show "get_client_ip_address addr ip INET_ADDRSTRLEN = dotted addr"
    by (simp add: get_client_ip_address_def Let_def)
qed

text \<open>The result, the new value of the caller's descriptor and of its address text, and the state.\<close>

definition check_for_client_connection ::
  "'w os \<Rightarrow> byte list \<Rightarrow> 'w server \<Rightarrow> int \<times> int \<times> byte list \<times> 'w server" where
  "check_for_client_connection os ip_string s =
     (let (c_fd, s1) = do_call os (Accept (socket_fd s)) s
      in if c_fd = -1
         then
           let (eintr, w1) = os_eintr os (env s1)
           in if eintr
              then let (caught, w2) = os_caught_signal os w1
                   in (if caught then 0 else -1, c_fd, ip_string, s1\<lparr>env := w2\<rparr>)
              else (-1, c_fd, ip_string, s1\<lparr>env := w1\<rparr>)
         else
           let (sin_addr, w1) = os_client_ip os (env s1);
               ip = get_client_ip_address sin_addr ip_string INET_ADDRSTRLEN
           in (0, c_fd, ip, s1\<lparr>env := w1, current_state := CreatingThread\<rparr>))"

text \<open>
  The item is entered in the list only when the thread runs; on a failure what was allocated stays
  allocated. (\<open>memcpy\<close> returns its first argument, which is not NULL; \<open>thread_complete_success\<close> and
  the identifier before the thread runs are uninitialised in C and never read.)
\<close>

definition create_thread ::
  "'w os \<Rightarrow> int \<Rightarrow> byte list \<Rightarrow> 'w server \<Rightarrow> fault + int \<times> 'w server" where
  "create_thread os c_fd ip_string s =
     (let (item, w1) = os_alloc_item os (links s) (env s)
      in case item of
           None \<Rightarrow> Inr (-1, s\<lparr>env := w1\<rparr>)
         | Some a \<Rightarrow>
             let s1 = s\<lparr>env := w1, links := (links s)(a \<mapsto> None),
                        items := (items s)(a \<mapsto> \<lparr>thread_id = 0, client_ip_string = ip_string\<rparr>)\<rparr>;
                 (data, w2) = os_alloc_data os (datas s1) (env s1)
             in case data of
                  None \<Rightarrow> Inr (-1, s1\<lparr>env := w2\<rparr>)
                | Some p \<Rightarrow>
                    let d = \<lparr>client_fd = c_fd, thread_state = WaitingForData, thread_complete_success = False\<rparr>;
                        s2 = s1\<lparr>env := w2, datas := (datas s1)(p \<mapsto> d)\<rparr>;
                        ((rv, tid), w3) = os_pthread_create os p d (env s2);
                        s3 = s2\<lparr>env := w3\<rparr>
                    in if rv \<noteq> 0 then Inr (-1, s3)
                       else
                         let s4 = s3\<lparr>items := (items s3)(a \<mapsto> \<lparr>thread_id = tid, client_ip_string = ip_string\<rparr>)\<rparr>
                         in bindE (SLIST_INSERT_HEAD (links s4) (linked_list s4) (Some a)) (\<lambda>(first, m).
                              Inr (0, s4\<lparr>linked_list := first, links := m\<rparr>)))"

text \<open>
  The body of the traversal in \<open>join_threads\<close>. The value that the thread returned is the address
  of its data; it is followed before it is compared with NULL.
\<close>

definition join_body :: "'w os \<Rightarrow> 'w server \<Rightarrow> addr \<Rightarrow> (fault + 'w server) option" where
  "join_body os s a =
     (case items s a of
        None \<Rightarrow> Some (Inl UseAfterFree)
      | Some item \<Rightarrow>
          let ((join_rv, thread_return), w1) = os_tryjoin os (thread_id item) (env s); s1 = s\<lparr>env := w1\<rparr>
          in if join_rv \<noteq> 0 then Some (Inr s1)
             else
               (case thread_return of
                  None \<Rightarrow> Some (Inl NullDeref)
                | Some p \<Rightarrow>
                    (case datas s1 p of
                       None \<Rightarrow> Some (Inl UseAfterFree)
                     | Some d \<Rightarrow>
                         let s2 = snd (do_call os (Close (client_fd d)) s1)
                         in Option.bind (SLIST_REMOVE (links s2) (linked_list s2) (Some a)) (\<lambda>r.
                              Some (bindE r (\<lambda>(first, m).
                                Inr (s2\<lparr>linked_list := first, links := m(a := None),
                                        items := (items s2)(a := None),
                                        datas := (datas s2)(p := None)\<rparr>)))))))"

definition join_threads :: "'w os \<Rightarrow> 'w server \<Rightarrow> (fault + 'w server) option" where
  "join_threads os s = SLIST_FOREACH_SAFE links (join_body os) s (linked_list s)"

definition all_threads_closed :: "'w server \<Rightarrow> bool" where
  "all_threads_closed s \<longleftrightarrow> (if SLIST_EMPTY (linked_list s) then True else False)"

section \<open>The main loop\<close>

text \<open>The local variables of \<open>main_loop\<close>.\<close>

record loop_vars =
  lv_client_fd :: int
  lv_ip_string :: "byte list"
  caught_signal_prev :: bool
  next_timestamp :: int

definition note_signal :: "'w os \<Rightarrow> loop_vars \<Rightarrow> 'w server \<Rightarrow> loop_vars \<times> 'w server" where
  "note_signal os v s =
     (let (caught, w1) = os_caught_signal os (env s)
      in if caught \<and> \<not> caught_signal_prev v
         then let (caught', w2) = os_caught_signal os w1
              in (v\<lparr>caught_signal_prev := caught'\<rparr>, s\<lparr>env := w2\<rparr>)
         else (v, s\<lparr>env := w1\<rparr>))"

definition tick :: "build \<Rightarrow> 'w os \<Rightarrow> loop_vars \<Rightarrow> 'w server \<Rightarrow> loop_vars \<times> 'w server" where
  "tick cfg os v s =
     (let (tv_sec, w1) = os_clock os (env s)
      in if tv_sec \<ge> next_timestamp v
         then (v\<lparr>next_timestamp := tv_sec + 10\<rparr>,
               s\<lparr>env := if use_aesd_char_device cfg then w1 else snd (write_time_stamp cfg os w1)\<rparr>)
         else (v, s\<lparr>env := w1\<rparr>))"

text \<open>What is done in the state \<open>Waiting\<close>.\<close>

definition waiting_pass ::
  "'w os \<Rightarrow> loop_vars \<Rightarrow> 'w server \<Rightarrow> (fault + loop_vars \<times> 'w server) option" where
  "waiting_pass os v s =
     Option.bind (join_threads os s) (\<lambda>r. Some (bindE r (\<lambda>s1.
       let s2 = (if all_threads_closed s1
                 then let (caught, w1) = os_caught_signal os (env s1)
                      in s1\<lparr>env := w1, keep_looping := keep_looping s1 \<and> \<not> caught\<rparr>
                 else s1);
           (caught, w2) = os_caught_signal os (env s2);
           s3 = s2\<lparr>env := w2\<rparr>
       in if \<not> caught
          then let (rv, fd, ip, s4) = check_for_client_connection os (lv_ip_string v) s3
               in Inr (v\<lparr>lv_client_fd := fd, lv_ip_string := ip\<rparr>, s4)
          else Inr (v, s3))))"

definition main_loop_pass ::
  "build \<Rightarrow> 'w os \<Rightarrow> loop_vars \<Rightarrow> 'w server \<Rightarrow> (fault + loop_vars \<times> 'w server) option" where
  "main_loop_pass cfg os v0 s0 =
     (let (v1, s1) = note_signal os v0 s0; (v, s) = tick cfg os v1 s1
      in if current_state s = Waiting then waiting_pass os v s
         else if current_state s = CreatingThread
         then Some (bindE (create_thread os (lv_client_fd v) (lv_ip_string v) s) (\<lambda>(rv, s3).
                Inr (v, s3\<lparr>current_state := Waiting\<rparr>)))
         else Some (Inr (v, s)))"

partial_function (option) main_loop_from ::
  "build \<Rightarrow> 'w os \<Rightarrow> loop_vars \<Rightarrow> 'w server \<Rightarrow> (fault + 'w server) option" where
  "main_loop_from cfg os v s =
     (if keep_looping s
      then Option.bind (main_loop_pass cfg os v s) (\<lambda>r.
             case r of
               Inl f \<Rightarrow> Some (Inl f)
             | Inr (v1, s1) \<Rightarrow> main_loop_from cfg os v1 s1)
      else Some (Inr s))"

text \<open>The two locals that C leaves uninitialised are read only after a client was accepted.\<close>

definition main_loop :: "build \<Rightarrow> 'w os \<Rightarrow> 'w server \<Rightarrow> (fault + int \<times> 'w server) option" where
  "main_loop cfg os s =
     (let s1 = s\<lparr>current_state := Waiting\<rparr>; (tv_sec, w1) = os_clock os (env s1);
          v = \<lparr>lv_client_fd = 0, lv_ip_string = [], caught_signal_prev = False, next_timestamp = tv_sec + 10\<rparr>
      in Option.bind (main_loop_from cfg os v (s1\<lparr>env := w1\<rparr>)) (\<lambda>r.
           Some (bindE r (\<lambda>s2. Inr (0, s2)))))"

section \<open>The daemon and the program\<close>

text \<open>How a function ends: with a return, or with the end of the process.\<close>

datatype 'w ending = Return int "'w server" | Exited int "'w server"

definition main_loop_fork :: "build \<Rightarrow> 'w os \<Rightarrow> 'w server \<Rightarrow> (fault + 'w ending) option" where
  "main_loop_fork cfg os s =
     (let (fork_pid, s1) = do_call os Fork s
      in if fork_pid = -1 then Some (Inr (Return (-1) s1))
         else if fork_pid = 0
         then let (r1, s2) = do_call os Setsid s1
         in if r1 = -1 then Some (Inr (Return (-1) s2))
         else let (r2, s3) = do_call os Chdir s2
         in if r2 = -1 then Some (Inr (Return (-1) s3))
         else let (fd, s4) = do_call os Open_dev_null s3
         in if fd = -1 then Some (Inr (Return (-1) s4))
         else let (r3, s5) = do_call os (Dup2 fd 0) s4
         in if r3 = -1 then Some (Inr (Return (-1) s5))
         else let (r4, s6) = do_call os (Dup2 fd 1) s5
         in if r4 = -1 then Some (Inr (Return (-1) s6))
         else let (r5, s7) = do_call os (Dup2 fd 2) s6
         in if r5 = -1 then Some (Inr (Return (-1) s7))
         else let s8 = snd (do_call os (Close fd) s7)
         in Option.bind (main_loop cfg os s8) (\<lambda>r. Some (bindE r (\<lambda>(rv, s9). Inr (Return 0 s9))))
         else Some (Inr (Exited 0 (snd (do_call os (Exit 0) s1)))))"

text \<open>\<open>''-d''\<close> as bytes.\<close>

definition daemon_flag :: "byte list" where
  "daemon_flag = [45, 100]"

definition main :: "build \<Rightarrow> 'w os \<Rightarrow> byte list list \<Rightarrow> 'w server \<Rightarrow> (fault + 'w ending) option" where
  "main cfg os argv s0 =
     (let s1 = (if length argv \<ge> 2 \<and> argv ! 1 = daemon_flag then s0\<lparr>daemon_enabled := True\<rparr> else s0);
          (rv, s2) = startup cfg os s1;
          finish = (\<lambda>s. Return 0 (snd (shutting_down cfg os s)))
      in if rv \<noteq> -1
         then if daemon_enabled s2
              then Option.bind (main_loop_fork cfg os s2) (\<lambda>r. Some (bindE r (\<lambda>e.
                     case e of Return _ s3 \<Rightarrow> Inr (finish s3) | Exited n s3 \<Rightarrow> Inr (Exited n s3))))
              else Option.bind (main_loop cfg os s2) (\<lambda>r. Some (bindE r (\<lambda>(_, s3). Inr (finish s3))))
         else Some (Inr (finish s2)))"

text \<open>\<open>stat\<close> gives the size of the file or nothing; the size is cut to an \<open>int\<close>.\<close>

definition get_file_size :: "int option \<Rightarrow> int" where
  "get_file_size st = (case st of None \<Rightarrow> -1 | Some st_size \<Rightarrow> to_c_int st_size)"

end
