(* ===== verification/Stamp_Steps.thy ===== *)
theory Stamp_Steps
  imports Socket_Server Socket_Session
begin

text \<open>
  \<open>write_time_stamp\<close> of \<^verbatim>\<open>server/aesdsocket.c\<close> one call at a time, for the runs in which the main
  thread writes a time stamp while client threads run. The theorem at the end shows that the
  machine is the function.
\<close>

datatype stamp_pc =
    SLock
  | SOpen
  | SWrite int
  | SClose int
  | SRelease
  | SFailedClose int
  | SFailedRelease
  | SReturned int

fun stamp_step :: "build \<Rightarrow> 'w sys \<Rightarrow> byte list \<Rightarrow> stamp_pc \<Rightarrow> 'w \<Rightarrow> stamp_pc \<times> 'w" where
  "stamp_step cfg sys stamp SLock w =
     (let (rc, w1) = get_file_mutex cfg sys w in (if rc = - 1 then SReturned (- 1) else SOpen, w1))"
| "stamp_step cfg sys stamp SOpen w =
     (let (f_fd, w1) = open_file_for_read_write sys w
      in (if f_fd = - 1 then SFailedRelease else SWrite f_fd, w1))"
| "stamp_step cfg sys stamp (SWrite f_fd) w =
     (let (rc, w1) = write_to_file sys f_fd stamp w
      in (if rc = - 1 then SFailedClose f_fd else SClose f_fd, w1))"
| "stamp_step cfg sys stamp (SClose f_fd) w =
     (let (rc, w1) = sys_close sys f_fd w in (if rc = - 1 then SFailedRelease else SRelease, w1))"
| "stamp_step cfg sys stamp SRelease w =
     (let (rc, w1) = release_file_mutex cfg sys w in (SReturned (if rc = - 1 then - 1 else 0), w1))"
| "stamp_step cfg sys stamp (SFailedClose f_fd) w = (SFailedRelease, snd (sys_close sys f_fd w))"
| "stamp_step cfg sys stamp SFailedRelease w = (SReturned (- 1), snd (release_file_mutex cfg sys w))"
| "stamp_step cfg sys stamp (SReturned rc) w = (SReturned rc, w)"

text \<open>An upper bound of the calls that are left.\<close>

fun stamp_left :: "stamp_pc \<Rightarrow> nat" where
  "stamp_left SLock = 5"
| "stamp_left SOpen = 4"
| "stamp_left (SWrite _) = 3"
| "stamp_left (SClose _) = 2"
| "stamp_left (SFailedClose _) = 2"
| "stamp_left SRelease = 1"
| "stamp_left SFailedRelease = 1"
| "stamp_left (SReturned _) = 0"

lemma stamp_step_less:
  "stamp_left (fst (stamp_step cfg sys stamp SLock w)) < 5"
  "stamp_left (fst (stamp_step cfg sys stamp SOpen w)) < 4"
  "stamp_left (fst (stamp_step cfg sys stamp (SWrite fd) w)) < 3"
  "stamp_left (fst (stamp_step cfg sys stamp (SClose fd) w)) < 2"
  "stamp_left (fst (stamp_step cfg sys stamp (SFailedClose fd) w)) < 2"
  "stamp_left (fst (stamp_step cfg sys stamp SRelease w)) < 1"
  "stamp_left (fst (stamp_step cfg sys stamp SFailedRelease w)) < 1"
  by (auto split: prod.splits)

function stamp_run :: "build \<Rightarrow> 'w sys \<Rightarrow> byte list \<Rightarrow> stamp_pc \<Rightarrow> 'w \<Rightarrow> int \<times> 'w" where
  "stamp_run cfg sys stamp pc w =
     (case pc of
        SReturned rc \<Rightarrow> (rc, w)
      | _ \<Rightarrow> let (pc1, w1) = stamp_step cfg sys stamp pc w in stamp_run cfg sys stamp pc1 w1)"
  by pat_completeness auto
termination
  by (relation "measure (\<lambda>(cfg, sys, stamp, pc, w). stamp_left pc)")
    (use stamp_step_less in \<open>auto simp: split_beta simp del: stamp_step.simps\<close>)

declare stamp_run.simps [simp del]

lemma stamp_run_Returned [simp]: "stamp_run cfg sys stamp (SReturned rc) w = (rc, w)"
  by (subst stamp_run.simps) simp

lemma stamp_run_step:
  assumes "stamp_left pc \<noteq> 0"
  shows "stamp_run cfg sys stamp pc w =
    (let (pc1, w1) = stamp_step cfg sys stamp pc w in stamp_run cfg sys stamp pc1 w1)"
  using assms by (subst stamp_run.simps) (cases pc; simp)

text \<open>The machine is the function.\<close>

lemma stamp_steps_are_the_function:
  "write_time_stamp cfg os w =
    (let (time_buffer, w1) = os_strftime os w
     in if time_buffer = [] then (- 1, w1)
        else stamp_run cfg (os_file os) (takeWhile (\<lambda>c. c \<noteq> 0) time_buffer) SLock w1)"
proof -
  have rel: "stamp_run cfg sys stamp SFailedRelease w = (- 1, snd (release_file_mutex cfg sys w))"
    for sys :: "'w sys" and stamp w
    by (subst stamp_run_step) simp_all
  have fc: "stamp_run cfg sys stamp (SFailedClose fd) w = (- 1, close_and_release cfg sys fd w)"
    for sys :: "'w sys" and stamp w fd
    by (subst stamp_run_step) (simp_all add: rel close_and_release_def)
  have re: "stamp_run cfg sys stamp SRelease w =
      (let (rrc, w1) = release_file_mutex cfg sys w in if rrc = - 1 then (- 1, w1) else (0, w1))"
    for sys :: "'w sys" and stamp w
    by (subst stamp_run_step) (simp_all split: prod.splits)
  have cl: "stamp_run cfg sys stamp (SClose fd) w =
      (let (crc, w1) = sys_close sys fd w
       in if crc = - 1 then (- 1, snd (release_file_mutex cfg sys w1)) else stamp_run cfg sys stamp SRelease w1)"
    for sys :: "'w sys" and stamp w fd
    by (subst stamp_run_step) (simp_all add: rel split: prod.splits)
  have wr: "stamp_run cfg sys stamp (SWrite fd) w =
      (let (wrc, w1) = write_to_file sys fd stamp w
       in if wrc = - 1 then (- 1, close_and_release cfg sys fd w1) else stamp_run cfg sys stamp (SClose fd) w1)"
    for sys :: "'w sys" and stamp w fd
    by (subst stamp_run_step) (simp_all add: fc split: prod.splits)
  have op: "stamp_run cfg sys stamp SOpen w =
      (let (fd, w1) = open_file_for_read_write sys w
       in if fd = - 1 then (- 1, snd (release_file_mutex cfg sys w1)) else stamp_run cfg sys stamp (SWrite fd) w1)"
    for sys :: "'w sys" and stamp w
    by (subst stamp_run_step) (simp_all add: rel split: prod.splits)
  have lk: "stamp_run cfg sys stamp SLock w =
      (let (rc, w1) = get_file_mutex cfg sys w
       in if rc = - 1 then (- 1, w1) else stamp_run cfg sys stamp SOpen w1)"
    for sys :: "'w sys" and stamp w
    by (subst stamp_run_step) (simp_all split: prod.splits)
  show ?thesis
    by (auto simp: write_time_stamp_def lk op wr cl re Let_def split: prod.splits)
qed

section \<open>What a time stamp does to the file\<close>

context server_env
begin

text \<open>
  The state at each place, when the store was \<open>s0\<close> at the start; \<open>r\<close> says that no call fails.
\<close>

definition stamp_at :: "build \<Rightarrow> byte list \<Rightarrow> bool \<Rightarrow> 's \<Rightarrow> stamp_pc \<Rightarrow> 'w \<Rightarrow> bool" where
  "stamp_at cfg stamp r s0 pc w \<longleftrightarrow> inv w \<and>
     (case pc of
        SReturned rc \<Rightarrow> \<not> locked w \<and> (r \<longrightarrow> rc = 0) \<and> (rc = - 1 \<or> rc = 0 \<and> store w = append s0 stamp)
      | SLock \<Rightarrow> \<not> locked w \<and> store w = s0 \<and> (r \<longrightarrow> reliable w)
      | SOpen \<Rightarrow> locked w = (\<not> disable_locking cfg) \<and> store w = s0 \<and> (r \<longrightarrow> reliable w)
      | SWrite _ \<Rightarrow> locked w = (\<not> disable_locking cfg) \<and> store w = s0 \<and> (r \<longrightarrow> reliable w)
      | SClose _ \<Rightarrow> locked w = (\<not> disable_locking cfg) \<and> store w = append s0 stamp \<and> (r \<longrightarrow> reliable w)
      | SRelease \<Rightarrow> locked w = (\<not> disable_locking cfg) \<and> store w = append s0 stamp \<and> (r \<longrightarrow> reliable w)
      | _ \<Rightarrow> locked w = (\<not> disable_locking cfg) \<and> \<not> r)"

lemma stamp_step_ok:
  assumes "stamp_at cfg stamp r s0 pc w" "stamp \<noteq> []" "last stamp = newline" "length stamp < 2 ^ 31"
    "stamp_step cfg sys stamp pc w = (pc1, w1)"
  shows "stamp_at cfg stamp r s0 pc1 w1 \<and> pc1 \<noteq> SLock \<or> stamp_left pc = 0"
proof -
  have w: "inv w" using assms(1) by (simp add: stamp_at_def)
  show ?thesis
  proof (cases pc)
    case SLock
    obtain rc w2 where g: "get_file_mutex cfg sys w = (rc, w2)" by (cases "get_file_mutex cfg sys w")
    have "\<not> locked w" using assms(1) SLock by (simp add: stamp_at_def)
    from get_file_mutex_ok[OF w this g] assms(1,5) SLock g show ?thesis
      by (auto simp: stamp_at_def quiet_def split: if_splits)
  next
    case SOpen
    obtain fd w2 where g: "open_file_for_read_write sys w = (fd, w2)" by (cases "open_file_for_read_write sys w")
    from open_ok[OF w g] assms(1,5) SOpen g show ?thesis by (auto simp: stamp_at_def same_def split: if_splits)
  next
    case (SWrite fd)
    obtain rc w2 where g: "write_to_file sys fd stamp w = (rc, w2)" by (cases "write_to_file sys fd stamp w")
    from write_to_file_ok[OF w assms(2-4) g] assms(1,5) SWrite g show ?thesis by (auto simp: stamp_at_def split: if_splits)
  next
    case (SClose fd)
    obtain rc w2 where g: "sys_close sys fd w = (rc, w2)" by (cases "sys_close sys fd w")
    from close_law[OF w g] assms(1,5) SClose g show ?thesis by (auto simp: stamp_at_def same_def split: if_splits)
  next
    case SRelease
    obtain rc w2 where g: "release_file_mutex cfg sys w = (rc, w2)" by (cases "release_file_mutex cfg sys w")
    have "locked w = (\<not> disable_locking cfg)" using assms(1) SRelease by (simp add: stamp_at_def)
    from release_file_mutex_ok[OF w this g] assms(1,5) SRelease g show ?thesis
      by (auto simp: stamp_at_def quiet_def split: if_splits)
  next
    case (SFailedClose fd)
    from close_law[OF w surjective_pairing, of fd] assms(1,5) SFailedClose show ?thesis
      by (auto simp: stamp_at_def same_def split: if_splits)
  next
    case SFailedRelease
    have "locked w = (\<not> disable_locking cfg)" using assms(1) SFailedRelease by (simp add: stamp_at_def)
    from release_snd_ok[OF w this] assms(1,5) SFailedRelease show ?thesis
      by (auto simp: stamp_at_def quiet_def split: if_splits)
  qed simp
qed

lemma stamp_step_reliable:
  assumes "stamp_at cfg stamp r s0 pc w" "stamp \<noteq> []" "last stamp = newline" "length stamp < 2 ^ 31"
    "stamp_step cfg sys stamp pc w = (pc1, w1)" "reliable w"
  shows "reliable w1"
proof -
  have w: "inv w" using assms(1) by (simp add: stamp_at_def)
  have same: "reliable w2" if "same w w2" for w2 using that assms(6) by (simp add: same_def)
  show ?thesis
  proof (cases pc)
    case SLock
    with assms(1) have "\<not> locked w" by (simp add: stamp_at_def)
    from get_file_mutex_ok[OF w this surjective_pairing] SLock assms(5,6) show ?thesis
      by (auto simp: quiet_def split_beta)
  next
    case SOpen
    with open_ok[OF w surjective_pairing] same assms(5) show ?thesis by (auto simp: split_beta)
  next
    case (SWrite fd)
    with write_to_file_ok[OF w assms(2-4) surjective_pairing, of fd] assms(5,6) show ?thesis
      by (auto simp: split_beta)
  next
    case (SClose fd)
    with close_law[OF w surjective_pairing] same assms(5) show ?thesis by (auto simp: split_beta)
  next
    case (SFailedClose fd)
    with close_law[OF w surjective_pairing] same assms(5) show ?thesis by (auto simp: split_beta)
  next
    case (SReturned rc)
    with assms(5,6) show ?thesis by simp
  next
    case SRelease
    with assms(1) have "locked w = (\<not> disable_locking cfg)" by (simp add: stamp_at_def)
    from release_file_mutex_ok[OF w this surjective_pairing] SRelease assms(5,6) show ?thesis
      by (auto simp: quiet_def split_beta)
  next
    case SFailedRelease
    with assms(1) have "locked w = (\<not> disable_locking cfg)" by (simp add: stamp_at_def)
    from release_file_mutex_ok[OF w this surjective_pairing] SFailedRelease assms(5,6) show ?thesis
      by (auto simp: quiet_def split_beta)
  qed
qed

lemma stamp_run_ok:
  assumes "stamp_at cfg stamp r s0 pc w" "stamp \<noteq> []" "last stamp = newline" "length stamp < 2 ^ 31"
  shows "stamp_at cfg stamp r s0 (SReturned (fst (stamp_run cfg sys stamp pc w))) (snd (stamp_run cfg sys stamp pc w))"
  using assms(1)
proof (induction "stamp_left pc" arbitrary: pc w rule: less_induct)
  case less
  show ?case
  proof (cases "stamp_left pc = 0")
    case True
    then obtain rc where "pc = SReturned rc" by (cases pc) auto
    with less.prems show ?thesis by simp
  next
    case False
    obtain pc1 w1 where s: "stamp_step cfg sys stamp pc w = (pc1, w1)" by (cases "stamp_step cfg sys stamp pc w")
    have "stamp_at cfg stamp r s0 pc1 w1" using stamp_step_ok[OF less.prems assms(2-4) s] False by blast
    moreover have "stamp_left pc1 < stamp_left pc" using s False by (cases pc) (auto split: prod.splits)
    ultimately show ?thesis using less.hyps s False by (simp add: stamp_run_step)
  qed
qed

text \<open>The mutex is free on every path; the stamp is a line of its own unless a call fails.\<close>

lemma write_time_stamp_ok:
  assumes os: "os_file os = sys" "os_strftime os w = (tb, w1)" and w1: "inv w1" "\<not> locked w1"
    and p: "takeWhile (\<lambda>c. c \<noteq> 0) tb = p" "p \<noteq> []" "last p = newline" "length p < 2 ^ 31"
  shows "\<exists>rc w'. write_time_stamp cfg os w = (rc, w') \<and> inv w' \<and> \<not> locked w' \<and>
    (reliable w1 \<longrightarrow> rc = 0) \<and> (rc = -1 \<or> rc = 0 \<and> store w' = append (store w1) p)"
proof -
  have "stamp_at cfg p (reliable w1) (store w1) SLock w1" using w1 by (simp add: stamp_at_def)
  from stamp_run_ok[OF this p(2-4)] have
    "stamp_at cfg p (reliable w1) (store w1) (SReturned (fst (stamp_run cfg sys p SLock w1)))
      (snd (stamp_run cfg sys p SLock w1))" .
  moreover have "write_time_stamp cfg os w = stamp_run cfg sys p SLock w1"
    using os p(1,2) by (auto simp: stamp_steps_are_the_function)
  ultimately show ?thesis
    by (cases "stamp_run cfg sys p SLock w1") (simp add: stamp_at_def)
qed

end

end
