(* ===== verification/Plain_File.thy ===== *)
theory Plain_File
  imports Client_Side Session_Steps Stamp_Steps
begin

text \<open>
  The system whose \<open>FILE_PATH\<close> is a regular file, as in a build without the character device:
  its calls satisfy the laws of \<open>server_env\<close>, so what \<open>Socket_Session\<close> proves of a session holds
  here.
\<close>

section \<open>The file and its calls\<close>

record plain = client_side +
  pl_file :: "byte list"
  pl_pos :: nat

text \<open>
  The file is opened with \<open>O_APPEND\<close>, so a write goes to its end and leaves the position there;
  a short write leaves a part of the data in the file.
\<close>

definition plain_open :: "plain \<Rightarrow> int \<times> plain" where
  "plain_open w = (let (fd, w1) = cs_simple 3 (-1) w in (fd, if fd = -1 then w1 else w1\<lparr>pl_pos := 0\<rparr>))"

definition plain_append :: "byte list \<Rightarrow> plain \<Rightarrow> plain" where
  "plain_append bs w = w\<lparr>pl_file := pl_file w @ bs, pl_pos := length (pl_file w @ bs)\<rparr>"

definition plain_write :: "int \<Rightarrow> byte list \<Rightarrow> plain \<Rightarrow> int \<times> plain" where
  "plain_write fd data w =
     (case next_fault w of
        (None, w1) \<Rightarrow> (int (length data), plain_append data w1)
      | (Some 0, w1) \<Rightarrow> (-1, w1)
      | (Some (Suc k), w1) \<Rightarrow> let bs = take k data in (int (length bs), plain_append bs w1))"

definition plain_read :: "int \<Rightarrow> nat \<Rightarrow> plain \<Rightarrow> (int \<times> byte list) \<times> plain" where
  "plain_read fd k w =
     (case next_fault w of
        (Some _, w1) \<Rightarrow> ((-1, []), w1)
      | (None, w1) \<Rightarrow>
          let (c, w2) = next_chunk k w1; bs = take c (drop (pl_pos w2) (pl_file w2))
          in ((int (length bs), bs), w2\<lparr>pl_pos := pl_pos w2 + length bs\<rparr>))"

definition plain_sys :: "plain sys" where
  "plain_sys =
     \<lparr>sys_recv = cs_recv, sys_send = cs_send, sys_open = plain_open, sys_write = plain_write,
      sys_lseek = (\<lambda>fd w. w\<lparr>pl_pos := 0\<rparr>), sys_read = plain_read,
      sys_close = (\<lambda>fd. cs_simple 0 (-1)), sys_lock = cs_lock, sys_unlock = cs_unlock,
      sys_alloc = cs_alloc, sys_alloc_struct = cs_simple True False, sys_signal = cs_simple False True\<rparr>"

section \<open>The laws\<close>

lemma plain_more:
  "client_side.more w' = client_side.more w \<Longrightarrow> pl_file w' = pl_file w \<and> pl_pos w' = pl_pos w"
  by (cases w; cases w') simp

lemma plain_write_cases:
  assumes "plain_write fd p w = (n, w')"
  shows "cs_locked w' = cs_locked w \<and> cs_inbox w' = cs_inbox w \<and> cs_outbox w' = cs_outbox w \<and>
    (no_faults w \<longrightarrow> no_faults w' \<and> n = int (length p)) \<and> -1 \<le> n \<and> n \<le> int (length p) \<and>
    (n = int (length p) \<longrightarrow> pl_file w' = pl_file w @ p) \<and> (n = -1 \<longrightarrow> pl_file w' = pl_file w)"
proof -
  obtain f w1 where f: "next_fault w = (f, w1)" by (cases "next_fault w")
  note fs = next_fault_simps[OF f] and m = plain_more[OF next_fault_simps(4)[OF f]]
  show ?thesis
    using assms f fs m
    by (auto simp: plain_write_def plain_append_def no_faults_def Let_def split: option.splits nat.splits)
qed

lemma plain_read_cases:
  assumes "0 < k" "plain_read fd k w = ((n, bs), w')"
  shows "cs_locked w' = cs_locked w \<and> cs_inbox w' = cs_inbox w \<and> cs_outbox w' = cs_outbox w \<and>
    pl_file w' = pl_file w \<and> (no_faults w \<longrightarrow> no_faults w' \<and> n \<noteq> -1) \<and>
    (n = -1 \<or> n = int (length bs) \<and> length bs \<le> k \<and> pl_pos w' = pl_pos w + length bs \<and>
       bs = take (length bs) (drop (pl_pos w) (pl_file w)) \<and> (bs = [] \<longrightarrow> length (pl_file w) \<le> pl_pos w))"
proof -
  obtain f w1 where f: "next_fault w = (f, w1)" by (cases "next_fault w")
  obtain c w2 where c: "next_chunk k w1 = (c, w2)" by (cases "next_chunk k w1")
  note fs = next_fault_simps[OF f] and m = plain_more[OF next_fault_simps(4)[OF f]]
    and cs = next_chunk_simps[OF c] and mc = plain_more[OF next_chunk_simps(4)[OF c]]
  show ?thesis
    using assms f fs m c cs mc
    by (auto simp: plain_read_def no_faults_def min_def split: option.splits)
qed

lemmas plain_calls = plain_sys_def plain_open_def env_view.same_def

interpretation plain: server_env plain_sys "\<lambda>w. True" pl_file pl_pos cs_locked cs_inbox cs_outbox
  no_faults "\<lambda>w. True" "(@)" "\<lambda>s. s"
proof (unfold_locales, goal_cases)
  case (1 w fd w')
  then obtain w1 where "cs_simple (3 :: int) (-1) w = (fd, w1)" "w' = w1 \<or> w' = w1\<lparr>pl_pos := 0\<rparr>"
    by (auto simp: plain_calls split: prod.splits if_splits)
  then show ?case
    using cs_simple_cases[of "3 :: int" "-1" w fd w1] plain_more[of w1 w]
    by (auto simp: env_view.same_def no_faults_def)
next
  case (2 w p fd n w')
  then show ?case using plain_write_cases[of fd p w n w'] by (simp add: plain_calls)
next
  case (3 w fd)
  then show ?case by (simp add: plain_calls no_faults_def)
next
  case (4 w k fd n bs w')
  then show ?case using plain_read_cases[of k fd w n bs w'] by (simp add: plain_calls)
next
  case (5 w fd n w')
  then have "cs_simple (0 :: int) (-1) w = (n, w')" by (simp add: plain_calls)
  from cs_simple_cases[OF this] plain_more[of w' w] show ?case by (simp add: env_view.same_def)
next
  case (6 w n w')
  then have "cs_lock w = (n, w')" by (simp add: plain_calls)
  from cs_lock_cases[OF this] plain_more[of w' w] 6(2) show ?case by simp
next
  case (7 w n w')
  then show ?case by (auto simp: plain_calls cs_unlock_def no_faults_def)
next
  case (8 w bs fd n w')
  then have "cs_send fd bs w = (n, w')" by (simp add: plain_calls)
  from cs_send_cases[OF 8(2) this] plain_more[of w' w] show ?case by simp
next
  case (9 w k fd n bs w')
  then have "cs_recv fd k w = ((n, bs), w')" by (simp add: plain_calls)
  from cs_recv_cases[OF 9(2) this] plain_more[of w' w] show ?case by simp
next
  case (10 w h k ans w')
  then have "cs_alloc h k w = (ans, w')" by (simp add: plain_calls)
  from cs_alloc_cases[OF this] plain_more[of w' w] show ?case by (simp add: env_view.same_def)
next
  case (11 w b w')
  then have "cs_simple True False w = (b, w')" by (simp add: plain_calls)
  from cs_simple_cases[OF this] plain_more[of w' w] show ?case by (simp add: env_view.same_def)
next
  case (12 w b w')
  then have "cs_simple False True w = (b, w')" by (simp add: plain_calls)
  from cs_simple_cases[OF this] plain_more[of w' w] show ?case by (simp add: env_view.same_def)
qed

end
