(* ===== verification/Device_File.thy ===== *)
theory Device_File
  imports Client_Side Session_Steps Aesd_Driver_Props
begin

text \<open>
  The system whose \<open>FILE_PATH\<close> is the character device of this repository, as in a build with
  \<open>USE_AESD_CHAR_DEVICE\<close>: reads and writes of the server are the handlers \<open>aesd_read\<close> and
  \<open>aesd_write\<close> of the driver. Its calls satisfy the laws of \<open>server_env\<close>, with the driver's last
  ten lines as the store, so server and driver are verified together.
\<close>

section \<open>The device and its calls\<close>

record device_world = client_side +
  dv :: driver
  dv_pos :: loff_t

text \<open>
  The kernel's answers to one call of the driver: an interrupted lock, no memory, or a failed copy
  when the call is to fail.
\<close>

definition kernel_for :: "nat option \<Rightarrow> kernel" where
  "kernel_for f =
     (case f of
        None \<Rightarrow> demo_kernel
      | Some 0 \<Rightarrow> demo_kernel\<lparr>lock_rv := - 4\<rparr>
      | Some (Suc 0) \<Rightarrow> demo_kernel\<lparr>kmalloc := \<lambda>_ _. None\<rparr>
      | Some _ \<Rightarrow> demo_kernel\<lparr>copy_from_user := \<lambda>n. n, copy_to_user := \<lambda>_ n. n\<rparr>)"

text \<open>
  A negative result of a handler is \<open>-1\<close> for the program. (A fault of the driver would be a kernel
  oops; it is given the same result here and does not occur, see \<open>device_write_cases\<close>.)
\<close>

definition device_open :: "device_world \<Rightarrow> int \<times> device_world" where
  "device_open w = (let (fd, w1) = cs_simple 3 (-1) w in (fd, if fd = -1 then w1 else w1\<lparr>dv_pos := 0\<rparr>))"

definition device_write :: "int \<Rightarrow> byte list \<Rightarrow> device_world \<Rightarrow> int \<times> device_world" where
  "device_write fd data w =
     (let (f, w1) = next_fault w
      in case aesd_write (kernel_for f) (dv w1) demo_filp data (word_of_nat (length data)) of
           Inl _ \<Rightarrow> (-1, w1)
         | Inr (r, s) \<Rightarrow> (if r < 0 then -1 else r, w1\<lparr>dv := s\<rparr>))"

definition device_read :: "int \<Rightarrow> nat \<Rightarrow> device_world \<Rightarrow> (int \<times> byte list) \<times> device_world" where
  "device_read fd k w =
     (let (f, w1) = next_fault w
      in case aesd_read (kernel_for f) (dv w1) demo_filp (word_of_nat k) (dv_pos w1) of
           Inl _ \<Rightarrow> ((-1, []), w1)
         | Inr (r, out, f_pos, s) \<Rightarrow>
             (if r < 0 then (-1, []) else (r, out), w1\<lparr>dv := s, dv_pos := f_pos\<rparr>))"

text \<open>The driver has no \<open>llseek\<close>: an \<open>lseek\<close> on it fails and changes nothing.\<close>

definition device_sys :: "device_world sys" where
  "device_sys =
     \<lparr>sys_recv = cs_recv, sys_send = cs_send, sys_open = device_open, sys_write = device_write,
      sys_lseek = (\<lambda>fd w. w), sys_read = device_read,
      sys_close = (\<lambda>fd. cs_simple 0 (-1)), sys_lock = cs_lock, sys_unlock = cs_unlock,
      sys_alloc = cs_alloc, sys_alloc_struct = cs_simple True False, sys_signal = cs_simple False True\<rparr>"

section \<open>The laws\<close>

definition device_ok :: "device_world \<Rightarrow> bool" where
  "device_ok w \<longleftrightarrow> line_inv (dv w) \<and> (\<forall>l \<in> set (held_lines (dv w)). length l < 2 ^ 31)"

definition device_lines :: "device_world \<Rightarrow> byte list list" where
  "device_lines w = held_lines (dv w)"

lemma length_concat_le: "\<forall>x \<in> set xs. length x \<le> k \<Longrightarrow> length (concat xs) \<le> length xs * k"
  by (induction xs) auto

lemma device_size:
  assumes "device_ok w"
  shows "length (device_bytes (dv w)) < 2 ^ 63"
proof -
  have "\<forall>l \<in> set (held_lines (dv w)). length l \<le> 2 ^ 31" using assms by (auto simp: device_ok_def)
  then have "length (device_bytes (dv w)) \<le> length (held_lines (dv w)) * 2 ^ 31"
    by (rule length_concat_le)
  moreover have "length (held_lines (dv w)) \<le> max_ops"
    using held_count_le by (simp add: held_lines_def)
  ultimately show ?thesis by simp
qed

text \<open>One of the first 32 block names is free: the driver owns eleven blocks at most.\<close>

lemma demo_kmalloc_grants:
  assumes "dev_inv s"
  shows "kmalloc demo_kernel (mem s) n \<noteq> None"
proof -
  have inv: "store_inv (buffer s) (entry_temp s) (mem s)" using assms by (rule dev_invD(1))
  have "card (set (owned s)) \<le> length (owned s)" by (rule card_length)
  also have "\<dots> \<le> max_ops + 1"
    using held_count_le[of "buffer s"] by (simp add: owned_of_def split: option.splits)
  finally have "card (dom (mem s)) \<le> 11" using store_invD(6)[OF inv] by simp
  moreover have "finite (dom (mem s))" using store_invD(6)[OF inv] by simp
  ultimately have "\<not> {..<32} \<subseteq> dom (mem s)" using card_mono[of "dom (mem s)" "{..<32}"] by auto
  then obtain a where "a < 32" "mem s a = None" by auto
  then have "List.find (\<lambda>a. mem s a = None) [0..<32] \<noteq> None"
    by (auto simp: find_None_iff simp del: upt_Suc)
  then show ?thesis by (auto simp: demo_kernel_def simp del: upt_Suc)
qed

lemma kernel_for_ok: "kernel_ok (kernel_for f)"
  using demo_kernel_ok by (auto simp: kernel_for_def kernel_ok_def mem_simps split: option.splits nat.splits)

lemma device_write_handler:
  assumes "line_inv s" "p \<noteq> []" "last p = newline" "length p < 2 ^ 31"
  shows "(\<exists>r. r < 0 \<and> aesd_write (kernel_for f) s demo_filp p (word_of_nat (length p)) = Inr (r, s)) \<and> f \<noteq> None \<or>
    (\<exists>s'. aesd_write (kernel_for f) s demo_filp p (word_of_nat (length p)) = Inr (int (length p), s') \<and>
       line_inv s' \<and> held_lines s' = ring_push (held_lines s) p)"
proof -
  let ?n = "word_of_nat (length p) :: size_t"
  have inv: "dev_inv s" "pending s = []" using assms(1) by (simp_all add: line_inv_def)
  have n: "unat ?n = length p" using assms(4) by (simp add: unat_of_nat_64)
  have sn: "sint ?n = int (length p)" using assms(4) by (simp add: sint_of_nat_64)
  have pre: "write_pre k s p ?n" if "kernel_ok k" for k
    using inv n that assms(4) dev_invD(3)[OF inv(1)] by (simp add: write_pre_def)
  show ?thesis
  proof (cases "lock_rv (kernel_for f) = 0")
    case False
    then show ?thesis
      using aesd_write_lock_error[OF False demo_filp_device]
      by (auto simp: ERESTARTSYS_def kernel_for_def demo_kernel_def split: option.splits)
  next
    case lock: True
    show ?thesis
    proof (cases "kmalloc (kernel_for f) (mem s) (write_request s ?n)")
      case None
      then have "f \<noteq> None" using demo_kmalloc_grants[OF inv(1)] by (cases f) (auto simp: kernel_for_def)
      then show ?thesis
        using aesd_write_alloc_error[OF pre[OF kernel_for_ok] None lock demo_filp_device]
        by (auto simp: ENOMEM_def)
    next
      case (Some ab)
      obtain a blk where ab: "kmalloc (kernel_for f) (mem s) (write_request s ?n) = Some (a, blk)"
        using Some by (cases ab) simp
      show ?thesis
      proof (cases "copy_from_user (kernel_for f) ?n = 0")
        case False
        then have "0 < copy_from_user (kernel_for f) ?n" "f \<noteq> None"
          by (simp add: word_gt_0) (use False in \<open>cases f; simp add: kernel_for_def demo_kernel_def\<close>)
        then show ?thesis
          using aesd_write_copy_error[OF pre[OF kernel_for_ok] ab lock _ demo_filp_device]
          by (auto simp: EFAULT_def)
      next
        case True
        let ?s' = "write_result s a p ?n"
        have "aesd_write (kernel_for f) s demo_filp p ?n = Inr (int (length p), ?s')"
          using aesd_write_ok[OF pre[OF kernel_for_ok] ab lock True demo_filp_device assms(2)] sn by simp
        moreover have "dev_inv ?s'" "(held_lines ?s', pending ?s') = spec_write (held_lines s, []) p"
          using write_result_refines[OF pre[OF kernel_for_ok] ab assms(2)] inv(2) by simp_all
        ultimately show ?thesis using assms(3) by (auto simp: line_inv_def spec_write_def)
      qed
    qed
  qed
qed

lemma device_more:
  "client_side.more w' = client_side.more w \<Longrightarrow> dv w' = dv w \<and> dv_pos w' = dv_pos w"
  by (cases w; cases w') simp

lemma device_ok_push:
  assumes "device_ok w" "length p < 2 ^ 31" "line_inv s'" "held_lines s' = ring_push (held_lines (dv w)) p"
  shows "\<forall>l \<in> set (held_lines s'). length l < 2 ^ 31"
  using assms by (auto simp: device_ok_def ring_push_def take_last_def dest!: in_set_dropD)

lemma device_write_cases:
  assumes "device_ok w" "p \<noteq> []" "last p = newline" "length p < 2 ^ 31" "device_write fd p w = (n, w')"
  shows "device_ok w' \<and> cs_locked w' = cs_locked w \<and> cs_inbox w' = cs_inbox w \<and> cs_outbox w' = cs_outbox w \<and>
    dv_pos w' = dv_pos w \<and> (no_faults w \<longrightarrow> no_faults w' \<and> n = int (length p)) \<and>
    (n = -1 \<and> device_lines w' = device_lines w \<or>
     n = int (length p) \<and> device_lines w' = ring_push (device_lines w) p)"
proof -
  obtain f w1 where f: "next_fault w = (f, w1)" by (cases "next_fault w")
  note fs = next_fault_simps[OF f] and m = device_more[OF next_fault_simps(4)[OF f]]
  have li: "line_inv (dv w1)" using assms(1) m by (simp add: device_ok_def)
  from device_write_handler[OF li assms(2-4), of f] show ?thesis
  proof (elim disjE exE conjE)
    fix r assume "r < 0" "f \<noteq> None"
      "aesd_write (kernel_for f) (dv w1) demo_filp p (word_of_nat (length p)) = Inr (r, dv w1)"
    then show ?thesis
      using assms(1,5) f fs m by (auto simp: device_write_def device_ok_def device_lines_def no_faults_def)
  next
    fix s' assume s': "line_inv s'" "held_lines s' = ring_push (held_lines (dv w1)) p"
      "aesd_write (kernel_for f) (dv w1) demo_filp p (word_of_nat (length p)) = Inr (int (length p), s')"
    then show ?thesis
      using device_ok_push[OF assms(1,4) s'(1)] assms(5) f fs m
      by (auto simp: device_write_def device_ok_def device_lines_def no_faults_def)
  qed
qed

lemma device_read_handler:
  assumes "dev_inv s" "length (device_bytes s) < 2 ^ 63" "k < 2 ^ 31"
  shows "(\<exists>r out. r < 0 \<and> aesd_read (kernel_for f) s demo_filp (word_of_nat k) f_pos = Inr (r, out, f_pos, s)) \<and>
      f \<noteq> None \<or>
    (\<exists>n. aesd_read (kernel_for f) s demo_filp (word_of_nat k) f_pos =
       Inr (int n, take n (drop (unat f_pos) (device_bytes s)), f_pos + word_of_nat n, s) \<and>
       n = min k (length (device_bytes s) - unat f_pos))"
proof (cases "lock_rv (kernel_for f) = 0")
  case False
  then show ?thesis
    using aesd_read_lock_error[OF False demo_filp_device]
    by (auto simp: ERESTARTSYS_def kernel_for_def demo_kernel_def split: option.splits)
next
  case True
  have k: "unat (word_of_nat k :: size_t) = k" using assms(3) by (simp add: unat_of_nat_64)
  obtain n copied where n: "aesd_read (kernel_for f) s demo_filp (word_of_nat k) f_pos =
      Inr (if copied then int n else - EFAULT, take n (drop (unat f_pos) (device_bytes s)),
           if copied then f_pos + word_of_nat n else f_pos, s)"
    "copied \<longrightarrow> n = min k (length (device_bytes s) - unat f_pos)"
    "(\<forall>off m. copy_to_user (kernel_for f) off m = 0) \<longrightarrow> copied"
    using aesd_read_eq[OF assms(1,2) kernel_for_ok True demo_filp_device, of "word_of_nat k" f_pos] k by metis
  show ?thesis
  proof (cases copied)
    case True
    then show ?thesis using n by auto
  next
    case False
    then have "f \<noteq> None" using n(3) by (cases f) (auto simp: kernel_for_def demo_kernel_def)
    then show ?thesis using n(1) False by (auto simp: EFAULT_def)
  qed
qed

lemma device_read_cases:
  assumes "device_ok w" "0 < k" "k < 2 ^ 31" "device_read fd k w = ((n, bs), w')"
  shows "device_ok w' \<and> device_lines w' = device_lines w \<and> cs_locked w' = cs_locked w \<and>
    cs_inbox w' = cs_inbox w \<and> cs_outbox w' = cs_outbox w \<and> (no_faults w \<longrightarrow> no_faults w' \<and> n \<noteq> -1) \<and>
    (n = -1 \<or> n = int (length bs) \<and> length bs \<le> k \<and> unat (dv_pos w') = unat (dv_pos w) + length bs \<and>
       bs = take (length bs) (drop (unat (dv_pos w)) (concat (device_lines w))) \<and>
       (bs = [] \<longrightarrow> length (concat (device_lines w)) \<le> unat (dv_pos w)))"
proof -
  obtain f w1 where f: "next_fault w = (f, w1)" by (cases "next_fault w")
  note fs = next_fault_simps[OF f] and m = device_more[OF next_fault_simps(4)[OF f]]
  have inv: "dev_inv (dv w)" using assms(1) by (simp add: device_ok_def line_inv_def)
  note size = device_size[OF assms(1)]
  let ?L = "device_bytes (dv w)" and ?pos = "dv_pos w"
  from device_read_handler[OF inv size assms(3), of f ?pos] show ?thesis
  proof (elim disjE exE conjE)
    fix r out assume "r < 0" "f \<noteq> None"
      "aesd_read (kernel_for f) (dv w) demo_filp (word_of_nat k) ?pos = Inr (r, out, ?pos, dv w)"
    then show ?thesis
      using assms(1,4) f fs m by (auto simp: device_read_def device_ok_def device_lines_def no_faults_def)
  next
    fix j assume j: "aesd_read (kernel_for f) (dv w) demo_filp (word_of_nat k) ?pos =
        Inr (int j, take j (drop (unat ?pos) ?L), ?pos + word_of_nat j, dv w)"
      "j = min k (length ?L - unat ?pos)"
    have len: "length (take j (drop (unat ?pos) ?L)) = j" using j(2) by simp
    have "unat ?pos + j < 2 ^ 64"
      using j(2) size unat_less_pow[of ?pos] by (cases "unat ?pos < length ?L") auto
    moreover have "unat (word_of_nat j :: loff_t) = j" using j(2) assms(3) by (simp add: unat_of_nat_64)
    ultimately have pos: "unat (?pos + word_of_nat j) = unat ?pos + j"
      using unat_add_64[of ?pos "word_of_nat j"] by simp
    have e: "n = int j" "bs = take j (drop (unat ?pos) ?L)"
      "w' = w1\<lparr>dv := dv w, dv_pos := ?pos + word_of_nat j\<rparr>"
      using assms(4) f m j(1) by (auto simp: device_read_def)
    then show ?thesis
      using assms(1,2) fs m len pos j(2)
      by (auto simp: device_ok_def device_lines_def no_faults_def)
  qed
qed

lemmas device_calls = device_sys_def device_open_def env_view.same_def

interpretation device: server_env device_sys device_ok device_lines "\<lambda>w. unat (dv_pos w)" cs_locked cs_inbox
  cs_outbox no_faults "\<lambda>w. dv_pos w = 0" ring_push concat
proof (unfold_locales, goal_cases)
  case (1 w fd w')
  then obtain w1 where w1: "cs_simple (3 :: int) (-1) w = (fd, w1)"
    "w' = (if fd = -1 then w1 else w1\<lparr>dv_pos := 0\<rparr>)"
    by (auto simp: device_calls split: prod.splits if_splits)
  from 1(1) cs_simple_cases[OF w1(1)] device_more[of w1 w] w1(2) show ?case
    by (auto simp: env_view.same_def no_faults_def device_ok_def device_lines_def)
next
  case (2 w p fd n w')
  then have "device_write fd p w = (n, w')" by (simp add: device_calls)
  from device_write_cases[OF 2(1-4) this] 2(2) show ?case by auto
next
  case (3 w fd)
  then show ?case by (simp add: device_calls)
next
  case (4 w k fd n bs w')
  then have "device_read fd k w = ((n, bs), w')" by (simp add: device_calls)
  from device_read_cases[OF 4(1-3) this] show ?case by (auto simp: env_view.same_def)
next
  case (5 w fd n w')
  then have "cs_simple (0 :: int) (-1) w = (n, w')" by (simp add: device_calls)
  from cs_simple_cases[OF this] device_more[of w' w] 5(1) show ?case
    by (simp add: env_view.same_def device_ok_def device_lines_def)
next
  case (6 w n w')
  then have "cs_lock w = (n, w')" by (simp add: device_calls)
  from cs_lock_cases[OF this] device_more[of w' w] 6(1,2) show ?case
    by (simp add: device_ok_def device_lines_def)
next
  case (7 w n w')
  then show ?case by (auto simp: device_calls cs_unlock_def no_faults_def device_ok_def device_lines_def)
next
  case (8 w bs fd n w')
  then have "cs_send fd bs w = (n, w')" by (simp add: device_calls)
  from cs_send_cases[OF 8(2) this] device_more[of w' w] 8(1) show ?case
    by (simp add: device_ok_def device_lines_def)
next
  case (9 w k fd n bs w')
  then have "cs_recv fd k w = ((n, bs), w')" by (simp add: device_calls)
  from cs_recv_cases[OF 9(2) this] device_more[of w' w] 9(1) show ?case
    by (simp add: device_ok_def device_lines_def)
next
  case (10 w h k ans w')
  then have "cs_alloc h k w = (ans, w')" by (simp add: device_calls)
  from cs_alloc_cases[OF this] device_more[of w' w] 10(1) show ?case
    by (simp add: env_view.same_def device_ok_def device_lines_def)
next
  case (11 w b w')
  then have "cs_simple True False w = (b, w')" by (simp add: device_calls)
  from cs_simple_cases[OF this] device_more[of w' w] 11(1) show ?case
    by (simp add: env_view.same_def device_ok_def device_lines_def)
next
  case (12 w b w')
  then have "cs_simple False True w = (b, w')" by (simp add: device_calls)
  from cs_simple_cases[OF this] device_more[of w' w] 12(1) show ?case
    by (simp add: env_view.same_def device_ok_def device_lines_def)
qed

end
