(* ===== verification/Socket_Props.thy ===== *)
theory Socket_Props
  imports Plain_File Device_File
begin

text \<open>
  The properties of one client session of the server, on both systems: with a regular file behind
  \<open>FILE_PATH\<close> and with the driver of this repository. They are the lemmas of \<open>Socket_Session\<close> at
  the two interpretations of \<open>server_env\<close>.
\<close>

section \<open>Example data\<close>

text \<open>
  A client that sends two packets and a beginning of a third, in transfers of 3, 1, 5 and more
  bytes; \<open>a\<close> is 97.
\<close>

definition demo_thread :: ThreadData where
  "demo_thread = \<lparr>client_fd = 5, thread_state = WaitingForData, thread_complete_success = False\<rparr>"

definition demo_plain :: plain where
  "demo_plain = \<lparr>cs_inbox = [97, 97, 10, 98, 10, 99], cs_outbox = [], cs_locked = False, cs_faults = [],
     cs_chunks = [3, 1, 5], pl_file = [], pl_pos = 0\<rparr>"

definition demo_plain_build :: build where
  "demo_plain_build = \<lparr>use_aesd_char_device = False\<rparr>"

lemma demo_plain_start:
  "thread_state demo_thread = WaitingForData" "\<not> cs_locked demo_plain" "no_faults demo_plain"
  "length (cs_inbox demo_plain) < 2 ^ 31" "finite (dom (Map.empty :: memory))"
  by (simp_all add: demo_thread_def demo_plain_def no_faults_def)

lemma demo_plain_packets: "packets [] (cs_inbox demo_plain) = [[97, 97, 10], [98, 10]]"
  by (simp add: packets_def demo_plain_def newline_def)

section \<open>The session over a regular file\<close>

text \<open>The replies over a regular file: after each packet, the file so far.\<close>

lemma replies_plain:
  "replies (@) (\<lambda>s. s) f ps = concat (map (\<lambda>i. f @ concat (take (Suc i) ps)) [0..<length ps])"
proof (induction ps arbitrary: f)
  case (Cons p ps)
  have "[0..<length (p # ps)] = 0 # map Suc [0..<length ps]"
    by (simp add: map_Suc_upt upt_conv_Cons del: upt_Suc)
  then show ?case using Cons[of "f @ p"] by (simp add: comp_def del: upt_Suc)
qed simp

lemma foldl_append: "foldl (@) f ps = f @ concat ps"
  by (induction ps arbitrary: f) simp_all

text \<open>
  C6. However the network cuts the client's bytes into pieces and however little each \<open>send\<close> and
  \<open>read\<close> transfers, a session in which no call fails ends; it has appended exactly the packets of
  the client's stream (cut after each newline) to the file, in order and leaving out an unfinished
  last one, has sent the whole file back after each of them, has freed what it allocated and has
  left the mutex free.
\<close>

theorem plain_session_answers_every_packet:
  assumes "thread_state d = WaitingForData" "\<not> cs_locked w" "no_faults w"
    "length (cs_inbox w) < 2 ^ 31" "finite (dom h)"
  defines "ps \<equiv> packets [] (cs_inbox w)"
  shows "\<exists>t. main_loop_thread cfg plain_sys d h w = Some (Inr t) \<and>
    pl_file (world t) = pl_file w @ concat ps \<and>
    cs_outbox (world t) =
      cs_outbox w @ concat (map (\<lambda>i. pl_file w @ concat (take (Suc i) ps)) [0..<length ps]) \<and>
    heap t = h \<and> \<not> cs_locked (world t)"
proof -
  have nf: "list_all (\<lambda>f. f = None) (cs_faults w)" using assms(3) by (simp add: no_faults_def)
  have a: "fst (sys_alloc_struct plain_sys w)"
    "fst (sys_alloc_struct plain_sys (snd (sys_alloc_struct plain_sys w)))"
    using cs_simple_cases(5)[OF surjective_pairing, of w True False] assms(3)
      cs_simple_cases(5)[OF surjective_pairing, of "snd (cs_simple True False w)" True False]
    by (simp_all add: plain_sys_def)
  show ?thesis
    using plain.main_loop_thread_ok[OF _ assms(2,1,4,5), of cfg] a assms(3)
    by (auto simp: ps_def replies_plain foldl_append)
qed

theorem plain_session_answers_every_packet_witness:
  "\<exists>t. main_loop_thread demo_plain_build plain_sys demo_thread Map.empty demo_plain = Some (Inr t) \<and>
     pl_file (world t) = [97, 97, 10, 98, 10] \<and>
     cs_outbox (world t) = [97, 97, 10] @ [97, 97, 10, 98, 10] \<and>
     heap t = Map.empty \<and> \<not> cs_locked (world t)"
  using plain_session_answers_every_packet[OF demo_plain_start, of demo_plain_build]
  unfolding demo_plain_packets by (simp add: demo_plain_def upt_rec)



text \<open>
  The thread does not check the allocation of its two structs: when one of them fails, it
  dereferences NULL before it has received anything.
\<close>

theorem session_struct_malloc_unchecked:
  assumes "cs_faults w = Some k # fs \<or> cs_faults w = None # Some k # fs"
  shows "main_loop_thread cfg plain_sys d h w = Some (Inl NullDeref)"
  using assms by (auto simp: main_loop_thread_def plain_sys_def cs_simple_def next_fault_def)

theorem session_struct_malloc_unchecked_witness:
  "main_loop_thread demo_plain_build plain_sys demo_thread Map.empty
     (demo_plain\<lparr>cs_faults := [None, Some 0]\<rparr>) = Some (Inl NullDeref)"
  by (rule session_struct_malloc_unchecked[of _ 0 "[]"]) simp

section \<open>The handlers\<close>

text \<open>A thread with two bytes received and five unread.\<close>

definition demo_handler :: "plain thread" where
  "demo_handler =
     \<lparr>t_data = demo_thread\<lparr>thread_state := ProcessingData\<rparr>,
      rb_data = \<lparr>bd_buffer = Some 0, bd_size = 2, bd_allocated = 1024\<rparr>,
      rb_new = \<lparr>bd_buffer = Some 1, bd_size = 5, bd_allocated = 1024\<rparr>,
      heap = Map.empty(0 \<mapsto> [97, 98] @ replicate 1022 0, 1 \<mapsto> [99, 10, 100, 10, 101] @ replicate 1019 0),
      world = demo_plain\<rparr>"

lemma demo_handler_start:
  "buffers_ok demo_handler" "owns Map.empty demo_handler" "0 < bd_size (rb_new demo_handler)"
  "received demo_handler = [97, 98]" "unread demo_handler = [99, 10, 100, 10, 101]"
proof -
  show "received demo_handler = [97, 98]" "unread demo_handler = [99, 10, 100, 10, 101]"
    by (simp_all add: filled_def demo_handler_def)
  show "buffers_ok demo_handler" "owns Map.empty demo_handler" "0 < bd_size (rb_new demo_handler)"
    by (simp_all add: buffers_ok_def buffer_ok_def demo_handler_def owns_def RECV_BUFFER_TEMP_SIZE_def
       )
qed

text \<open>
  C23. \<open>process_received_data\<close> cuts one packet: if the unread bytes complete a packet, it goes into
  the receive buffer and the thread is to send it, and the bytes after it stay unread for the next
  pass; otherwise all unread bytes are kept as a beginning of the packet and the thread waits.
\<close>

theorem process_cuts_one_packet:
  assumes "buffers_ok t" "owns h0 t" "0 < bd_size (rb_new t)"
  shows "\<exists>t'. process_received_data t = Inr (0, t') \<and> buffers_ok t' \<and> owns h0 t' \<and>
    (case packets (received t) (unread t) of
       [] \<Rightarrow> thread_state (t_data t') = WaitingForData \<and> received t' = received t @ unread t \<and> unread t' = []
     | p # ps \<Rightarrow> thread_state (t_data t') = SendingData \<and> received t' = p \<and> packets [] (unread t') = ps)"
proof -
  obtain t' where t': "process_received_data t = Inr (0, t')" "buffers_ok t'" "owns h0 t'"
    and cases: "thread_state (t_data t') = SendingData \<and>
       (\<exists>us. unread t = us @ newline # unread t' \<and> newline \<notin> set us \<and>
             received t' = received t @ us @ [newline]) \<or>
     thread_state (t_data t') = WaitingForData \<and> newline \<notin> set (unread t) \<and>
       received t' = received t @ unread t \<and> bd_size (rb_new t') = 0"
    using process_received_data_ok[OF assms] by blast
  from cases show ?thesis
  proof (elim disjE conjE exE)
    fix us assume "thread_state (t_data t') = SendingData" "unread t = us @ newline # unread t'"
      "newline \<notin> set us" "received t' = received t @ us @ [newline]"
    then show ?thesis using t' by (simp add: packets_end)
  next
    assume s: "thread_state (t_data t') = WaitingForData" "newline \<notin> set (unread t)"
      "received t' = received t @ unread t" "bd_size (rb_new t') = 0"
    have "unread t' = []"
      using length_filled[of "heap t'" "rb_new t'"] t'(2) s(4) by (simp add: buffers_ok_def)
    moreover have "packets (received t) (unread t) = []"
      using packets_no_end[OF s(2), of "received t" "[]"] by simp
    ultimately show ?thesis using t' s by simp
  qed
qed

theorem process_cuts_one_packet_witness:
  "\<exists>t'. process_received_data demo_handler = Inr (0, t') \<and> received t' = [97, 98, 99, 10] \<and>
     packets [] (unread t') = [[100, 10]]"
  using process_cuts_one_packet[OF demo_handler_start(1-3)] demo_handler_start(4,5)
  by (auto simp: packets_def newline_def)

text \<open>
  \<open>waiting_for_data\<close> returns whatever the calls answer: on \<open>-1\<close> a call failed; otherwise the
  client has closed the connection, or the bytes it takes from the connection are the unread bytes
  and the receive buffer has grown to have room for them, with what it held before kept.
\<close>

theorem waiting_takes_client_bytes:
  assumes "buffers_ok t" "owns h0 t" "length (received t) < 2 ^ 31" "finite (dom h0)"
  shows "\<exists>rc t'. waiting_for_data plain_sys t = Some (Inr (rc, t')) \<and> owns h0 t' \<and>
    (no_faults (world t) \<and> bd_buffer (rb_new t) \<noteq> None \<longrightarrow> rc = 0) \<and>
    (rc = -1 \<or>
     rc = 0 \<and> thread_state (t_data t') = ClosedConnection \<and> cs_inbox (world t) = [] \<or>
     rc = 0 \<and> thread_state (t_data t') = ProcessingData \<and> buffers_ok t' \<and> received t' = received t \<and>
       unread t' \<noteq> [] \<and> cs_inbox (world t) = unread t' @ cs_inbox (world t'))"
proof -
  obtain rc t' where "waiting_for_data plain_sys t = Some (Inr (rc, t'))" "owns h0 t'"
    "plain.took_data t rc t'"
    using plain.waiting_for_data_ok[OF TrueI assms(2,1,3,4)] by blast
  then show ?thesis unfolding plain.took_data_def by blast
qed

text \<open>A thread that has received 1000 bytes in a full block, and is sent three more.\<close>

definition demo_full :: "plain thread" where
  "demo_full =
     \<lparr>t_data = demo_thread,
      rb_data = \<lparr>bd_buffer = Some 0, bd_size = 1024, bd_allocated = 1024\<rparr>,
      rb_new = \<lparr>bd_buffer = Some 1, bd_size = 0, bd_allocated = 1024\<rparr>,
      heap = Map.empty(0 \<mapsto> replicate 1024 97, 1 \<mapsto> replicate 1024 0), world = demo_plain\<rparr>"

lemma demo_full_start:
  "buffers_ok demo_full" "owns Map.empty demo_full" "received demo_full = replicate 1024 97"
  by (simp_all add: buffers_ok_def buffer_ok_def demo_full_def owns_def RECV_BUFFER_TEMP_SIZE_def filled_def)

theorem waiting_takes_client_bytes_witness:
  "\<exists>rc t'. waiting_for_data plain_sys demo_full = Some (Inr (rc, t')) \<and> owns Map.empty t' \<and>
    (no_faults (world demo_full) \<and> bd_buffer (rb_new demo_full) \<noteq> None \<longrightarrow> rc = 0) \<and>
    (rc = -1 \<or>
     rc = 0 \<and> thread_state (t_data t') = ClosedConnection \<and> cs_inbox (world demo_full) = [] \<or>
     rc = 0 \<and> thread_state (t_data t') = ProcessingData \<and> buffers_ok t' \<and>
       received t' = received demo_full \<and> unread t' \<noteq> [] \<and>
       cs_inbox (world demo_full) = unread t' @ cs_inbox (world t'))"
  by (rule waiting_takes_client_bytes[OF demo_full_start(1,2)]) (simp_all add: demo_full_start(3))

text \<open>
  C22. \<open>sending_data\<close> always returns and always leaves the mutex free, on every error path too. On
  zero the packet is at the end of the file, the client has been sent the whole file, the receive
  buffer is empty, and the thread processes what is unread or waits.
\<close>

theorem sending_appends_and_replies:
  assumes "\<not> cs_locked (world t)" "buffers_ok t" "received t \<noteq> []" "last (received t) = newline"
    "length (received t) < 2 ^ 31"
  shows "\<exists>rc t'. sending_data cfg plain_sys t = Some (Inr (rc, t')) \<and> \<not> cs_locked (world t') \<and>
    heap t' = heap t \<and> (no_faults (world t) \<longrightarrow> rc = 0) \<and>
    (rc = -1 \<or>
     rc = 0 \<and> pl_file (world t') = pl_file (world t) @ received t \<and>
       cs_outbox (world t') = cs_outbox (world t) @ pl_file (world t) @ received t \<and>
       rb_data t' = (rb_data t)\<lparr>bd_size := 0\<rparr> \<and>
       thread_state (t_data t') = (if 0 < bd_size (rb_new t) then ProcessingData else WaitingForData))"
proof -
  obtain rc t' where "sending_data cfg plain_sys t = Some (Inr (rc, t'))" "plain.sent_packet t rc t'"
    using plain.sending_data_ok[OF TrueI assms] by blast
  then show ?thesis unfolding plain.sent_packet_def by blast
qed

theorem sending_appends_and_replies_witness:
  "\<exists>rc t'. sending_data demo_plain_build plain_sys
       (demo_full\<lparr>rb_data := \<lparr>bd_buffer = Some 0, bd_size = 1, bd_allocated = 1024\<rparr>,
         heap := Map.empty(0 \<mapsto> newline # replicate 1023 0, 1 \<mapsto> replicate 1024 0)\<rparr>) = Some (Inr (rc, t')) \<and>
     rc = 0 \<and> \<not> cs_locked (world t') \<and> pl_file (world t') = [newline] \<and> cs_outbox (world t') = [newline]"
  using sending_appends_and_replies[where cfg = demo_plain_build and
    t = "demo_full\<lparr>rb_data := \<lparr>bd_buffer = Some 0, bd_size = 1, bd_allocated = 1024\<rparr>,
         heap := Map.empty(0 \<mapsto> newline # replicate 1023 0, 1 \<mapsto> replicate 1024 0)\<rparr>"]
  by (fastforce simp: buffers_ok_def buffer_ok_def demo_full_def RECV_BUFFER_TEMP_SIZE_def filled_def
      demo_plain_def no_faults_def)

section \<open>The session over the character device\<close>

lemma foldl_ring_push:
  "length s \<le> max_ops \<Longrightarrow> foldl ring_push s ps = take_last max_ops (s @ ps)"
proof (induction ps arbitrary: s)
  case (Cons p ps)
  have "length (ring_push s p) \<le> max_ops" by (simp add: ring_push_def)
  from Cons.IH[OF this] show ?case by (simp add: ring_push_def)
qed simp

lemma replies_device:
  "length s \<le> max_ops \<Longrightarrow>
   replies ring_push concat s ps =
     concat (map (\<lambda>i. concat (take_last max_ops (s @ take (Suc i) ps))) [0..<length ps])"
proof (induction ps arbitrary: s)
  case (Cons p ps)
  have "length (ring_push s p) \<le> max_ops" by (simp add: ring_push_def)
  moreover have "[0..<length (p # ps)] = 0 # map Suc [0..<length ps]"
    by (simp add: map_Suc_upt upt_conv_Cons del: upt_Suc)
  ultimately show ?case using Cons.IH[of "ring_push s p"] by (simp add: comp_def ring_push_def del: upt_Suc)
qed simp

text \<open>
  C5. A session over the character driver, in which no call fails, leaves the last ten lines of
  what the device held and the client's packets in the device, and after each packet it sends the
  client the last ten lines so far: the server and the driver together keep a log of ten lines,
  whatever the sizes of the transfers are.
\<close>

theorem device_session_replies_last_ten_lines:
  assumes "thread_state d = WaitingForData" "\<not> cs_locked w" "no_faults w"
    "length (cs_inbox w) < 2 ^ 31" "finite (dom h)" "device_ok w"
  defines "ps \<equiv> packets [] (cs_inbox w)"
  shows "\<exists>t. main_loop_thread cfg device_sys d h w = Some (Inr t) \<and>
    held_lines (dv (world t)) = take_last max_ops (held_lines (dv w) @ ps) \<and>
    cs_outbox (world t) = cs_outbox w @
      concat (map (\<lambda>i. concat (take_last max_ops (held_lines (dv w) @ take (Suc i) ps))) [0..<length ps]) \<and>
    device_ok (world t) \<and> heap t = h"
proof -
  have a: "fst (sys_alloc_struct device_sys w)"
    "fst (sys_alloc_struct device_sys (snd (sys_alloc_struct device_sys w)))"
    using cs_simple_cases(5)[OF surjective_pairing, of w True False] assms(3)
      cs_simple_cases(5)[OF surjective_pairing, of "snd (cs_simple True False w)" True False]
    by (simp_all add: device_sys_def)
  have "length (held_lines (dv w)) \<le> max_ops" using held_count_le by (simp add: held_lines_def)
  note lines = foldl_ring_push[OF this] replies_device[OF this]
  show ?thesis
    using device.main_loop_thread_ok[OF assms(6,2,1,4,5), of cfg] a assms(3) lines
    by (auto simp: ps_def device_lines_def)
qed

definition demo_device_world :: device_world where
  "demo_device_world =
     \<lparr>cs_inbox = [97, 97, 10, 98, 10, 99], cs_outbox = [], cs_locked = False, cs_faults = [],
      cs_chunks = [3, 1, 5], dv = demo_device, dv_pos = 0\<rparr>"

definition demo_device_build :: build where
  "demo_device_build = \<lparr>use_aesd_char_device = True\<rparr>"

theorem device_session_replies_last_ten_lines_witness:
  "\<exists>t. main_loop_thread demo_device_build device_sys demo_thread Map.empty demo_device_world = Some (Inr t) \<and>
     held_lines (dv (world t)) = [[97, 97, 10], [98, 10]] \<and>
     cs_outbox (world t) = [97, 97, 10] @ [97, 97, 10, 98, 10]"
proof -
  have ps: "packets [] (cs_inbox demo_device_world) = [[97, 97, 10], [98, 10]]"
    by (simp add: packets_def demo_device_world_def newline_def)
  have ok: "device_ok demo_device_world" "no_faults demo_device_world" "\<not> cs_locked demo_device_world"
    "length (cs_inbox demo_device_world) < 2 ^ 31" "held_lines (dv demo_device_world) = []"
    "cs_outbox demo_device_world = []"
    using demo_device_state
    by (simp_all add: device_ok_def line_inv_def demo_device_world_def no_faults_def)
  show ?thesis
    using device_session_replies_last_ten_lines[OF demo_plain_start(1) ok(3,2,4) demo_plain_start(5) ok(1),
      of demo_device_build]
    unfolding ps ok by (auto simp: upt_rec)
qed

end
