(* ===== verification/Socket_Joins.thy ===== *)
theory Socket_Joins
  imports Socket_Server "HOL-Library.Multiset"
begin

text \<open>
  The bookkeeping of the main thread: the list of running threads, the memory of its items and
  of the data shared with the threads, and the descriptors closed. The locale \<open>thread_env\<close> states
  what the thread library and the allocator document, and that no other call ends a thread or
  closes a client's descriptor; its lemmas say what \<open>create_thread\<close> and
  \<open>join_threads\<close> do, the latter through the traversal contract \<open>foreach_body\<close> of \<open>Slist\<close>.
\<close>

text \<open>
  \<open>arg w\<close> gives, for every thread that was created and not joined, the address that it was
  created with and will return; \<open>closed w\<close> are the descriptors closed so far, and \<open>opened w\<close> those of
  the clients for which a thread was created.
\<close>

locale thread_env =
  fixes os :: "'w os"
    and arg :: "'w \<Rightarrow> int \<Rightarrow> addr option"
    and closed :: "'w \<Rightarrow> int list"
    and opened :: "'w \<Rightarrow> int list"
  assumes tryjoin_law: "arg w tid = Some p \<Longrightarrow> os_tryjoin os tid w = ((rv, ret), w') \<Longrightarrow>
      closed w' = closed w \<and> opened w' = opened w \<and>
      (if rv = 0 then ret = Some p \<and> arg w' = (arg w)(tid := None) else arg w' = arg w)"
    and create_law: "os_pthread_create os p d w = ((rv, tid), w') \<Longrightarrow>
      closed w' = closed w \<and>
      (if rv = 0 then arg w tid = None \<and> arg w' = (arg w)(tid \<mapsto> p) \<and> opened w' = opened w @ [client_fd d]
       else arg w' = arg w \<and> opened w' = opened w)"
    and close_law: "os_call os (Close fd) w = (r, w') \<Longrightarrow> arg w' = arg w \<and> closed w' = closed w @ [fd] \<and> opened w' = opened w"
    and alloc_item_law: "os_alloc_item os m w = (ans, w') \<Longrightarrow>
      arg w' = arg w \<and> closed w' = closed w \<and> opened w' = opened w \<and> (\<forall>a. ans = Some a \<longrightarrow> m a = None)"
    and alloc_data_law: "os_alloc_data os ds w = (ans', w') \<Longrightarrow>
      arg w' = arg w \<and> closed w' = closed w \<and> opened w' = opened w \<and> (\<forall>a. ans' = Some a \<longrightarrow> ds a = None)"
    and other_call_law: "(\<And>fd. c \<noteq> Close fd) \<Longrightarrow>
      arg (snd (os_call os c w)) = arg w \<and> closed (snd (os_call os c w)) = closed w \<and>
        opened (snd (os_call os c w)) = opened w"
    and read_laws:
      "arg (snd (os_caught_signal os w)) = arg w \<and> closed (snd (os_caught_signal os w)) = closed w \<and>
        opened (snd (os_caught_signal os w)) = opened w"
      "arg (snd (os_clock os w)) = arg w \<and> closed (snd (os_clock os w)) = closed w \<and>
        opened (snd (os_clock os w)) = opened w"
      "arg (snd (os_eintr os w)) = arg w \<and> closed (snd (os_eintr os w)) = closed w \<and>
        opened (snd (os_eintr os w)) = opened w"
      "arg (snd (os_client_ip os w)) = arg w \<and> closed (snd (os_client_ip os w)) = closed w \<and>
        opened (snd (os_client_ip os w)) = opened w"
      "arg (snd (os_strftime os w)) = arg w \<and> closed (snd (os_strftime os w)) = closed w \<and>
        opened (snd (os_strftime os w)) = opened w"
    and file_laws:
      "arg (snd (sys_open (os_file os) w)) = arg w \<and> closed (snd (sys_open (os_file os) w)) = closed w \<and>
        opened (snd (sys_open (os_file os) w)) = opened w"
      "arg (snd (sys_write (os_file os) n bs w)) = arg w \<and> closed (snd (sys_write (os_file os) n bs w)) = closed w \<and>
        opened (snd (sys_write (os_file os) n bs w)) = opened w"
      "arg (snd (sys_close (os_file os) n w)) = arg w \<and> closed (snd (sys_close (os_file os) n w)) = closed w \<and>
        opened (snd (sys_close (os_file os) n w)) = opened w"
      "arg (snd (sys_lock (os_file os) w)) = arg w \<and> closed (snd (sys_lock (os_file os) w)) = closed w \<and>
        opened (snd (sys_lock (os_file os) w)) = opened w"
      "arg (snd (sys_unlock (os_file os) w)) = arg w \<and> closed (snd (sys_unlock (os_file os) w)) = closed w \<and>
        opened (snd (sys_unlock (os_file os) w)) = opened w"
begin

section \<open>The invariant\<close>

definition tid_of :: "'w server \<Rightarrow> addr \<Rightarrow> int" where
  "tid_of s x = thread_id (the (items s x))"

definition data_of :: "'w server \<Rightarrow> addr \<Rightarrow> addr" where
  "data_of s x = the (arg (env s) (tid_of s x))"

definition fd_of :: "'w server \<Rightarrow> addr \<Rightarrow> int" where
  "fd_of s x = client_fd (the (datas s (data_of s x)))"

text \<open>
  \<open>xs\<close> are the items of the list: they are allocated, each stands for a different thread that is
  not joined, and each thread has its own data.
\<close>

definition server_inv :: "'w server \<Rightarrow> addr list \<Rightarrow> bool" where
  "server_inv s xs \<longleftrightarrow>
     slist (links s) (linked_list s) xs \<and> dom (links s) = dom (items s) \<and>
     (\<forall>x \<in> set xs. items s x \<noteq> None \<and> arg (env s) (tid_of s x) \<noteq> None \<and> datas s (data_of s x) \<noteq> None) \<and>
     inj_on (tid_of s) (set xs) \<and> inj_on (data_of s) (set xs)"

lemma server_invD:
  assumes "server_inv s xs" "x \<in> set xs"
  obtains item p d where "items s x = Some item" "arg (env s) (thread_id item) = Some p" "datas s p = Some d"
    "tid_of s x = thread_id item" "data_of s x = p" "fd_of s x = client_fd d"
  using assms by (fastforce simp: server_inv_def tid_of_def data_of_def fd_of_def)

section \<open>Joining one thread\<close>

text \<open>The state after the body of the traversal has joined the thread of the item \<open>a\<close>.\<close>

definition joined :: "'w server \<Rightarrow> addr \<Rightarrow> 'w server \<Rightarrow> bool" where
  "joined s a s' \<longleftrightarrow>
     items s' = (items s)(a := None) \<and> datas s' = (datas s)(data_of s a := None) \<and>
     arg (env s') = (arg (env s))(tid_of s a := None) \<and> closed (env s') = closed (env s) @ [fd_of s a] \<and> opened (env s') = opened (env s) \<and>
     current_state s' = current_state s \<and> keep_looping s' = keep_looping s \<and> socket_fd s' = socket_fd s"

definition not_joined :: "'w server \<Rightarrow> 'w server \<Rightarrow> bool" where
  "not_joined s s' \<longleftrightarrow> (\<exists>w. s' = s\<lparr>env := w\<rparr> \<and> arg w = arg (env s) \<and> closed w = closed (env s) \<and>
     opened w = opened (env s))"

lemma tid_of_env [simp]: "tid_of (s\<lparr>env := w\<rparr>) = tid_of s"
  by (rule ext) (simp add: tid_of_def)

lemma data_of_env: "arg w = arg (env s) \<Longrightarrow> data_of (s\<lparr>env := w\<rparr>) = data_of s"
  by (rule ext) (simp add: data_of_def)

lemma not_joined_inv:
  assumes "not_joined s s'"
  shows "server_inv s' xs = server_inv s xs"
proof -
  obtain w where "s' = s\<lparr>env := w\<rparr>" "arg w = arg (env s)" using assms by (auto simp: not_joined_def)
  with data_of_env[of w s] show ?thesis by (simp add: server_inv_def)
qed

text \<open>An item taken out of the list, with its memory and its thread.\<close>

definition without :: "'w server \<Rightarrow> addr \<Rightarrow> 'w \<Rightarrow> ptr \<Rightarrow> links \<Rightarrow> 'w server" where
  "without s a w first m =
     s\<lparr>env := w, linked_list := first, links := m(a := None), items := (items s)(a := None),
       datas := (datas s)(data_of s a := None)\<rparr>"

lemma without_same:
  assumes inv: "server_inv s xs" and x: "x \<in> set xs" "a \<in> set xs" "x \<noteq> a"
    and w: "arg w = (arg (env s))(tid_of s a := None)"
  shows "items (without s a w first m) x = items s x"
    and "tid_of (without s a w first m) x = tid_of s x"
    and "arg (env (without s a w first m)) (tid_of s x) = arg (env s) (tid_of s x)"
    and "data_of (without s a w first m) x = data_of s x"
    and "datas (without s a w first m) (data_of s x) = datas s (data_of s x)"
proof -
  have ne: "tid_of s x \<noteq> tid_of s a" "data_of s x \<noteq> data_of s a"
    using inv x by (auto simp: server_inv_def dest: inj_onD)
  show i: "items (without s a w first m) x = items s x" using x(3) by (simp add: without_def)
  then show t: "tid_of (without s a w first m) x = tid_of s x" by (simp add: tid_of_def)
  show e: "arg (env (without s a w first m)) (tid_of s x) = arg (env s) (tid_of s x)"
    using w ne by (simp add: without_def)
  show "data_of (without s a w first m) x = data_of s x"
    unfolding data_of_def t e ..
  show "datas (without s a w first m) (data_of s x) = datas s (data_of s x)"
    using ne by (simp add: without_def)
qed

lemma without_inv:
  assumes inv: "server_inv s xs" and a: "a \<in> set xs"
    and w: "arg w = (arg (env s))(tid_of s a := None)"
    and m: "slist m first (remove1 a xs)" "dom m = dom (links s)"
  shows "server_inv (without s a w first m) (remove1 a xs)"
proof -
  let ?s' = "without s a w first m"
  have sl: "slist (links s) (linked_list s) xs" using inv by (simp add: server_inv_def)
  have mem: "x \<in> set xs" "x \<noteq> a" if "x \<in> set (remove1 a xs)" for x
    using that slist_distinct[OF sl] by (simp_all add: set_remove1_eq)
  note same = without_same[OF inv mem(1) a mem(2) w, where first = first and m = m]
  have "slist (links ?s') (linked_list ?s') (remove1 a xs)"
  proof -
    have "\<forall>x \<in> set (remove1 a xs). (m(a := None)) x = m x" using mem(2) by auto
    then have "slist (m(a := None)) first (remove1 a xs) = slist m first (remove1 a xs)"
      by (rule slist_cong)
    with m(1) show ?thesis by (simp add: without_def)
  qed
  moreover have "dom (links ?s') = dom (items ?s')"
    using m(2) inv by (simp add: server_inv_def without_def)
  moreover have "items ?s' x \<noteq> None \<and> arg (env ?s') (tid_of ?s' x) \<noteq> None \<and> datas ?s' (data_of ?s' x) \<noteq> None"
    if x: "x \<in> set (remove1 a xs)" for x
    unfolding same[OF x x] using inv mem(1)[OF x] by (simp add: server_inv_def)
  moreover have "inj_on (tid_of ?s') (set (remove1 a xs))"
  proof -
    have "inj_on (tid_of s) (set (remove1 a xs))"
      by (rule inj_on_subset[OF _ set_remove1_subset]) (use inv in \<open>simp add: server_inv_def\<close>)
    then show ?thesis using same(2) by (simp cong: inj_on_cong)
  qed
  moreover have "inj_on (data_of ?s') (set (remove1 a xs))"
  proof -
    have "inj_on (data_of s) (set (remove1 a xs))"
      by (rule inj_on_subset[OF _ set_remove1_subset]) (use inv in \<open>simp add: server_inv_def\<close>)
    then show ?thesis using same(4) by (simp cong: inj_on_cong)
  qed
  ultimately show ?thesis unfolding server_inv_def by blast
qed

lemma join_body_ok:
  assumes inv: "server_inv s xs" and a: "a \<in> set xs"
  shows "\<exists>s'. join_body os s a = Some (Inr s') \<and>
    (not_joined s s' \<or> joined s a s' \<and> server_inv s' (remove1 a xs))"
proof -
  obtain item p d where i: "items s a = Some item" "arg (env s) (thread_id item) = Some p" "datas s p = Some d"
    "tid_of s a = thread_id item" "data_of s a = p" "fd_of s a = client_fd d"
    using inv a by (rule server_invD)
  obtain rv ret w1 where tj: "os_tryjoin os (thread_id item) (env s) = ((rv, ret), w1)"
    by (metis prod.exhaust)
  note law = tryjoin_law[OF i(2) tj]
  show ?thesis
  proof (cases "rv = 0")
    case False
    then have "join_body os s a = Some (Inr (s\<lparr>env := w1\<rparr>))" using i(1) tj by (simp add: join_body_def)
    moreover have "not_joined s (s\<lparr>env := w1\<rparr>)" using False law by (auto simp: not_joined_def)
    ultimately show ?thesis by blast
  next
    case True
    with law have w1: "ret = Some p" "arg w1 = (arg (env s))(thread_id item := None)" "closed w1 = closed (env s)"
      "opened w1 = opened (env s)" by simp_all
    obtain r w2 where c: "os_call os (Close (client_fd d)) w1 = (r, w2)"
      by (cases "os_call os (Close (client_fd d)) w1")
    note cl = close_law[OF c]
    have sl: "slist (links s) (linked_list s) xs" using inv by (simp add: server_inv_def)
    from remove_slist[OF this a] obtain first m where
      rm: "SLIST_REMOVE (links s) (linked_list s) (Some a) = Some (Inr (first, m))"
        "slist m first (remove1 a xs)" "dom m = dom (links s)" by blast
    have "join_body os s a = Some (Inr (without s a w2 first m))"
      using i(1,3,5) tj True w1(1) c rm(1) by (simp add: join_body_def do_call_def without_def)
    moreover have "joined s a (without s a w2 first m)"
      using i(4,6) w1 cl by (simp add: joined_def without_def)
    moreover have "server_inv (without s a w2 first m) (remove1 a xs)"
      using w1(2) cl i(4) by (intro without_inv[OF inv a _ rm(2,3)]) simp
    ultimately show ?thesis by blast
  qed
qed

lemma joined_same:
  assumes inv: "server_inv s xs" and j: "joined s a s'" and x: "x \<in> set xs" "a \<in> set xs" "x \<noteq> a"
  shows "tid_of s' x = tid_of s x" "data_of s' x = data_of s x" "fd_of s' x = fd_of s x"
proof -
  have ne: "tid_of s x \<noteq> tid_of s a" "data_of s x \<noteq> data_of s a"
    using inv x by (auto simp: server_inv_def dest: inj_onD)
  show t: "tid_of s' x = tid_of s x" using j x(3) by (simp add: joined_def tid_of_def)
  show d: "data_of s' x = data_of s x"
    unfolding data_of_def t using j ne(1) by (simp add: joined_def)
  show "fd_of s' x = fd_of s x"
    unfolding fd_of_def d using j ne(2) by (simp add: joined_def)
qed

section \<open>Joining the threads of the list\<close>

definition join_effect :: "'w server \<Rightarrow> addr \<Rightarrow> 'w server" where
  "join_effect s a = projr (the (join_body os s a))"

definition join_todo :: "addr list \<Rightarrow> 'w server \<Rightarrow> bool" where
  "join_todo as s \<longleftrightarrow> (\<exists>done. server_inv s (done @ as))"

lemma join_effect_cases:
  assumes "server_inv s (bef @ a # as)"
  shows "join_body os s a = Some (Inr (join_effect s a))"
    and "not_joined s (join_effect s a) \<and> server_inv (join_effect s a) (bef @ a # as) \<or>
      joined s a (join_effect s a) \<and> server_inv (join_effect s a) (bef @ as)"
proof -
  have "slist (links s) (linked_list s) (bef @ a # as)" using assms by (simp add: server_inv_def)
  from slist_distinct[OF this] have "remove1 a (bef @ a # as) = bef @ as" by (simp add: remove1_append)
  with join_body_ok[OF assms, of a] obtain s' where s': "join_body os s a = Some (Inr s')"
    "not_joined s s' \<or> joined s a s' \<and> server_inv s' (bef @ as)" by auto
  then have "join_effect s a = s'" by (simp add: join_effect_def)
  with s' not_joined_inv[of s s'] assms
  show "join_body os s a = Some (Inr (join_effect s a))"
    "not_joined s (join_effect s a) \<and> server_inv (join_effect s a) (bef @ a # as) \<or>
      joined s a (join_effect s a) \<and> server_inv (join_effect s a) (bef @ as)" by auto
qed

sublocale join: foreach_body links "join_body os" join_todo join_effect
proof
  fix a as s assume "join_todo (a # as) s"
  then obtain bef where inv: "server_inv s (bef @ a # as)" by (auto simp: join_todo_def)
  show "join_body os s a = Some (Inr (join_effect s a))" by (rule join_effect_cases(1)[OF inv])
  from join_effect_cases(2)[OF inv] show "join_todo as (join_effect s a)"
    unfolding join_todo_def by (metis append.assoc append_Cons append_Nil)
  have "slist (links s) (linked_list s) (bef @ a # as)" using inv by (simp add: server_inv_def)
  then show "\<exists>n. links s a = Some n \<and> n = (case as of [] \<Rightarrow> None | b # _ \<Rightarrow> Some b)"
    using slist_first[of "links s" _ as] by (auto simp: slist_append)
qed

text \<open>The state after a traversal that has joined the threads of the items \<open>gone\<close>.\<close>

definition joined_all :: "'w server \<Rightarrow> addr list \<Rightarrow> 'w server \<Rightarrow> bool" where
  "joined_all s gone s' \<longleftrightarrow>
     items s' = items s |` (- set gone) \<and> datas s' = datas s |` (- data_of s ` set gone) \<and>
     arg (env s') = arg (env s) |` (- tid_of s ` set gone) \<and>
     closed (env s') = closed (env s) @ map (fd_of s) gone \<and> opened (env s') = opened (env s) \<and>
     current_state s' = current_state s \<and> keep_looping s' = keep_looping s \<and> socket_fd s' = socket_fd s"

lemma joined_all_Nil: "not_joined s s' \<Longrightarrow> joined_all s' gone s'' \<Longrightarrow> joined_all s gone s''"
proof -
  assume nj: "not_joined s s'" and ja: "joined_all s' gone s''"
  obtain w where w: "s' = s\<lparr>env := w\<rparr>" "arg w = arg (env s)" "closed w = closed (env s)" "opened w = opened (env s)"
    using nj by (auto simp: not_joined_def)
  have "fd_of s' = fd_of s" using data_of_env[OF w(2)] by (simp add: w(1) fd_of_def fun_eq_iff)
  with ja w data_of_env[OF w(2)] show ?thesis by (simp add: joined_all_def)
qed

lemma joined_all_Cons:
  assumes "server_inv s xs" "a \<in> set xs" "joined s a s'" "joined_all s' gone s''"
    "set gone \<subseteq> set xs" "a \<notin> set gone"
  shows "joined_all s (a # gone) s''"
proof -
  have x: "tid_of s' x = tid_of s x" "data_of s' x = data_of s x" "fd_of s' x = fd_of s x"
    if "x \<in> set gone" for x
    using joined_same[OF assms(1,3) _ assms(2), of x] that assms(5,6) by auto
  then have e: "tid_of s' ` set gone = tid_of s ` set gone" "data_of s' ` set gone = data_of s ` set gone"
    "map (fd_of s') gone = map (fd_of s) gone" by auto
  have r: "f(a := None) |` (- S) = f |` (- insert a S)" for f :: "'x \<Rightarrow> 'y option" and a S
    by (rule ext) (auto simp: restrict_map_def)
  show ?thesis using assms(3,4) e by (simp add: joined_all_def joined_def r del: restrict_fun_upd)
qed

lemma join_fold:
  "server_inv s (bef @ as) \<Longrightarrow>
   \<exists>gone. gone = filter (\<lambda>x. x \<in> set gone) as \<and> joined_all s gone (foldl join_effect s as) \<and>
     server_inv (foldl join_effect s as) (bef @ filter (\<lambda>x. x \<notin> set gone) as)"
proof (induction as arbitrary: s bef)
  case Nil
  then show ?case by (intro exI[of _ "[]"]) (simp add: joined_all_def restrict_map_def)
next
  case (Cons a as)
  let ?s1 = "join_effect s a"
  have "slist (links s) (linked_list s) (bef @ a # as)" using Cons.prems by (simp add: server_inv_def)
  from slist_distinct[OF this] have a: "a \<notin> set as" by simp
  from join_effect_cases(2)[OF Cons.prems] show ?case
  proof (elim disjE conjE)
    assume nj: "not_joined s ?s1" and "server_inv ?s1 (bef @ a # as)"
    then have "server_inv ?s1 ((bef @ [a]) @ as)" by simp
    from Cons.IH[OF this] obtain gone where sub: "gone = filter (\<lambda>x. x \<in> set gone) as" and g:
      "joined_all ?s1 gone (foldl join_effect ?s1 as)"
      "server_inv (foldl join_effect ?s1 as) ((bef @ [a]) @ filter (\<lambda>x. x \<notin> set gone) as)" by blast
    have "a \<notin> set gone" using a arg_cong[OF sub, of set] by auto
    with g sub joined_all_Nil[OF nj g(1)] show ?thesis by (intro exI[of _ gone]) simp
  next
    assume j: "joined s a ?s1" and "server_inv ?s1 (bef @ as)"
    from Cons.IH[OF this(2)] obtain gone where sub: "gone = filter (\<lambda>x. x \<in> set gone) as" and g:
      "joined_all ?s1 gone (foldl join_effect ?s1 as)"
      "server_inv (foldl join_effect ?s1 as) (bef @ filter (\<lambda>x. x \<notin> set gone) as)" by blast
    have gone: "set gone \<subseteq> set as" using arg_cong[OF sub, of set] by auto
    then have "joined_all s (a # gone) (foldl join_effect ?s1 as)"
      using a by (intro joined_all_Cons[OF Cons.prems _ j g(1)]) auto
    moreover have "filter (\<lambda>x. x \<notin> set (a # gone)) (a # as) = filter (\<lambda>x. x \<notin> set gone) as"
      "filter (\<lambda>x. x \<in> set (a # gone)) (a # as) = a # filter (\<lambda>x. x \<in> set gone) as"
      using a by (auto intro: filter_cong)
    ultimately show ?thesis using g(2) sub by (intro exI[of _ "a # gone"]) simp
  qed
qed

lemma join_threads_ok:
  assumes "server_inv s xs"
  shows "\<exists>s' gone. join_threads os s = Some (Inr s') \<and> gone = filter (\<lambda>x. x \<in> set gone) xs \<and> joined_all s gone s' \<and>
    server_inv s' (filter (\<lambda>x. x \<notin> set gone) xs)"
proof -
  have sl: "slist (links s) (linked_list s) xs" using assms by (simp add: server_inv_def)
  have "join_todo xs s" using assms unfolding join_todo_def by (metis append_Nil)
  from join.foreach_visits[OF this] slist_first[OF sl]
  have "join_threads os s = Some (Inr (foldl join_effect s xs))" by (simp add: join_threads_def)
  with join_fold[of s "[]" xs] assms show ?thesis by auto
qed

text \<open>The items that stay in the list stand for the same threads and clients.\<close>

lemma joined_all_same:
  assumes "server_inv s xs" "joined_all s gone s'" "set gone \<subseteq> set xs" "x \<in> set xs" "x \<notin> set gone"
  shows "tid_of s' x = tid_of s x" "fd_of s' x = fd_of s x"
proof -
  have ne: "tid_of s x \<notin> tid_of s ` set gone" "data_of s x \<notin> data_of s ` set gone"
    using assms(1,3-5) by (auto simp: server_inv_def dest: inj_onD)
  show t: "tid_of s' x = tid_of s x" using assms(2,5) by (simp add: joined_all_def tid_of_def)
  have "data_of s' x = data_of s x"
    unfolding data_of_def t using assms(2) ne(1) by (simp add: joined_all_def)
  then show "fd_of s' x = fd_of s x"
    unfolding fd_of_def using assms(2) ne(2) by (simp add: joined_all_def)
qed

section \<open>The accounts\<close>

text \<open>
  Since the world was \<open>w0\<close>: a thread that was created and not joined is one of \<open>w0\<close> or has an item
  in the list, and the descriptor of a client for which a thread was created is closed or in the
  list, once.
\<close>

definition accounted :: "'w \<Rightarrow> 'w server \<Rightarrow> addr list \<Rightarrow> bool" where
  "accounted w0 s xs \<longleftrightarrow> dom (arg (env s)) \<subseteq> dom (arg w0) \<union> tid_of s ` set xs \<and>
     mset (closed (env s)) + mset (map (fd_of s) xs) + mset (opened w0) = mset (closed w0) + mset (opened (env s))"

lemma accounted_joined:
  assumes "server_inv s xs" "accounted w0 s xs" "joined_all s gone s'" "gone = filter (\<lambda>x. x \<in> set gone) xs"
  shows "accounted w0 s' (filter (\<lambda>x. x \<notin> set gone) xs)"
proof -
  let ?ys = "filter (\<lambda>x. x \<notin> set gone) xs"
  have sub: "set gone \<subseteq> set xs" using arg_cong[OF assms(4), of set] by auto
  note same = joined_all_same[OF assms(1,3) sub]
  have "dom (arg (env s')) \<subseteq> dom (arg w0) \<union> tid_of s ` set xs - tid_of s ` set gone"
    using assms(2,3) by (auto simp: accounted_def joined_all_def)
  also have "\<dots> \<subseteq> dom (arg w0) \<union> tid_of s' ` set ?ys" using same(1) by force
  finally have dom: "dom (arg (env s')) \<subseteq> dom (arg w0) \<union> tid_of s' ` set ?ys" .
  have "map (fd_of s') ?ys = map (fd_of s) ?ys" using same(2) by simp
  moreover have "mset xs = mset (filter (\<lambda>x. x \<in> set gone) xs) + mset ?ys"
    by (simp add: multiset_partition[symmetric])
  then have "mset xs = mset gone + mset ?ys" unfolding assms(4)[symmetric] .
  then have "mset (map (fd_of s) xs) = mset (map (fd_of s) gone) + mset (map (fd_of s) ?ys)"
    by (simp only: mset_map image_mset_union)
  ultimately have "mset (map (fd_of s) xs) = mset (map (fd_of s) gone) + mset (map (fd_of s') ?ys)" by (simp only:)
  with dom assms(2,3) show ?thesis
    by (simp add: accounted_def joined_all_def ac_simps del: mset_map)
qed

section \<open>Creating a thread\<close>

lemma server_inv_frame:
  assumes "server_inv s xs" "linked_list s' = linked_list s" "dom (links s') = dom (items s')"
    "\<forall>x \<in> set xs. links s' x = links s x" "\<forall>x \<in> set xs. items s' x = items s x"
    "\<forall>x \<in> set xs. arg (env s') (tid_of s x) = arg (env s) (tid_of s x)"
    "\<forall>x \<in> set xs. datas s' (data_of s x) = datas s (data_of s x)"
  shows "server_inv s' xs" "x \<in> set xs \<Longrightarrow> tid_of s' x = tid_of s x" "x \<in> set xs \<Longrightarrow> data_of s' x = data_of s x"
    "x \<in> set xs \<Longrightarrow> fd_of s' x = fd_of s x"
proof -
  have t: "tid_of s' x = tid_of s x" if "x \<in> set xs" for x using assms(5) that by (simp add: tid_of_def)
  have d: "data_of s' x = data_of s x" if "x \<in> set xs" for x
    unfolding data_of_def t[OF that] using assms(6) that by simp
  show "x \<in> set xs \<Longrightarrow> tid_of s' x = tid_of s x" "x \<in> set xs \<Longrightarrow> data_of s' x = data_of s x"
    by (fact t d)+
  show "x \<in> set xs \<Longrightarrow> fd_of s' x = fd_of s x" using d assms(7) by (simp add: fd_of_def)
  have "slist (links s') (linked_list s') xs"
    using assms(1,2) slist_cong[OF assms(4)] by (simp add: server_inv_def)
  moreover have "inj_on (tid_of s') (set xs)" "inj_on (data_of s') (set xs)"
    using assms(1) t d by (simp_all add: server_inv_def cong: inj_on_cong)
  moreover have "\<forall>x \<in> set xs. items s' x \<noteq> None \<and> arg (env s') (tid_of s' x) \<noteq> None \<and> datas s' (data_of s' x) \<noteq> None"
    using assms(1,5-7) t d by (simp add: server_inv_def)
  ultimately show "server_inv s' xs" using assms(3) unfolding server_inv_def by blast
qed

text \<open>
  On a failure nothing is entered in the list, but the descriptor of the client is not closed; on
  success the new item is the head of the list.
\<close>

definition thread_created :: "'w server \<Rightarrow> int \<Rightarrow> byte list \<Rightarrow> addr list \<Rightarrow> int \<Rightarrow> 'w server \<Rightarrow> bool" where
  "thread_created s fd ip xs rv s' \<longleftrightarrow>
     closed (env s') = closed (env s) \<and> current_state s' = current_state s \<and>
     keep_looping s' = keep_looping s \<and> socket_fd s' = socket_fd s \<and>
     (rv = -1 \<and> server_inv s' xs \<and> opened (env s') = opened (env s) \<and> arg (env s') = arg (env s) \<and>
        (\<forall>x \<in> set xs. tid_of s' x = tid_of s x \<and> fd_of s' x = fd_of s x) \<or>
      rv = 0 \<and> (\<exists>a. items s a = None \<and> server_inv s' (a # xs) \<and> fd_of s' a = fd \<and>
        client_ip_string (the (items s' a)) = ip \<and> opened (env s') = opened (env s) @ [fd] \<and>
        dom (arg (env s')) = insert (tid_of s' a) (dom (arg (env s))) \<and>
        (\<forall>x \<in> set xs. tid_of s' x = tid_of s x \<and> fd_of s' x = fd_of s x)))"

text \<open>The entry of a thread that has started: its item is the new head, its data and identifier are new.\<close>

lemma new_thread_inv:
  fixes s :: "'w server" and ip :: "byte list" and d :: ThreadData
  assumes inv: "server_inv s xs" and a: "links s a = None" "items s a = None"
    and p: "datas s p = None" and tid: "\<forall>x \<in> set xs. tid_of s x \<noteq> tid"
    and w: "arg w = (arg (env s))(tid \<mapsto> p)"
  defines "s' \<equiv> s\<lparr>env := w, links := (links s)(a \<mapsto> linked_list s),
    items := (items s)(a \<mapsto> \<lparr>thread_id = tid, client_ip_string = ip\<rparr>), datas := (datas s)(p \<mapsto> d), linked_list := Some a\<rparr>"
  shows "server_inv s' (a # xs)" "fd_of s' a = client_fd d" "tid_of s' a = tid"
    "\<forall>x \<in> set xs. tid_of s' x = tid_of s x \<and> fd_of s' x = fd_of s x"
proof -
  have da: "\<forall>x \<in> set xs. data_of s x \<noteq> p" and ax: "a \<notin> set xs" and dom: "dom (links s) = dom (items s)"
    using inv p a(2) by (auto simp: server_inv_def)
  let ?sx = "s'\<lparr>linked_list := linked_list s\<rparr>"
  have fr: "server_inv ?sx xs" "\<And>x. x \<in> set xs \<Longrightarrow> tid_of ?sx x = tid_of s x"
    "\<And>x. x \<in> set xs \<Longrightarrow> data_of ?sx x = data_of s x" "\<And>x. x \<in> set xs \<Longrightarrow> fd_of ?sx x = fd_of s x"
    using w dom ax da tid unfolding s'_def by (intro server_inv_frame[OF inv]; auto)+
  have eq: "tid_of s' = tid_of ?sx" "data_of s' = data_of ?sx" "fd_of s' = fd_of ?sx"
    by (simp_all add: tid_of_def data_of_def fd_of_def fun_eq_iff)
  have ta: "tid_of s' a = tid" "data_of s' a = p" using w by (simp_all add: tid_of_def data_of_def s'_def)
  show "tid_of s' a = tid" by (rule ta(1))
  show "\<forall>x \<in> set xs. tid_of s' x = tid_of s x \<and> fd_of s' x = fd_of s x" using fr(2,4) eq by simp
  show "fd_of s' a = client_fd d" using ta by (simp add: fd_of_def s'_def)
  have "links s' a = Some (linked_list s)" "items s' a \<noteq> None" "datas s' p \<noteq> None" "arg (env s') tid \<noteq> None"
    "linked_list s' = Some a" using w by (simp_all add: s'_def)
  with fr ta tid da eq show "server_inv s' (a # xs)" unfolding server_inv_def
    by (auto simp: inj_on_insert)
qed

text \<open>A creation that fails leaves the list as it is.\<close>

lemma thread_not_created:
  assumes inv: "server_inv s xs" and vars: "linked_list s' = linked_list s" "current_state s' = current_state s"
      "keep_looping s' = keep_looping s" "socket_fd s' = socket_fd s"
    and w: "arg (env s') = arg (env s)" "closed (env s') = closed (env s)" "opened (env s') = opened (env s)"
    and mem: "dom (links s') = dom (items s')" "\<forall>x \<in> set xs. links s' x = links s x"
      "\<forall>x \<in> set xs. items s' x = items s x" "\<forall>x \<in> set xs. datas s' (data_of s x) = datas s (data_of s x)"
  shows "thread_created s fd ip xs (-1) s'"
proof -
  have "\<forall>x \<in> set xs. arg (env s') (tid_of s x) = arg (env s) (tid_of s x)" by (simp add: w(1))
  from server_inv_frame[OF inv vars(1) mem(1-3) this mem(4)] vars(2-4) w
  show ?thesis unfolding thread_created_def by simp
qed

text \<open>A thread that runs is entered with its item and its data, both new.\<close>

lemma thread_entered:
  fixes s :: "'w server" and ip :: "byte list"
  assumes inv: "server_inv s xs" and a: "links s a = None" "items s a = None" and p: "datas s p = None"
    and w: "arg (env s) tid = None" "arg w = (arg (env s))(tid \<mapsto> p)" "closed w = closed (env s)"
      "opened w = opened (env s) @ [client_fd d]"
  shows "thread_created s (client_fd d) ip xs 0 (s\<lparr>env := w, links := (links s)(a \<mapsto> linked_list s),
    items := (items s)(a \<mapsto> \<lparr>thread_id = tid, client_ip_string = ip\<rparr>), datas := (datas s)(p \<mapsto> d), linked_list := Some a\<rparr>)"
proof -
  have "\<forall>x \<in> set xs. tid_of s x \<noteq> tid" using inv w(1) by (auto simp: server_inv_def)
  note new = new_thread_inv[OF inv a p this w(2), of d ip]
  show ?thesis
    using new(1,3,4) new(2) a(2) w
    unfolding thread_created_def by (intro conjI disjI2 exI[of _ a]) simp_all
qed

text \<open>With the memory for the item and the data, the thread is created or not.\<close>

lemma create_thread_pthread:
  assumes inv: "server_inv s xs" and ai: "os_alloc_item os (links s) (env s) = (Some a, w1)"
    and ad: "os_alloc_data os (datas s) w1 = (Some p, w2)" and a: "a \<notin> set xs"
  shows "\<exists>rv s'. create_thread os fd ip s = Inr (rv, s') \<and> thread_created s fd ip xs rv s'"
proof -
  have dom: "dom (links s) = dom (items s)" and da: "\<forall>x \<in> set xs. datas s (data_of s x) \<noteq> None"
    using inv by (simp_all add: server_inv_def)
  note l1 = alloc_item_law[OF ai] and l2 = alloc_data_law[OF ad]
  have free: "links s a = None" "items s a = None" "datas s p = None" "\<forall>x \<in> set xs. data_of s x \<noteq> p"
    using l1 l2 da dom by auto
  define d where "d = \<lparr>client_fd = fd, thread_state = WaitingForData, thread_complete_success = False\<rparr>"
  obtain rv tid w3 where pc: "os_pthread_create os p d w2 = ((rv, tid), w3)" by (metis prod.exhaust)
  note l3 = create_law[OF pc]
  show ?thesis
  proof (cases "rv = 0")
    case False
    let ?s3 = "s\<lparr>env := w3, links := (links s)(a \<mapsto> None),
       items := (items s)(a \<mapsto> \<lparr>thread_id = 0, client_ip_string = ip\<rparr>), datas := (datas s)(p \<mapsto> d)\<rparr>"
    have "create_thread os fd ip s = Inr (-1, ?s3)"
      using ai ad pc False by (simp add: create_thread_def Let_def d_def[symmetric])
    moreover have "thread_created s fd ip xs (-1) ?s3"
      using l1 l2 l3 dom a free(4) False by (intro thread_not_created[OF inv]) auto
    ultimately show ?thesis by blast
  next
    case True
    then have "create_thread os fd ip s = Inr (0, s\<lparr>env := w3, links := (links s)(a \<mapsto> linked_list s),
        items := (items s)(a \<mapsto> \<lparr>thread_id = tid, client_ip_string = ip\<rparr>), datas := (datas s)(p \<mapsto> d),
        linked_list := Some a\<rparr>)"
      using ai ad pc by (simp add: create_thread_def Let_def d_def[symmetric] SLIST_INSERT_HEAD_def)
    moreover have "client_fd d = fd" by (simp add: d_def)
    ultimately show ?thesis
      using thread_entered[OF inv free(1-3), of tid w3 d ip] l1 l2 l3 free(4) True by auto
  qed
qed

lemma create_thread_ok:
  assumes inv: "server_inv s xs"
  shows "\<exists>rv s'. create_thread os fd ip s = Inr (rv, s') \<and> thread_created s fd ip xs rv s'"
proof -
  have dom: "dom (links s) = dom (items s)" and it: "\<forall>x \<in> set xs. items s x \<noteq> None"
    using inv by (simp_all add: server_inv_def)
  obtain item w1 where ai: "os_alloc_item os (links s) (env s) = (item, w1)"
    by (cases "os_alloc_item os (links s) (env s)")
  note l1 = alloc_item_law[OF ai]
  obtain data w2 where ad: "os_alloc_data os (datas s) w1 = (data, w2)"
    by (cases "os_alloc_data os (datas s) w1")
  note l2 = alloc_data_law[OF ad]
  show ?thesis
  proof (cases item)
    case None
    then have "create_thread os fd ip s = Inr (-1, s\<lparr>env := w1\<rparr>)" using ai by (simp add: create_thread_def)
    moreover have "thread_created s fd ip xs (-1) (s\<lparr>env := w1\<rparr>)"
      using l1 dom by (intro thread_not_created[OF inv]) simp_all
    ultimately show ?thesis by blast
  next
    case item: (Some a)
    then have "a \<notin> dom (items s)" using l1 unfolding dom[symmetric] by (simp add: domIff)
    then have a: "a \<notin> set xs" using it by auto
    show ?thesis
    proof (cases data)
      case None
      let ?s1 = "s\<lparr>env := w2, links := (links s)(a \<mapsto> None),
         items := (items s)(a \<mapsto> \<lparr>thread_id = 0, client_ip_string = ip\<rparr>)\<rparr>"
      have "create_thread os fd ip s = Inr (-1, ?s1)" using None item ai ad by (simp add: create_thread_def)
      moreover have "thread_created s fd ip xs (-1) ?s1"
        using l1 l2 dom a by (intro thread_not_created[OF inv]) auto
      ultimately show ?thesis by blast
    next
      case (Some p)
      with create_thread_pthread[OF inv _ _ a] item ai ad show ?thesis by blast
    qed
  qed
qed

lemma accounted_created:
  assumes "accounted w0 s xs" "thread_created s fd ip xs rv s'"
  shows "\<exists>ys. server_inv s' ys \<and> accounted w0 s' ys"
proof -
  have eq: "tid_of s' ` set xs = tid_of s ` set xs" "map (fd_of s') xs = map (fd_of s) xs"
    using assms(2) by (auto simp: thread_created_def intro!: image_cong)
  from assms(2) consider "server_inv s' xs" "opened (env s') = opened (env s)" "arg (env s') = arg (env s)"
    | a where "server_inv s' (a # xs)" "fd_of s' a = fd" "opened (env s') = opened (env s) @ [fd]"
      "dom (arg (env s')) = insert (tid_of s' a) (dom (arg (env s)))"
    by (auto simp: thread_created_def)
  then show ?thesis
  proof cases
    case 1
    with assms eq show ?thesis
      by (intro exI[of _ xs]) (simp add: accounted_def thread_created_def del: mset_map map_eq_conv)
  next
    case (2 a)
    have "closed (env s') = closed (env s)" using assms(2) by (simp add: thread_created_def)
    with 2 assms(1) eq show ?thesis
      by (intro exI[of _ "a # xs"]) (auto simp: accounted_def simp del: mset_map map_eq_conv)
  qed
qed

section \<open>The main loop\<close>

text \<open>A change of the system's state that leaves the threads and the descriptors alone.\<close>

definition calm :: "'w \<Rightarrow> 'w \<Rightarrow> bool" where
  "calm w w' \<longleftrightarrow> arg w' = arg w \<and> closed w' = closed w \<and> opened w' = opened w"

lemma calm_refl: "calm w w"
  by (simp add: calm_def)

lemma calm_trans: "calm w w' \<Longrightarrow> calm w' w'' \<Longrightarrow> calm w w''"
  by (simp add: calm_def)

lemma calm_read:
  "calm w (snd (os_caught_signal os w))" "calm w (snd (os_clock os w))" "calm w (snd (os_eintr os w))"
  "calm w (snd (os_client_ip os w))" "calm w (snd (os_strftime os w))"
  by (simp_all add: calm_def read_laws)

lemma calm_time_stamp: "calm w (snd (write_time_stamp cfg os w))"
  by (simp add: calm_def write_time_stamp_def get_file_mutex_def release_file_mutex_def
      open_file_for_read_write_def write_to_file_def close_and_release_def Let_def split_beta
      read_laws file_laws)

text \<open>The list and the accounts together.\<close>

definition kept :: "'w \<Rightarrow> 'w server \<Rightarrow> addr list \<Rightarrow> bool" where
  "kept w0 s xs \<longleftrightarrow> server_inv s xs \<and> accounted w0 s xs"

lemma calm_kept:
  assumes "calm (env s) w" "kept w0 s xs"
  shows "kept w0 (s\<lparr>env := w\<rparr>) xs"
proof -
  have w: "arg w = arg (env s)" "closed w = closed (env s)" "opened w = opened (env s)"
    using assms(1) by (simp_all add: calm_def)
  have i: "server_inv s xs" "accounted w0 s xs" using assms(2) by (simp_all add: kept_def)
  have "dom (links s) = dom (items s)" using i(1) by (simp add: server_inv_def)
  then have "server_inv (s\<lparr>env := w\<rparr>) xs" using w(1) by (intro server_inv_frame(1)[OF i(1)]) simp_all
  moreover have "fd_of (s\<lparr>env := w\<rparr>) = fd_of s"
    by (rule ext) (simp add: fd_of_def data_of_env[OF w(1)])
  ultimately show ?thesis using i(2) w by (simp add: kept_def accounted_def)
qed

lemma server_inv_vars:
  "server_inv (s\<lparr>current_state := q\<rparr>) xs = server_inv s xs"
  "server_inv (s\<lparr>keep_looping := b\<rparr>) xs = server_inv s xs"
  by (simp_all add: server_inv_def tid_of_def data_of_def fun_eq_iff cong: inj_on_cong)

lemma accounted_vars:
  "accounted w0 (s\<lparr>current_state := q\<rparr>) xs = accounted w0 s xs"
  "accounted w0 (s\<lparr>keep_looping := b\<rparr>) xs = accounted w0 s xs"
proof -
  let ?q = "s\<lparr>current_state := q\<rparr>" and ?b = "s\<lparr>keep_looping := b\<rparr>"
  have "tid_of ?q = tid_of s" "fd_of ?q = fd_of s" "tid_of ?b = tid_of s" "fd_of ?b = fd_of s"
    by (simp_all add: fun_eq_iff tid_of_def data_of_def fd_of_def)
  then show "accounted w0 ?q xs = accounted w0 s xs" "accounted w0 ?b xs = accounted w0 s xs"
    by (simp_all add: accounted_def)
qed

lemma kept_vars:
  "kept w0 (s\<lparr>current_state := q\<rparr>) xs = kept w0 s xs" "kept w0 (s\<lparr>keep_looping := b\<rparr>) xs = kept w0 s xs"
  by (simp_all only: kept_def server_inv_vars accounted_vars)

lemma join_threads_kept:
  assumes "kept w0 s xs"
  shows "\<exists>s' gone. join_threads os s = Some (Inr s') \<and> joined_all s gone s' \<and>
    kept w0 s' (filter (\<lambda>x. x \<notin> set gone) xs)"
  using join_threads_ok[of s xs] accounted_joined[of s xs w0] assms unfolding kept_def by blast

lemma create_thread_kept:
  assumes "kept w0 s xs"
  shows "\<exists>rv s' ys. create_thread os fd ip s = Inr (rv, s') \<and> kept w0 s' ys \<and>
    current_state s' = current_state s \<and> keep_looping s' = keep_looping s"
proof -
  obtain rv s' where c: "create_thread os fd ip s = Inr (rv, s')" "thread_created s fd ip xs rv s'"
    using create_thread_ok[of s xs fd ip] assms by (auto simp: kept_def)
  with accounted_created[OF _ c(2), of w0] assms show ?thesis
    unfolding kept_def thread_created_def by blast
qed

text \<open>Between passes the loop is waiting for a client or about to create its thread.\<close>

definition loop_inv :: "'w \<Rightarrow> 'w server \<Rightarrow> addr list \<Rightarrow> bool" where
  "loop_inv w0 s xs \<longleftrightarrow> kept w0 s xs \<and> current_state s \<in> {Waiting, CreatingThread} \<and>
     (\<not> keep_looping s \<longrightarrow> xs = [])"

lemma note_signal_ok: "\<exists>v' w. note_signal os v s = (v', s\<lparr>env := w\<rparr>) \<and> calm (env s) w"
proof -
  obtain b w1 where b: "os_caught_signal os (env s) = (b, w1)" by (cases "os_caught_signal os (env s)")
  obtain b' w2 where b': "os_caught_signal os w1 = (b', w2)" by (cases "os_caught_signal os w1")
  have "calm (env s) w1" "calm w1 w2" using calm_read(1)[of "env s"] calm_read(1)[of w1] b b' by simp_all
  then show ?thesis using b b' by (auto simp: note_signal_def intro: calm_trans)
qed

lemma tick_ok: "\<exists>v' w. tick cfg os v s = (v', s\<lparr>env := w\<rparr>) \<and> calm (env s) w"
proof -
  obtain n w1 where n: "os_clock os (env s) = (n, w1)" by (cases "os_clock os (env s)")
  have "calm (env s) w1" "calm w1 (snd (write_time_stamp cfg os w1))"
    using calm_read(2)[of "env s"] n calm_time_stamp by simp_all
  then show ?thesis using n by (auto simp: tick_def intro: calm_trans)
qed

lemma check_for_client_connection_ok:
  "\<exists>rv fd ip' w q. check_for_client_connection os ip s = (rv, fd, ip', s\<lparr>env := w, current_state := q\<rparr>) \<and>
     calm (env s) w \<and> q \<in> {current_state s, CreatingThread}"
proof -
  obtain fd w1 where a: "os_call os (Accept (socket_fd s)) (env s) = (fd, w1)"
    by (cases "os_call os (Accept (socket_fd s)) (env s)")
  have c1: "calm (env s) w1" using other_call_law[of "Accept (socket_fd s)" "env s"] a by (simp add: calm_def)
  obtain e w2 where e: "os_eintr os w1 = (e, w2)" by (cases "os_eintr os w1")
  obtain b w3 where b: "os_caught_signal os w2 = (b, w3)" by (cases "os_caught_signal os w2")
  obtain i w4 where i: "os_client_ip os w1 = (i, w4)" by (cases "os_client_ip os w1")
  have c: "calm w1 w2" "calm w2 w3" "calm w1 w4"
    using calm_read(3)[of w1] calm_read(1)[of w2] calm_read(4)[of w1] e b i by simp_all
  show ?thesis
  proof (cases "fd = -1")
    case True
    let ?w = "if e then w3 else w2" and ?rv = "if e \<and> b then 0 else -1"
    have "check_for_client_connection os ip s = (?rv, fd, ip, s\<lparr>env := ?w, current_state := current_state s\<rparr>)"
      using True a e b by (simp add: check_for_client_connection_def do_call_def)
    moreover have "calm (env s) ?w" using c(1,2) c1 by (auto intro: calm_trans)
    ultimately show ?thesis by blast
  next
    case False
    then show ?thesis
      using a i c c1 by (auto simp: check_for_client_connection_def do_call_def intro: calm_trans)
  qed
qed

lemma waiting_pass_ok:
  assumes "kept w0 s xs" "current_state s = Waiting" "keep_looping s"
  shows "\<exists>v' s' xs'. waiting_pass os v s = Some (Inr (v', s')) \<and> loop_inv w0 s' xs'"
proof -
  obtain s1 gone where j: "join_threads os s = Some (Inr s1)" "joined_all s gone s1"
    "kept w0 s1 (filter (\<lambda>x. x \<notin> set gone) xs)" using join_threads_kept[OF assms(1)] by blast
  let ?ys = "filter (\<lambda>x. x \<notin> set gone) xs"
  have s1: "current_state s1 = Waiting" "keep_looping s1" using j(2) assms(2,3) by (simp_all add: joined_all_def)
  define s2 where "s2 = (if all_threads_closed s1
      then let (caught, w1) = os_caught_signal os (env s1)
           in s1\<lparr>env := w1, keep_looping := keep_looping s1 \<and> \<not> caught\<rparr>
      else s1)"
  have s2: "kept w0 s2 ?ys \<and> current_state s2 = Waiting \<and> (\<not> keep_looping s2 \<longrightarrow> ?ys = [])"
  proof (cases "all_threads_closed s1")
    case False
    then show ?thesis using j(3) s1 by (simp add: s2_def)
  next
    case True
    obtain b w1 where b: "os_caught_signal os (env s1) = (b, w1)" by (cases "os_caught_signal os (env s1)")
    have "calm (env s1) w1" using calm_read(1)[of "env s1"] b by simp
    from calm_kept[OF this j(3)] have "kept w0 (s1\<lparr>env := w1\<rparr>) ?ys" .
    then have "kept w0 (s1\<lparr>env := w1, keep_looping := keep_looping s1 \<and> \<not> b\<rparr>) ?ys" by (simp only: kept_vars)
    moreover have "linked_list s1 = None" using True
      by (simp add: all_threads_closed_def SLIST_EMPTY_def split: if_splits)
    then have "?ys = []" using j(3) by (simp add: kept_def server_inv_def)
    ultimately show ?thesis using True b s1 by (simp add: s2_def)
  qed
  obtain b w2 where b: "os_caught_signal os (env s2) = (b, w2)" by (cases "os_caught_signal os (env s2)")
  have "calm (env s2) w2" using calm_read(1)[of "env s2"] b by simp
  then have s3: "kept w0 (s2\<lparr>env := w2\<rparr>) ?ys" using calm_kept s2 by blast
  have run: "waiting_pass os v s = Some (Inr
      (if \<not> b then let (rv, fd, ip, s4) = check_for_client_connection os (lv_ip_string v) (s2\<lparr>env := w2\<rparr>)
                   in (v\<lparr>lv_client_fd := fd, lv_ip_string := ip\<rparr>, s4)
       else (v, s2\<lparr>env := w2\<rparr>)))"
    using j(1) b by (simp add: waiting_pass_def s2_def[symmetric] Let_def split_beta)
  define s3 where "s3 = s2\<lparr>env := w2\<rparr>"
  have i3: "kept w0 s3 ?ys" "current_state s3 = Waiting" "\<not> keep_looping s3 \<longrightarrow> ?ys = []"
    using s3 s2 by (simp_all add: s3_def)
  obtain rv fd ip w4 q where ck:
    "check_for_client_connection os (lv_ip_string v) s3 = (rv, fd, ip, s3\<lparr>env := w4, current_state := q\<rparr>)"
    "calm (env s3) w4" "q \<in> {current_state s3, CreatingThread}"
    using check_for_client_connection_ok by blast
  have "kept w0 (s3\<lparr>env := w4\<rparr>) ?ys" using ck(2) i3(1) by (rule calm_kept)
  then have "kept w0 (s3\<lparr>env := w4, current_state := q\<rparr>) ?ys" by (simp only: kept_vars)
  then have "loop_inv w0 (s3\<lparr>env := w4, current_state := q\<rparr>) ?ys"
    using ck(3) i3(2,3) by (simp add: loop_inv_def)
  moreover have "loop_inv w0 s3 ?ys" using i3 by (simp add: loop_inv_def)
  ultimately show ?thesis using run ck(1) by (cases b) (auto simp: s3_def)
qed

lemma main_loop_pass_ok:
  assumes "loop_inv w0 s xs" "keep_looping s"
  shows "\<exists>v' s' xs'. main_loop_pass cfg os v s = Some (Inr (v', s')) \<and> loop_inv w0 s' xs'"
proof -
  obtain v1 w1 where n: "note_signal os v s = (v1, s\<lparr>env := w1\<rparr>)" "calm (env s) w1"
    using note_signal_ok by blast
  obtain v2 w2 where t: "tick cfg os v1 (s\<lparr>env := w1\<rparr>) = (v2, s\<lparr>env := w2\<rparr>)" "calm w1 w2"
    using tick_ok[of cfg v1 "s\<lparr>env := w1\<rparr>"] by auto
  let ?s = "s\<lparr>env := w2\<rparr>"
  have inv: "kept w0 ?s xs"
    using calm_kept[OF calm_trans[OF n(2) t(2)]] assms(1) by (simp add: loop_inv_def)
  show ?thesis
  proof (cases "current_state s = Waiting")
    case True
    then show ?thesis
      using waiting_pass_ok[OF inv, of v2] n t assms(2) by (auto simp: main_loop_pass_def)
  next
    case False
    then have "current_state s = CreatingThread" using assms(1) by (auto simp: loop_inv_def)
    moreover obtain rv s' ys where
      "create_thread os (lv_client_fd v2) (lv_ip_string v2) ?s = Inr (rv, s')" "kept w0 s' ys" "keep_looping s'"
      using create_thread_kept[OF inv] assms(2) by fastforce
    moreover from this have "loop_inv w0 (s'\<lparr>current_state := Waiting\<rparr>) ys" by (simp add: loop_inv_def kept_vars)
    ultimately show ?thesis using n t by (auto simp: main_loop_pass_def)
  qed
qed

text \<open>When the loop ends it ends without a fault and with every thread joined.\<close>

lemma main_loop_from_exit:
  assumes "main_loop_from cfg os v s = Some r" "loop_inv w0 s xs"
  shows "\<exists>s'. r = Inr s' \<and> kept w0 s' []"
proof -
  let ?P = "\<lambda>cfg os' v s r. os' = os \<longrightarrow> (\<forall>xs. loop_inv w0 s xs \<longrightarrow> (\<exists>s'. r = Inr s' \<and> kept w0 s' []))"
  have "?P cfg os v s r"
  proof (rule main_loop_from.raw_induct[where P = ?P, OF _ assms(1)], intro impI allI)
    fix f cfg os' v s r xs
    assume IH: "\<And>cfg os' v s r. f cfg os' v s = Some r \<Longrightarrow> ?P cfg os' v s r"
      and step: "(if keep_looping s
        then Option.bind (main_loop_pass cfg os' v s)
               (\<lambda>r. case r of Inl f \<Rightarrow> Some (Inl f) | Inr (v1, s1) \<Rightarrow> f cfg os' v1 s1)
        else Some (Inr s)) = Some r"
      and "os' = os" and inv: "loop_inv w0 s xs"
    show "\<exists>s'. r = Inr s' \<and> kept w0 s' []"
    proof (cases "keep_looping s")
      case False
      then show ?thesis using step inv by (auto simp: loop_inv_def)
    next
      case True
      from main_loop_pass_ok[OF inv True] obtain v' s' ys where
        "main_loop_pass cfg os v s = Some (Inr (v', s'))" "loop_inv w0 s' ys" by blast
      then show ?thesis using True step IH[of cfg os' v' s' r] \<open>os' = os\<close> by auto
    qed
  qed
  then show ?thesis using assms(2) by blast
qed

text \<open>The loop starts with the accounts of the world it finds.\<close>

lemma loop_start:
  assumes "server_inv s []" "keep_looping s" "os_clock os (env s) = (n, w1)"
  shows "loop_inv (env s) (s\<lparr>current_state := Waiting, env := w1\<rparr>) []"
proof -
  have "kept (env s) s []" using assms(1) by (simp add: kept_def accounted_def)
  then have "kept (env s) (s\<lparr>current_state := Waiting\<rparr>) []" by (simp only: kept_vars)
  then have "kept (env s) (s\<lparr>current_state := Waiting, env := w1\<rparr>) []"
    using calm_read(2)[of "env s"] assms(3) calm_kept[of "s\<lparr>current_state := Waiting\<rparr>" w1] by simp
  then show ?thesis using assms(2) by (simp add: loop_inv_def)
qed

lemma main_loop_exit:
  assumes "main_loop cfg os s = Some r" "server_inv s []" "keep_looping s"
  shows "\<exists>s'. r = Inr (0, s') \<and> kept (env s) s' []"
proof -
  obtain n w1 where n: "os_clock os (env s) = (n, w1)" by (cases "os_clock os (env s)")
  note inv = loop_start[OF assms(2,3) n]
  obtain v r1 where r1: "main_loop_from cfg os v (s\<lparr>current_state := Waiting, env := w1\<rparr>) = Some r1"
    "r = bindE r1 (\<lambda>s2. Inr (0, s2))"
    using assms(1) n by (auto simp: main_loop_def Let_def bind_eq_Some_conv)
  from main_loop_from_exit[OF r1(1) inv] r1(2) show ?thesis by auto
qed

end

text \<open>
  A system on which, in some states of it, every thread that was created and not joined has ended,
  so that a poll finds it; joining threads and closing descriptors does not lead out of these
  states.
\<close>

locale prompt_threads = thread_env os arg closed opened
  for os :: "'w os" and arg :: "'w \<Rightarrow> int \<Rightarrow> addr option" and closed :: "'w \<Rightarrow> int list"
    and opened :: "'w \<Rightarrow> int list" +
  fixes over :: "'w \<Rightarrow> bool"
  assumes prompt_law: "over w \<Longrightarrow> arg w tid = Some p \<Longrightarrow> fst (fst (os_tryjoin os tid w)) = 0"
    and over_laws: "over w \<Longrightarrow> over (snd (os_tryjoin os tid w))"
      "over w \<Longrightarrow> over (snd (os_call os (Close fd) w))"
begin

lemma join_body_prompt:
  assumes inv: "server_inv s xs" and a: "a \<in> set xs" and over: "over (env s)"
  shows "\<not> not_joined s (join_effect s a) \<and> over (env (join_effect s a))"
proof -
  obtain item p d where i: "items s a = Some item" "arg (env s) (thread_id item) = Some p" "datas s p = Some d"
    "tid_of s a = thread_id item" "data_of s a = p" "fd_of s a = client_fd d"
    using inv a by (rule server_invD)
  obtain ret w1 where tj: "os_tryjoin os (thread_id item) (env s) = ((0, ret), w1)"
    using prompt_law[OF over i(2)] by (metis prod.collapse)
  have w1: "ret = Some p" using tryjoin_law[OF i(2) tj] by simp
  have o: "over (snd (os_call os (Close (client_fd d)) w1))" using over_laws(1)[OF over, of "thread_id item"] tj
    by (simp add: over_laws(2))
  obtain bef aft where "xs = bef @ a # aft" using a by (meson split_list)
  with inv join_effect_cases(1)[of s bef a aft] have run: "join_body os s a = Some (Inr (join_effect s a))"
    by simp
  obtain s' where e: "join_effect s a = s'" by blast
  have "items (join_effect s a) a = None" "over (env (join_effect s a))"
    using run[unfolded e] i(1,3) tj w1 o unfolding e
    by (auto simp: join_body_def do_call_def Let_def split_beta bind_eq_Some_conv bindE_eq_Inr)
  then show ?thesis using i(1) by (auto simp: not_joined_def)
qed

lemma join_fold_prompt:
  "server_inv s as \<Longrightarrow> over (env s) \<Longrightarrow>
   joined_all s as (foldl join_effect s as) \<and> server_inv (foldl join_effect s as) [] \<and>
   over (env (foldl join_effect s as))"
proof (induction as arbitrary: s)
  case Nil
  then show ?case by (simp add: joined_all_def restrict_map_def)
next
  case (Cons a as)
  have "slist (links s) (linked_list s) (a # as)" using Cons.prems by (simp add: server_inv_def)
  from slist_distinct[OF this] have a: "a \<notin> set as" by simp
  have "\<not> not_joined s (join_effect s a)" and o: "over (env (join_effect s a))"
    using join_body_prompt[OF Cons.prems(1) _ Cons.prems(2), of a] by simp_all
  with join_effect_cases(2)[of s "[]" a as] Cons.prems(1)
  have j: "joined s a (join_effect s a)" "server_inv (join_effect s a) as" by simp_all
  from Cons.IH[OF j(2) o] have ih: "joined_all (join_effect s a) as (foldl join_effect (join_effect s a) as)"
    "server_inv (foldl join_effect (join_effect s a) as) []"
    "over (env (foldl join_effect (join_effect s a) as))" by blast+
  have "joined_all s (a # as) (foldl join_effect (join_effect s a) as)"
    using a by (intro joined_all_Cons[OF Cons.prems(1) _ j(1) ih(1)]) auto
  with ih(2,3) show ?case by simp
qed

lemma join_threads_prompt:
  assumes "server_inv s xs" "over (env s)"
  shows "\<exists>s'. join_threads os s = Some (Inr s') \<and> joined_all s xs s' \<and> server_inv s' [] \<and> over (env s')"
proof -
  have sl: "slist (links s) (linked_list s) xs" using assms(1) by (simp add: server_inv_def)
  have "join_todo xs s" using assms(1) unfolding join_todo_def by (metis append_Nil)
  from join.foreach_visits[OF this] slist_first[OF sl] join_fold_prompt[OF assms]
  show ?thesis by (simp add: join_threads_def)
qed

end

end
