(* ===== verification/Server_System.thy ===== *)
theory Server_System
  imports Plain_File Socket_Joins
begin

text \<open>
  A concrete system for the whole server: clients that wait to connect, a thread library that
  runs the model of \<open>main_loop_thread\<close> on the shared file, and the allocator. It satisfies the laws
  of \<open>thread_env\<close>. A thread runs to its end as soon as it is created; that it has ended may be
  noticed late (\<open>pthread_tryjoin_np\<close> answers \<open>EBUSY\<close> as often as the system likes), or at the
  first poll.
\<close>

section \<open>Clients, threads and calls\<close>

record client =
  cl_ip :: "byte list"
  cl_bytes :: "byte list"
  cl_chunks :: "nat list"

text \<open>
  \<open>sm_busy\<close> holds the answers of the polls to come, \<open>sm_fail\<close> the fate of the next allocations and
  thread creations, \<open>sm_clock\<close> the next readings of the clock. \<open>SIGTERM\<close> is caught when the last
  client has connected.
\<close>

record sim =
  sm_clients :: "client list"
  sm_current :: client
  sm_next_fd :: int
  sm_next_tid :: int
  sm_threads :: "int \<rightharpoonup> addr"
  sm_closed :: "int list"
  sm_replies :: "(int \<times> byte list) list"
  sm_file :: plain
  sm_busy :: "bool list"
  sm_fail :: "bool list"
  sm_clock :: "int list"

definition sim_call :: "syscall \<Rightarrow> sim \<Rightarrow> int \<times> sim" where
  "sim_call c w =
     (case c of
        Accept fd \<Rightarrow>
          (case sm_clients w of
             [] \<Rightarrow> (-1, w)
           | cl # cls \<Rightarrow>
               (sm_next_fd w, w\<lparr>sm_clients := cls, sm_current := cl, sm_next_fd := sm_next_fd w + 1\<rparr>))
      | Close fd \<Rightarrow> (0, w\<lparr>sm_closed := sm_closed w @ [fd]\<rparr>)
      | Unlink \<Rightarrow> (0, w\<lparr>sm_file := (sm_file w)\<lparr>pl_file := []\<rparr>\<rparr>)
      | Socket \<Rightarrow> (3, w)
      | _ \<Rightarrow> (0, w))"

definition next_fail :: "sim \<Rightarrow> bool \<times> sim" where
  "next_fail w = (case sm_fail w of [] \<Rightarrow> (False, w) | b # bs \<Rightarrow> (b, w\<lparr>sm_fail := bs\<rparr>))"

definition sim_alloc :: "(addr \<rightharpoonup> 'b) \<Rightarrow> sim \<Rightarrow> addr option \<times> sim" where
  "sim_alloc m w = (let (b, w1) = next_fail w in (if b then None else first_free m 0, w1))"

text \<open>The file as a thread finds it, with the thread's client at the other end.\<close>

definition thread_world :: "client \<Rightarrow> plain \<Rightarrow> plain" where
  "thread_world cl f = f\<lparr>cs_inbox := cl_bytes cl, cs_outbox := [], cs_chunks := cl_chunks cl\<rparr>"

definition plain_build :: build where
  "plain_build = \<lparr>use_aesd_char_device = False\<rparr>"

definition sim_create :: "addr \<Rightarrow> ThreadData \<Rightarrow> sim \<Rightarrow> (int \<times> int) \<times> sim" where
  "sim_create p d w =
     (let (b, w1) = next_fail w; tid = sm_next_tid w1
      in if b \<or> sm_threads w1 tid \<noteq> None then ((11, 0), w1)
         else
           (case main_loop_thread plain_build plain_sys d Map.empty (thread_world (sm_current w1) (sm_file w1)) of
              Some (Inr t) \<Rightarrow>
                ((0, tid),
                 w1\<lparr>sm_next_tid := tid + 1, sm_threads := (sm_threads w1)(tid \<mapsto> p), sm_file := world t,
                    sm_replies := sm_replies w1 @ [(client_fd d, cs_outbox (world t))]\<rparr>)
            | _ \<Rightarrow> ((11, 0), w1)))"

definition sim_tryjoin :: "bool \<Rightarrow> int \<Rightarrow> sim \<Rightarrow> (int \<times> ptr) \<times> sim" where
  "sim_tryjoin late tid w =
     (case sm_threads w tid of
        None \<Rightarrow> ((3, None), w)
      | Some p \<Rightarrow>
          if late \<and> sm_busy w \<noteq> [] \<and> hd (sm_busy w) then ((16, None), w\<lparr>sm_busy := tl (sm_busy w)\<rparr>)
          else ((0, Some p), w\<lparr>sm_threads := (sm_threads w)(tid := None), sm_busy := tl (sm_busy w)\<rparr>))"

definition on_file :: "('a \<Rightarrow> plain \<Rightarrow> 'r \<times> plain) \<Rightarrow> 'a \<Rightarrow> sim \<Rightarrow> 'r \<times> sim" where
  "on_file f x w = (let (r, p) = f x (sm_file w) in (r, w\<lparr>sm_file := p\<rparr>))"

definition sim_file :: "sim sys" where
  "sim_file =
     \<lparr>sys_recv = (\<lambda>fd. on_file (sys_recv plain_sys fd)), sys_send = (\<lambda>fd. on_file (sys_send plain_sys fd)),
      sys_open = on_file (\<lambda>_. sys_open plain_sys) (), sys_write = (\<lambda>fd. on_file (sys_write plain_sys fd)),
      sys_lseek = (\<lambda>fd w. w\<lparr>sm_file := sys_lseek plain_sys fd (sm_file w)\<rparr>),
      sys_read = (\<lambda>fd. on_file (sys_read plain_sys fd)), sys_close = on_file (sys_close plain_sys),
      sys_lock = on_file (\<lambda>_. sys_lock plain_sys) (), sys_unlock = on_file (\<lambda>_. sys_unlock plain_sys) (),
      sys_alloc = (\<lambda>h. on_file (sys_alloc plain_sys h)),
      sys_alloc_struct = on_file (\<lambda>_. sys_alloc_struct plain_sys) (),
      sys_signal = on_file (\<lambda>_. sys_signal plain_sys) ()\<rparr>"

text \<open>The time stamp's text is \<open>t\<close> and a newline.\<close>

definition sim_os :: "bool \<Rightarrow> sim os" where
  "sim_os late =
     \<lparr>os_call = sim_call, os_caught_signal = (\<lambda>w. (sm_clients w = [], w)),
      os_clock = (\<lambda>w. case sm_clock w of [] \<Rightarrow> (0, w) | t # ts \<Rightarrow> (t, w\<lparr>sm_clock := ts\<rparr>)),
      os_eintr = (\<lambda>w. (False, w)), os_client_ip = (\<lambda>w. (cl_ip (sm_current w), w)),
      os_strftime = (\<lambda>w. ([116, newline], w)), os_alloc_item = sim_alloc, os_alloc_data = sim_alloc,
      os_pthread_create = sim_create, os_tryjoin = sim_tryjoin late, os_file = sim_file\<rparr>"

section \<open>The laws\<close>

lemma next_fail_same:
  assumes "next_fail w = (b, w')"
  shows "sm_threads w' = sm_threads w" "sm_closed w' = sm_closed w" "sm_file w' = sm_file w"
    "sm_current w' = sm_current w" "sm_next_tid w' = sm_next_tid w" "sm_replies w' = sm_replies w"
    "sm_clients w' = sm_clients w" "sm_next_fd w' = sm_next_fd w" "sm_clock w' = sm_clock w"
    "sm_fail w = [] \<Longrightarrow> \<not> b \<and> sm_fail w' = []"
  using assms by (auto simp: next_fail_def split: list.splits)

lemma sim_alloc_fresh:
  assumes "sim_alloc m w = (ans, w')"
  shows "sm_threads w' = sm_threads w \<and> sm_closed w' = sm_closed w \<and> sm_replies w' = sm_replies w \<and> (\<forall>a. ans = Some a \<longrightarrow> m a = None)"
proof -
  obtain b w1 where n: "next_fail w = (b, w1)" by (cases "next_fail w")
  have f: "first_free m 0 = Some a \<Longrightarrow> m a = None" for a by (rule first_free_Some)
  show ?thesis
    using next_fail_same(1,2,6)[OF n] n assms f by (cases b) (auto simp: sim_alloc_def)
qed

lemma sim_create_cases:
  assumes "sim_create p d w = ((rv, tid), w')"
  shows "sm_closed w' = sm_closed w \<and>
    (if rv = 0 then sm_threads w tid = None \<and> sm_threads w' = (sm_threads w)(tid \<mapsto> p) \<and>
       map fst (sm_replies w') = map fst (sm_replies w) @ [client_fd d]
     else sm_threads w' = sm_threads w \<and> sm_replies w' = sm_replies w)"
proof -
  obtain b w1 where n: "next_fail w = (b, w1)" by (cases "next_fail w")
  show ?thesis
    using next_fail_same(1,2,6)[OF n] n assms
    by (auto simp: sim_create_def Let_def split: if_splits option.splits sum.splits)
qed

lemma sim_tryjoin_cases:
  assumes "sm_threads w tid = Some p" "sim_tryjoin late tid w = ((rv, ret), w')"
  shows "sm_closed w' = sm_closed w \<and> sm_replies w' = sm_replies w \<and>
      (if rv = 0 then ret = Some p \<and> sm_threads w' = (sm_threads w)(tid := None)
       else sm_threads w' = sm_threads w)"
  using assms by (auto simp: sim_tryjoin_def split: if_splits)

lemma on_file_same:
  "sm_threads (snd (on_file f x w)) = sm_threads w" "sm_closed (snd (on_file f x w)) = sm_closed w"
  "sm_replies (snd (on_file f x w)) = sm_replies w"
  by (simp_all add: on_file_def split_beta)

text \<open>The descriptors of the clients that got a thread are those of the replies.\<close>

definition sm_opened :: "sim \<Rightarrow> int list" where
  "sm_opened w = map fst (sm_replies w)"

lemma sim_thread_env: "thread_env (sim_os late) sm_threads sm_closed sm_opened"
proof (unfold_locales, goal_cases)
  case (1 w tid p rv ret w')
  then show ?case using sim_tryjoin_cases[of w tid p late rv ret w'] by (simp add: sim_os_def sm_opened_def)
next
  case (2 p d w rv tid w')
  then show ?case using sim_create_cases[of p d w rv tid w'] by (simp add: sim_os_def sm_opened_def)
next
  case (3 fd w r w')
  then show ?case by (auto simp: sim_os_def sim_call_def sm_opened_def)
next
  case (4 m w ans w')
  then show ?case using sim_alloc_fresh[of m w ans w'] by (simp add: sim_os_def sm_opened_def)
next
  case (5 ds w ans w')
  then show ?case using sim_alloc_fresh[of ds w ans w'] by (simp add: sim_os_def sm_opened_def)
next
  case (6 c w)
  then show ?case by (cases c) (auto simp: sim_os_def sim_call_def sm_opened_def split: list.splits)
qed (simp_all add: sim_os_def sim_file_def on_file_same sm_opened_def split: list.splits)

interpretation late: thread_env "sim_os True" sm_threads sm_closed sm_opened
  by (rule sim_thread_env)

interpretation prompt: prompt_threads "sim_os False" sm_threads sm_closed sm_opened "\<lambda>_. True"
  by (rule prompt_threads.intro[OF sim_thread_env])
    (unfold_locales, auto simp: sim_os_def sim_tryjoin_def)

section \<open>A run of the whole server\<close>

text \<open>
  What the server sends to each client of a list, when the file holds \<open>f\<close> at first and the next
  descriptor is \<open>n\<close>.
\<close>

definition file_replies :: "byte list \<Rightarrow> byte list list \<Rightarrow> byte list" where
  "file_replies f ps = replies (@) (\<lambda>s. s) f ps"

primrec served :: "byte list \<Rightarrow> int \<Rightarrow> client list \<Rightarrow> (int \<times> byte list) list" where
  "served f n [] = []"
| "served f n (cl # cls) =
     (let ps = packets [] (cl_bytes cl) in (n, file_replies f ps) # served (f @ concat ps) (n + 1) cls)"

definition collected :: "client list \<Rightarrow> byte list" where
  "collected cls = concat (map (\<lambda>cl. concat (packets [] (cl_bytes cl))) cls)"

text \<open>Nothing will fail, no thread is running, and no time stamp is due.\<close>

definition calm_sim :: "sim \<Rightarrow> bool" where
  "calm_sim w \<longleftrightarrow> sm_fail w = [] \<and> sm_clock w = [] \<and> no_faults (sm_file w) \<and> \<not> cs_locked (sm_file w) \<and>
     sm_threads w = Map.empty \<and> (\<forall>cl \<in> set (sm_clients w). length (cl_bytes cl) < 2 ^ 31)"

definition idle :: "State \<Rightarrow> 'w server \<Rightarrow> bool" where
  "idle q s \<longleftrightarrow> linked_list s = None \<and> links s = Map.empty \<and> items s = Map.empty \<and> datas s = Map.empty \<and>
     current_state s = q"

lemma foldl_append_concat: "foldl (@) f ps = f @ concat ps"
  by (induction ps arbitrary: f) simp_all

text \<open>The creation of a thread in an idle server: the thread serves its client at once.\<close>

lemma thread_serves:
  assumes "no_faults f" "\<not> cs_locked f" "length (cl_bytes cl) < 2 ^ 31" "thread_state d = WaitingForData"
  shows "\<exists>t. main_loop_thread plain_build plain_sys d Map.empty (thread_world cl f) = Some (Inr t) \<and>
    no_faults (world t) \<and> \<not> cs_locked (world t) \<and>
    pl_file (world t) = pl_file f @ concat (packets [] (cl_bytes cl)) \<and>
    cs_outbox (world t) = file_replies (pl_file f) (packets [] (cl_bytes cl))"
proof -
  let ?w = "thread_world cl f"
  have w: "no_faults ?w" "\<not> cs_locked ?w" "length (cs_inbox ?w) < 2 ^ 31" "pl_file ?w = pl_file f"
    "cs_inbox ?w = cl_bytes cl" "cs_outbox ?w = []"
    using assms by (simp_all add: thread_world_def no_faults_def)
  have a: "fst (sys_alloc_struct plain_sys ?w)"
    "fst (sys_alloc_struct plain_sys (snd (sys_alloc_struct plain_sys ?w)))"
    using cs_simple_cases(5)[OF surjective_pairing, of ?w True False] w(1)
      cs_simple_cases(5)[OF surjective_pairing, of "snd (cs_simple True False ?w)" True False]
    by (simp_all add: plain_sys_def)
  have "finite (dom (Map.empty :: memory))" by simp
  from plain.main_loop_thread_ok[OF _ w(2) assms(4) w(3) this, of plain_build] a w(1) show ?thesis
    unfolding w(4-6) by (auto simp: file_replies_def foldl_append_concat)
qed

lemma sim_alloc_0: "sm_fail w = [] \<Longrightarrow> m 0 = None \<Longrightarrow> sim_alloc m w = (Some 0, w)"
  by (simp add: sim_alloc_def next_fail_def first_free.simps)

lemma create_in_idle:
  assumes "idle CreatingThread s" "calm_sim (env s)" "length (cl_bytes (sm_current (env s))) < 2 ^ 31"
  defines "w \<equiv> env s" and "ps \<equiv> packets [] (cl_bytes (sm_current (env s)))"
  shows "\<exists>f. create_thread (sim_os False) fd ip s =
    Inr (0, s\<lparr>env := w\<lparr>sm_next_tid := sm_next_tid w + 1, sm_threads := [sm_next_tid w \<mapsto> 0], sm_file := f,
                        sm_replies := sm_replies w @ [(fd, file_replies (pl_file (sm_file w)) ps)]\<rparr>,
            linked_list := Some 0, links := [0 \<mapsto> None],
            items := [0 \<mapsto> \<lparr>thread_id = sm_next_tid w, client_ip_string = ip\<rparr>],
            datas := [0 \<mapsto> \<lparr>client_fd = fd, thread_state = WaitingForData, thread_complete_success = False\<rparr>]\<rparr>) \<and>
    no_faults f \<and> \<not> cs_locked f \<and> pl_file f = pl_file (sm_file w) @ concat ps"
proof -
  let ?d = "\<lparr>client_fd = fd, thread_state = WaitingForData, thread_complete_success = False\<rparr>"
  have c: "sm_fail w = []" "no_faults (sm_file w)" "\<not> cs_locked (sm_file w)" "sm_threads w = Map.empty"
    using assms(2) by (simp_all add: calm_sim_def w_def)
  obtain t where t: "main_loop_thread plain_build plain_sys ?d Map.empty (thread_world (sm_current w) (sm_file w)) =
      Some (Inr t)" "no_faults (world t)" "\<not> cs_locked (world t)" "pl_file (world t) = pl_file (sm_file w) @ concat ps"
    "cs_outbox (world t) = file_replies (pl_file (sm_file w)) ps"
    using thread_serves[OF c(2,3), of "sm_current w" ?d] assms(3) by (auto simp: w_def ps_def)
  have cr: "sim_create 0 ?d w = ((0, sm_next_tid w),
     w\<lparr>sm_next_tid := sm_next_tid w + 1, sm_threads := [sm_next_tid w \<mapsto> 0], sm_file := world t,
       sm_replies := sm_replies w @ [(fd, file_replies (pl_file (sm_file w)) ps)]\<rparr>)"
    using c t by (simp add: sim_create_def next_fail_def Let_def)
  have "create_thread (sim_os False) fd ip s =
    Inr (0, s\<lparr>env := w\<lparr>sm_next_tid := sm_next_tid w + 1, sm_threads := [sm_next_tid w \<mapsto> 0], sm_file := world t,
                        sm_replies := sm_replies w @ [(fd, file_replies (pl_file (sm_file w)) ps)]\<rparr>,
            linked_list := Some 0, links := [0 \<mapsto> None],
            items := [0 \<mapsto> \<lparr>thread_id = sm_next_tid w, client_ip_string = ip\<rparr>], datas := [0 \<mapsto> ?d]\<rparr>)"
    using assms(1) cr
    by (simp add: create_thread_def sim_os_def idle_def w_def[symmetric] SLIST_INSERT_HEAD_def Let_def
        sim_alloc_0[OF c(1)])
  with t show ?thesis by blast
qed

text \<open>A server with the one thread \<open>tid\<close>, which has ended, for the client at \<open>fd\<close>.\<close>

definition one_thread :: "int \<Rightarrow> int \<Rightarrow> sim server \<Rightarrow> bool" where
  "one_thread tid fd s \<longleftrightarrow> linked_list s = Some 0 \<and> links s = [0 \<mapsto> None] \<and>
     (\<exists>ip. items s = [0 \<mapsto> \<lparr>thread_id = tid, client_ip_string = ip\<rparr>]) \<and>
     (\<exists>d. datas s = [0 \<mapsto> d] \<and> client_fd d = fd) \<and> sm_threads (env s) = [tid \<mapsto> 0] \<and>
     current_state s = Waiting"

definition after_join :: "int \<Rightarrow> sim server \<Rightarrow> sim server" where
  "after_join fd s =
     s\<lparr>env := (env s)\<lparr>sm_threads := Map.empty, sm_busy := tl (sm_busy (env s)),
                     sm_closed := sm_closed (env s) @ [fd]\<rparr>,
       linked_list := None, links := Map.empty, items := Map.empty, datas := Map.empty\<rparr>"

lemma join_idle: "idle q s \<Longrightarrow> join_threads os s = Some (Inr s)"
  by (simp add: idle_def join_threads_def)

lemma join_one:
  assumes "one_thread tid fd s"
  shows "join_threads (sim_os False) s = Some (Inr (after_join fd s))" "idle Waiting (after_join fd s)"
proof -
  obtain ip d where s: "linked_list s = Some 0" "links s = [0 \<mapsto> None]"
    "items s = [0 \<mapsto> \<lparr>thread_id = tid, client_ip_string = ip\<rparr>]" "datas s = [0 \<mapsto> d]" "client_fd d = fd"
    "sm_threads (env s) = [tid \<mapsto> 0]" "current_state s = Waiting"
    using assms by (auto simp: one_thread_def)
  have tj: "sim_tryjoin False tid (env s) = ((0, Some 0),
      (env s)\<lparr>sm_threads := Map.empty, sm_busy := tl (sm_busy (env s))\<rparr>)"
    using s(6) by (simp add: sim_tryjoin_def)
  have "SLIST_REMOVE [0 \<mapsto> None] (Some 0) (Some 0) = Some (Inr (None, [0 \<mapsto> None]))"
    by (simp add: SLIST_REMOVE_def SLIST_REMOVE_HEAD_def)
  then have "join_body (sim_os False) s 0 = Some (Inr (after_join fd s))"
    using s tj by (simp add: join_body_def sim_os_def sim_call_def do_call_def after_join_def)
  then show "join_threads (sim_os False) s = Some (Inr (after_join fd s))"
    using s(1,2) by (simp add: join_threads_def foreach_safe_Cons)
  show "idle Waiting (after_join fd s)" using s(7) by (simp add: idle_def after_join_def)
qed

lemma note_signal_sim:
  "note_signal (sim_os b) v s =
     (v\<lparr>caught_signal_prev := caught_signal_prev v \<or> sm_clients (env s) = []\<rparr>, s)"
  by (cases v) (auto simp: note_signal_def sim_os_def)

lemma tick_sim: "sm_clock (env s) = [] \<Longrightarrow> 0 < next_timestamp v \<Longrightarrow> tick cfg (sim_os b) v s = (v, s)"
  by (simp add: tick_def sim_os_def)

text \<open>The loop with an ended thread goes on as the loop after the thread was joined.\<close>

lemma loop_one_thread:
  assumes "one_thread tid fd s" "keep_looping s" "sm_clock (env s) = []" "0 < next_timestamp v"
  shows "main_loop_from plain_build (sim_os False) v s = main_loop_from plain_build (sim_os False) v (after_join fd s)"
proof -
  let ?t = "after_join fd s"
  have e: "sm_clients (env ?t) = sm_clients (env s)" "sm_clock (env ?t) = []" "keep_looping ?t"
    "current_state ?t = Waiting" "current_state s = Waiting"
    using assms by (simp_all add: after_join_def one_thread_def)
  have "waiting_pass (sim_os False) v' s = waiting_pass (sim_os False) v' ?t" for v'
    using join_one[OF assms(1)] join_idle[of Waiting ?t "sim_os False"] by (simp add: waiting_pass_def)
  then have "main_loop_pass plain_build (sim_os False) v s = main_loop_pass plain_build (sim_os False) v ?t"
    using e assms(3,4) by (simp add: main_loop_pass_def note_signal_sim tick_sim)
  then show ?thesis
    using e(3) assms(2) by (subst (1 2) main_loop_from.simps) simp
qed

text \<open>An idle server stops when no client is left, and otherwise accepts one and creates its thread.\<close>

lemma loop_stops:
  assumes "idle Waiting s" "keep_looping s" "sm_clock (env s) = []" "0 < next_timestamp v" "sm_clients (env s) = []"
  shows "main_loop_from plain_build (sim_os False) v s = Some (Inr (s\<lparr>keep_looping := False\<rparr>))"
proof -
  have "all_threads_closed s" using assms(1) by (simp add: all_threads_closed_def SLIST_EMPTY_def idle_def)
  then have "waiting_pass (sim_os False) v' s = Some (Inr (v', s\<lparr>keep_looping := False\<rparr>))" for v'
    using join_idle[OF assms(1)] assms(5) by (simp add: waiting_pass_def sim_os_def Let_def)
  then have "main_loop_pass plain_build (sim_os False) v s =
      Some (Inr (v\<lparr>caught_signal_prev := True\<rparr>, s\<lparr>keep_looping := False\<rparr>))"
    using assms by (simp add: main_loop_pass_def note_signal_sim tick_sim idle_def)
  then show ?thesis using assms(2)
    by (subst main_loop_from.simps) (simp, subst main_loop_from.simps, simp)
qed

lemma loop_accepts:
  assumes "idle Waiting s" "keep_looping s" "sm_clock (env s) = []" "0 < next_timestamp v"
    "sm_clients (env s) = cl # cls" "sm_next_fd (env s) \<noteq> -1"
  defines "w \<equiv> (env s)\<lparr>sm_clients := cls, sm_current := cl, sm_next_fd := sm_next_fd (env s) + 1\<rparr>"
  shows "\<exists>v'. lv_client_fd v' = sm_next_fd (env s) \<and> 0 < next_timestamp v' \<and>
    main_loop_from plain_build (sim_os False) v s =
      main_loop_from plain_build (sim_os False) v' (s\<lparr>env := w, current_state := CreatingThread\<rparr>)"
proof -
  let ?v1 = "v\<lparr>caught_signal_prev := caught_signal_prev v \<or> sm_clients (env s) = []\<rparr>"
  let ?v2 = "?v1\<lparr>lv_client_fd := sm_next_fd (env s), lv_ip_string := get_client_ip_address (cl_ip cl) (lv_ip_string v) INET_ADDRSTRLEN\<rparr>"
  have "all_threads_closed s" using assms(1) by (simp add: all_threads_closed_def SLIST_EMPTY_def idle_def)
  then have "waiting_pass (sim_os False) ?v1 s =
      Some (Inr (?v2, s\<lparr>env := w, current_state := CreatingThread\<rparr>))"
    using join_idle[OF assms(1)] assms(2,5,6)
    by (simp add: waiting_pass_def check_for_client_connection_def do_call_def sim_os_def sim_call_def Let_def w_def)
  then have "main_loop_pass plain_build (sim_os False) v s =
      Some (Inr (?v2, s\<lparr>env := w, current_state := CreatingThread\<rparr>))"
    using assms(1,3,4) by (simp add: main_loop_pass_def note_signal_sim tick_sim idle_def)
  then have "main_loop_from plain_build (sim_os False) v s =
      main_loop_from plain_build (sim_os False) ?v2 (s\<lparr>env := w, current_state := CreatingThread\<rparr>)"
    using assms(2) by (subst main_loop_from.simps) simp
  then show ?thesis using assms(4) by (intro exI[of _ ?v2]) simp
qed

text \<open>The state in which one client has been served and its thread joined.\<close>

lemma loop_creates:
  assumes "idle CreatingThread s" "keep_looping s" "calm_sim (env s)"
    "length (cl_bytes (sm_current (env s))) < 2 ^ 31" "0 < next_timestamp v" "lv_client_fd v = fd"
  defines "ps \<equiv> packets [] (cl_bytes (sm_current (env s)))"
  shows "\<exists>v' s'. 0 < next_timestamp v' \<and> idle Waiting s' \<and> keep_looping s' \<and> calm_sim (env s') \<and>
    sm_clients (env s') = sm_clients (env s) \<and> sm_next_fd (env s') = sm_next_fd (env s) \<and>
    pl_file (sm_file (env s')) = pl_file (sm_file (env s)) @ concat ps \<and>
    sm_replies (env s') = sm_replies (env s) @ [(fd, file_replies (pl_file (sm_file (env s))) ps)] \<and>
    sm_closed (env s') = sm_closed (env s) @ [fd] \<and>
    main_loop_from plain_build (sim_os False) v s = main_loop_from plain_build (sim_os False) v' s'"
proof -
  let ?v1 = "v\<lparr>caught_signal_prev := caught_signal_prev v \<or> sm_clients (env s) = []\<rparr>"
  have clk: "sm_clock (env s) = []" using assms(3) by (simp add: calm_sim_def)
  obtain s1 where c: "create_thread (sim_os False) fd (lv_ip_string ?v1) s = Inr (0, s1)"
    and s1: "one_thread (sm_next_tid (env s)) fd (s1\<lparr>current_state := Waiting\<rparr>)" "keep_looping s1"
      "sm_clients (env s1) = sm_clients (env s)" "sm_next_fd (env s1) = sm_next_fd (env s)"
      "pl_file (sm_file (env s1)) = pl_file (sm_file (env s)) @ concat ps"
      "sm_replies (env s1) = sm_replies (env s) @ [(fd, file_replies (pl_file (sm_file (env s))) ps)]"
      "sm_closed (env s1) = sm_closed (env s)" "no_faults (sm_file (env s1))" "\<not> cs_locked (sm_file (env s1))"
      "sm_fail (env s1) = sm_fail (env s)" "sm_clock (env s1) = sm_clock (env s)"
    using create_in_idle[OF assms(1,3,4), of fd "lv_ip_string ?v1"] assms(2)
    by (force simp: one_thread_def ps_def)
  let ?s2 = "s1\<lparr>current_state := Waiting\<rparr>" and ?s' = "after_join fd (s1\<lparr>current_state := Waiting\<rparr>)"
  have "main_loop_pass plain_build (sim_os False) v s = Some (Inr (?v1, ?s2))"
    using c assms(1,5,6) clk by (simp add: main_loop_pass_def note_signal_sim tick_sim idle_def)
  then have "main_loop_from plain_build (sim_os False) v s = main_loop_from plain_build (sim_os False) ?v1 ?s2"
    using assms(2) by (subst main_loop_from.simps) simp
  also have "\<dots> = main_loop_from plain_build (sim_os False) ?v1 ?s'"
    using s1(2,11) clk assms(5) by (intro loop_one_thread[OF s1(1)]) simp_all
  finally have "main_loop_from plain_build (sim_os False) v s = main_loop_from plain_build (sim_os False) ?v1 ?s'" .
  moreover have "calm_sim (env ?s')"
    using assms(3) s1 by (simp add: calm_sim_def after_join_def)
  ultimately show ?thesis
    using s1 assms(5) join_one(2)[OF s1(1)]
    by (intro exI[of _ ?v1] exI[of _ ?s']) (simp add: after_join_def)
qed

lemma serves_all:
  assumes "idle Waiting s" "keep_looping s" "calm_sim (env s)" "0 < next_timestamp v" "0 \<le> sm_next_fd (env s)"
  shows "\<exists>s'. main_loop_from plain_build (sim_os False) v s = Some (Inr s') \<and> idle Waiting s' \<and>
    pl_file (sm_file (env s')) = pl_file (sm_file (env s)) @ collected (sm_clients (env s)) \<and>
    sm_replies (env s') = sm_replies (env s) @
      served (pl_file (sm_file (env s))) (sm_next_fd (env s)) (sm_clients (env s)) \<and>
    sm_closed (env s') = sm_closed (env s) @
      map fst (served (pl_file (sm_file (env s))) (sm_next_fd (env s)) (sm_clients (env s)))"
  using assms
proof (induction "sm_clients (env s)" arbitrary: s v)
  case Nil
  have clk: "sm_clock (env s) = []" using Nil.prems(3) by (simp add: calm_sim_def)
  have "idle Waiting (s\<lparr>keep_looping := False\<rparr>)" using Nil.prems(1) by (simp add: idle_def)
  with loop_stops[OF Nil.prems(1,2) clk Nil.prems(4) Nil.hyps[symmetric]] Nil.hyps[symmetric]
  show ?case by (simp add: collected_def)
next
  case (Cons cl cls)
  let ?w = "(env s)\<lparr>sm_clients := cls, sm_current := cl, sm_next_fd := sm_next_fd (env s) + 1\<rparr>"
  let ?s1 = "s\<lparr>env := ?w, current_state := CreatingThread\<rparr>"
  have clk: "sm_clock (env s) = []" using Cons.prems(3) by (simp add: calm_sim_def)
  obtain v1 where v1: "lv_client_fd v1 = sm_next_fd (env s)" "0 < next_timestamp v1"
    "main_loop_from plain_build (sim_os False) v s = main_loop_from plain_build (sim_os False) v1 ?s1"
    using loop_accepts[OF Cons.prems(1,2) clk Cons.prems(4) Cons.hyps(2)[symmetric]] Cons.prems(5) by auto
  have pre: "idle CreatingThread ?s1" "keep_looping ?s1" "calm_sim (env ?s1)"
    "length (cl_bytes (sm_current (env ?s1))) < 2 ^ 31"
    using Cons.prems(1-3) Cons.hyps(2)[symmetric] by (simp_all add: idle_def calm_sim_def)
  obtain v2 s2 where s2: "0 < next_timestamp v2" "idle Waiting s2" "keep_looping s2" "calm_sim (env s2)"
    "sm_clients (env s2) = cls" "sm_next_fd (env s2) = sm_next_fd (env s) + 1"
    "pl_file (sm_file (env s2)) = pl_file (sm_file (env s)) @ concat (packets [] (cl_bytes cl))"
    "sm_replies (env s2) = sm_replies (env s) @
      [(sm_next_fd (env s), file_replies (pl_file (sm_file (env s))) (packets [] (cl_bytes cl)))]"
    "sm_closed (env s2) = sm_closed (env s) @ [sm_next_fd (env s)]"
    "main_loop_from plain_build (sim_os False) v1 ?s1 = main_loop_from plain_build (sim_os False) v2 s2"
    using loop_creates[OF pre v1(2,1)] by auto
  have "0 \<le> sm_next_fd (env s2)" using s2(6) Cons.prems(5) by simp
  from Cons.hyps(1)[OF s2(5)[symmetric] s2(2-4,1) this] obtain s' where
    s': "main_loop_from plain_build (sim_os False) v2 s2 = Some (Inr s')" "idle Waiting s'"
    "pl_file (sm_file (env s')) = pl_file (sm_file (env s2)) @ collected cls"
    "sm_replies (env s') = sm_replies (env s2) @ served (pl_file (sm_file (env s2))) (sm_next_fd (env s2)) cls"
    "sm_closed (env s') = sm_closed (env s2) @
      map fst (served (pl_file (sm_file (env s2))) (sm_next_fd (env s2)) cls)"
    unfolding s2(5) by blast
  have "main_loop_from plain_build (sim_os False) v s = Some (Inr s')" using v1(3) s2(10) s'(1) by simp
  then show ?case
    using s'(2-5) s2(6-9) Cons.hyps(2)[symmetric]
    by (intro exI[of _ s']) (simp add: collected_def Let_def)
qed

end
