(* ===== verification/Server_Props.thy ===== *)
theory Server_Props
  imports Server_System
begin

text \<open>
  The properties of the main thread: the run of the whole server, the bookkeeping of its threads,
  the time stamps, start-up, shut-down and the daemon.
\<close>

section \<open>The whole server\<close>

definition demo_file :: plain where
  "demo_file = \<lparr>cs_inbox = [], cs_outbox = [], cs_locked = False, cs_faults = [], cs_chunks = [],
     pl_file = [], pl_pos = 0\<rparr>"

text \<open>Two clients: one sends \<open>a\<close> and \<open>b\<close> in one packet each, the other \<open>c\<close>, in pieces of a byte.\<close>

definition demo_sim :: sim where
  "demo_sim =
     \<lparr>sm_clients = [\<lparr>cl_ip = [127, 0, 0, 1], cl_bytes = [97, 10, 98, 10], cl_chunks = [3]\<rparr>,
                    \<lparr>cl_ip = [127, 0, 0, 2], cl_bytes = [99, 10], cl_chunks = [1, 1, 1, 1]\<rparr>],
      sm_current = \<lparr>cl_ip = [], cl_bytes = [], cl_chunks = []\<rparr>, sm_next_fd = 4, sm_next_tid = 1,
      sm_threads = Map.empty, sm_closed = [], sm_replies = [], sm_file = demo_file, sm_busy = [],
      sm_fail = [], sm_clock = []\<rparr>"

lemma demo_sim_calm: "calm_sim demo_sim"
  by (simp add: calm_sim_def demo_sim_def demo_file_def no_faults_def)

lemma demo_served:
  "served [] 4 (sm_clients demo_sim) =
     [(4, [97, 10] @ [97, 10, 98, 10]), (5, [97, 10, 98, 10, 99, 10])]"
  by (simp add: demo_sim_def packets_def newline_def file_replies_def)



section \<open>Threads\<close>


text \<open>A server with two threads, of which only the second is found to have ended.\<close>

definition demo_server :: "sim server" where
  "demo_server = (initial_server (demo_sim\<lparr>sm_threads := [1 \<mapsto> 10, 2 \<mapsto> 11], sm_busy := [True, False]\<rparr>))
     \<lparr>linked_list := Some 7, links := [7 \<mapsto> Some 8, 8 \<mapsto> None],
      items := [7 \<mapsto> \<lparr>thread_id = 1, client_ip_string = [49]\<rparr>, 8 \<mapsto> \<lparr>thread_id = 2, client_ip_string = [50]\<rparr>],
      datas := [10 \<mapsto> \<lparr>client_fd = 4, thread_state = ClosedConnection, thread_complete_success = False\<rparr>,
                11 \<mapsto> \<lparr>client_fd = 5, thread_state = ClosedConnection, thread_complete_success = False\<rparr>]\<rparr>"

lemma demo_server_inv: "late.server_inv demo_server [7, 8]"
  by (simp add: late.server_inv_def demo_server_def late.tid_of_def late.data_of_def initial_server_def
      inj_on_def)


text \<open>
  \<open>create_thread\<close> returns without a fault; on success the new item is the head of the list and
  its thread has the client's descriptor, and on \<open>-1\<close> the list is as before. In neither case is a
  descriptor closed.
\<close>

theorem create_thread_enters_item:
  assumes "late.server_inv s xs"
  shows "\<exists>rv s'. create_thread (sim_os True) fd ip s = Inr (rv, s') \<and>
    sm_closed (env s') = sm_closed (env s) \<and>
    (rv = -1 \<and> late.server_inv s' xs \<or>
     rv = 0 \<and> (\<exists>a. items s a = None \<and> late.server_inv s' (a # xs) \<and> late.fd_of s' a = fd \<and>
       client_ip_string (the (items s' a)) = ip))"
proof -
  obtain rv s' where "create_thread (sim_os True) fd ip s = Inr (rv, s')"
    "late.thread_created s fd ip xs rv s'" using late.create_thread_ok[OF assms] by blast
  then show ?thesis unfolding late.thread_created_def by blast
qed

theorem create_thread_enters_item_witness:
  "\<exists>rv s'. create_thread (sim_os True) 6 [51] demo_server = Inr (rv, s') \<and>
     sm_closed (env s') = sm_closed (env demo_server) \<and>
     (rv = -1 \<and> late.server_inv s' [7, 8] \<or>
      rv = 0 \<and> (\<exists>a. late.server_inv s' [a, 7, 8] \<and> late.fd_of s' a = 6))"
  using create_thread_enters_item[OF demo_server_inv, of 6 "[51]"] by blast

text \<open>
  C36. When \<open>pthread_create\<close> fails, the item and the thread data that were allocated are in no list
  and are not freed, and the client's descriptor stays open: the error path leaks them.
\<close>

theorem create_thread_failure_leaks:
  assumes "os_alloc_item os (links s) (env s) = (Some a, w1)" "os_alloc_data os (datas s) w1 = (Some p, w2)"
    "os_pthread_create os p
       \<lparr>client_fd = fd, thread_state = WaitingForData, thread_complete_success = False\<rparr> w2 = ((rv, tid), w3)"
    "rv \<noteq> 0"
  shows "\<exists>s'. create_thread os fd ip s = Inr (-1, s') \<and> linked_list s' = linked_list s \<and>
    items s' a \<noteq> None \<and> (\<exists>d. datas s' p = Some d \<and> client_fd d = fd) \<and> env s' = w3"
  using assms by (simp add: create_thread_def Let_def)

theorem create_thread_failure_leaks_witness:
  "\<exists>s'. create_thread (sim_os True) 6 [51]
          (initial_server (demo_sim\<lparr>sm_fail := [False, False, True]\<rparr>)) = Inr (-1, s') \<and>
     linked_list s' = None \<and> items s' 0 \<noteq> None \<and> (\<exists>d. datas s' 0 = Some d \<and> client_fd d = 6) \<and>
     sm_closed (env s') = []"
  using create_thread_failure_leaks[of "sim_os True" "initial_server (demo_sim\<lparr>sm_fail := [False, False, True]\<rparr>)"
      0 "demo_sim\<lparr>sm_fail := [False, True]\<rparr>" 0 "demo_sim\<lparr>sm_fail := [True]\<rparr>" 6 11 0
      "demo_sim\<lparr>sm_fail := []\<rparr>" "[51]"]
  by (auto simp: sim_os_def sim_alloc_def next_fail_def first_free.simps sim_create_def Let_def
      initial_server_def demo_sim_def)


lemma main_loop_no_clients:
  "main_loop plain_build (sim_os True) (initial_server (demo_sim\<lparr>sm_clients := []\<rparr>)) =
     Some (Inr (0, (initial_server (demo_sim\<lparr>sm_clients := []\<rparr>))\<lparr>current_state := Waiting, keep_looping := False\<rparr>))"
proof -
  let ?s = "(initial_server (demo_sim\<lparr>sm_clients := []\<rparr>))\<lparr>current_state := Waiting\<rparr>"
  let ?v = "\<lparr>lv_client_fd = 0, lv_ip_string = [], caught_signal_prev = False, next_timestamp = 10\<rparr>"
  have "main_loop_pass plain_build (sim_os True) ?v ?s =
      Some (Inr (?v\<lparr>caught_signal_prev := True\<rparr>, ?s\<lparr>keep_looping := False\<rparr>))"
    by (simp add: main_loop_pass_def note_signal_def tick_def waiting_pass_def join_threads_def sim_os_def
        initial_server_def demo_sim_def all_threads_closed_def SLIST_EMPTY_def)
  then have "main_loop_from plain_build (sim_os True) ?v ?s = Some (Inr (?s\<lparr>keep_looping := False\<rparr>))"
    by (subst main_loop_from.simps) (simp add: initial_server_def, subst main_loop_from.simps, simp)
  then show ?thesis by (simp add: main_loop_def sim_os_def initial_server_def demo_sim_def)
qed


section \<open>Start-up and shut-down\<close>

text \<open>
  The calls of \<open>startup\<close> in order, each with the answers that make it give up, for a socket \<open>fd\<close>
  and the socket's flags \<open>fl\<close>; and what running such a list does.
\<close>

definition startup_calls :: "int \<Rightarrow> int \<Rightarrow> (syscall \<times> (int \<Rightarrow> bool)) list" where
  "startup_calls fd fl =
     [(Sigaction SIGTERM, \<lambda>r. r \<noteq> 0), (Sigaction SIGINT, \<lambda>r. r \<noteq> 0), (Getaddrinfo, \<lambda>r. r \<noteq> 0),
      (Socket, \<lambda>r. r = -1), (Bind fd, \<lambda>r. r = -1), (Listen fd, \<lambda>r. r = -1),
      (Fcntl_getfl fd, \<lambda>r. r = -1), (Fcntl_setfl fd (or fl O_NONBLOCK), \<lambda>r. r = -1)]"

fun until_failure :: "(syscall \<Rightarrow> int) \<Rightarrow> (syscall \<times> (int \<Rightarrow> bool)) list \<Rightarrow> int \<times> syscall list" where
  "until_failure ans [] = (0, [])"
| "until_failure ans ((c, bad) # cs) =
     (if bad (ans c) then (-1, [c]) else let (r, l) = until_failure ans cs in (r, c # l))"

text \<open>A system that answers each call by \<open>ans\<close> and whose state is the list of the calls made.\<close>

definition recording :: "(syscall \<Rightarrow> int) \<Rightarrow> syscall list os \<Rightarrow> syscall list os" where
  "recording ans os = os\<lparr>os_call := \<lambda>c w. (ans c, w @ [c])\<rparr>"

lemma do_call_recording [simp]: "do_call (recording ans os) c s = (ans c, s\<lparr>env := env s @ [c]\<rparr>)"
  by (simp add: do_call_def recording_def)

lemma startup_runs:
  fixes s :: "syscall list server" and ans :: "syscall \<Rightarrow> int"
  defines "run \<equiv> until_failure ans (startup_calls (ans Socket) (ans (Fcntl_getfl (ans Socket))))"
  shows "fst (startup cfg (recording ans os) s) = fst run"
    "env (snd (startup cfg (recording ans os) s)) =
       env s @ (if disable_locking cfg then [] else [Pthread_mutex_init]) @ snd run"
    "socket_fd (snd (startup cfg (recording ans os) s)) =
       (if Socket \<in> set (snd run) then ans Socket else socket_fd s)"
    "res_allocated (snd (startup cfg (recording ans os) s)) =
       (Socket \<in> set (snd run) \<or> res_allocated s)"
  by (simp_all add: run_def startup_def startup_calls_def Let_def)

text \<open>
  \<open>startup\<close> makes its calls in order and stops at the first that fails; it returns zero exactly
  when none does, and then the socket is open and listening in non-blocking mode.
\<close>

theorem startup_stops_at_first_failure:
  "startup cfg (recording ans os) s = (rv, s') \<Longrightarrow>
   until_failure ans (startup_calls (ans Socket) (ans (Fcntl_getfl (ans Socket)))) = (rv', made) \<Longrightarrow>
   rv = rv' \<and> env s' = env s @ (if disable_locking cfg then [] else [Pthread_mutex_init]) @ made \<and>
   (rv = 0 \<longrightarrow> socket_fd s' = ans Socket \<and> socket_fd s' \<noteq> -1)"
  using startup_runs[of cfg ans os s]
  by (auto simp: startup_calls_def Let_def split: if_splits)

theorem startup_stops_at_first_failure_witness:
  "startup plain_build (recording (\<lambda>c. if c = Socket then 3 else 0) undefined) (initial_server []) =
     (0, (initial_server [])\<lparr>current_state := Startup, socket_fd := 3, res_allocated := True,
        env := [Pthread_mutex_init, Sigaction SIGTERM, Sigaction SIGINT, Getaddrinfo, Socket, Bind 3, Listen 3,
                Fcntl_getfl 3, Fcntl_setfl 3 O_NONBLOCK]\<rparr>)"
proof -
  let ?ans = "\<lambda>c. if c = Socket then 3 else 0 :: int"
  obtain rv s' where st: "startup plain_build (recording ?ans undefined) (initial_server []) = (rv, s')"
    by (cases "startup plain_build (recording ?ans undefined) (initial_server [])")
  obtain rv' made where un: "until_failure ?ans (startup_calls (?ans Socket) (?ans (Fcntl_getfl (?ans Socket)))) = (rv', made)"
    by (cases "until_failure ?ans (startup_calls (?ans Socket) (?ans (Fcntl_getfl (?ans Socket))))")
  have "rv = 0" "env s' = [Pthread_mutex_init, Sigaction SIGTERM, Sigaction SIGINT, Getaddrinfo, Socket, Bind 3,
      Listen 3, Fcntl_getfl 3, Fcntl_setfl 3 O_NONBLOCK]"
    using startup_stops_at_first_failure[OF st un] un
    by (auto simp: startup_calls_def initial_server_def plain_build_def)
  then show ?thesis
    using st by (auto simp: startup_def initial_server_def plain_build_def SLIST_INIT_def Let_def)
qed

lemma do_call_env: "env (snd (do_call (recording ans os) c s)) = env s @ [c]"
  by simp

text \<open>
  C37. When start-up fails before it has a socket, the shut-down that follows closes descriptor 0,
  the initial value of \<open>socket_fd\<close>: the program's standard input.
\<close>

theorem failed_start_closes_stdin:
  assumes "ans (Sigaction SIGTERM) \<noteq> 0 \<or> ans (Sigaction SIGINT) \<noteq> 0 \<or> ans Getaddrinfo \<noteq> 0"
  shows "\<exists>s. main cfg (recording ans os) argv (initial_server []) = Some (Inr (Return 0 s)) \<and>
    Close 0 \<in> set (env s) \<and> Socket \<notin> set (env s)"
  using assms
  by (auto simp: main_def startup_def shutting_down_def initial_server_def Let_def)

theorem failed_start_closes_stdin_witness:
  "\<exists>s. main plain_build (recording (\<lambda>c. if c = Getaddrinfo then -2 else 0) undefined) [[97]] (initial_server []) =
      Some (Inr (Return 0 s)) \<and> Close 0 \<in> set (env s) \<and> Socket \<notin> set (env s)"
  by (rule failed_start_closes_stdin) simp

text \<open>The calls that make the child a daemon, each with the answers that make it give up.\<close>

definition daemon_calls :: "int \<Rightarrow> (syscall \<times> (int \<Rightarrow> bool)) list" where
  "daemon_calls fd = map (\<lambda>c. (c, \<lambda>r. r = -1)) [Setsid, Chdir, Open_dev_null, Dup2 fd 0, Dup2 fd 1, Dup2 fd 2]"

text \<open>
  With the daemon flag the parent ends at once, without closing the socket or deleting the
  file; the child starts a session, leaves its directory and redirects its three standard streams,
  in this order, and runs the main loop exactly when none of these calls fails.
\<close>

theorem fork_makes_a_daemon:
  "main_loop_fork cfg (recording ans os) s =
     (let fd = ans Open_dev_null; (rv, made) = until_failure ans (daemon_calls fd)
      in if ans Fork = -1 then Some (Inr (Return (-1) (s\<lparr>env := env s @ [Fork]\<rparr>)))
         else if ans Fork \<noteq> 0 then Some (Inr (Exited 0 (s\<lparr>env := env s @ [Fork, Exit 0]\<rparr>)))
         else if rv = -1 then Some (Inr (Return (-1) (s\<lparr>env := env s @ Fork # made\<rparr>)))
         else Option.bind (main_loop cfg (recording ans os) (s\<lparr>env := env s @ Fork # made @ [Close fd]\<rparr>))
                (\<lambda>r. Some (bindE r (\<lambda>(rv, s'). Inr (Return 0 s')))))"
  by (simp add: main_loop_fork_def daemon_calls_def Let_def)

section \<open>Time stamps\<close>

text \<open>
  C26. \<open>write_time_stamp\<close> always leaves the mutex free; when it returns zero the stamp, up to its
  terminator, is a line of its own at the end of the file, and it does so unless a call fails.
\<close>

theorem time_stamp_is_appended:
  assumes "os_file os = plain_sys" "os_strftime os w = (tb, w)" "\<not> cs_locked w"
    "takeWhile (\<lambda>c. c \<noteq> 0) tb = p" "p \<noteq> []" "last p = newline" "length p < 2 ^ 31"
  shows "\<exists>rc w'. write_time_stamp cfg os w = (rc, w') \<and> \<not> cs_locked w' \<and> (no_faults w \<longrightarrow> rc = 0) \<and>
    (rc = -1 \<or> rc = 0 \<and> pl_file w' = pl_file w @ p)"
  using plain.write_time_stamp_ok[OF assms(1,2) TrueI assms(3-7), of cfg] by blast

definition demo_stamp_os :: "plain os" where
  "demo_stamp_os =
     \<lparr>os_call = (\<lambda>c w. (0, w)), os_caught_signal = (\<lambda>w. (False, w)), os_clock = (\<lambda>w. (0, w)),
      os_eintr = (\<lambda>w. (False, w)), os_client_ip = (\<lambda>w. ([], w)),
      os_strftime = (\<lambda>w. ([116, newline, 0, 7], w)), os_alloc_item = (\<lambda>m w. (None, w)),
      os_alloc_data = (\<lambda>m w. (None, w)), os_pthread_create = (\<lambda>p d w. ((11, 0), w)),
      os_tryjoin = (\<lambda>t w. ((3, None), w)), os_file = plain_sys\<rparr>"

theorem time_stamp_is_appended_witness:
  "\<exists>w'. write_time_stamp plain_build demo_stamp_os demo_file = (0, w') \<and> pl_file w' = [116, 10] \<and>
     \<not> cs_locked w'"
  using time_stamp_is_appended[of demo_stamp_os demo_file "[116, newline, 0, 7]" "[116, newline]" plain_build]
  by (auto simp: demo_stamp_os_def demo_file_def no_faults_def newline_def)

text \<open>
  C38. \<open>get_file_size\<close> gives the size of a file of less than 2 GiB, but for larger ones the
  conversion to \<open>int\<close> gives another number; for a file of exactly 4 GiB - 1 it is the error value.
\<close>

theorem file_size_is_cut:
  "(\<forall>n. 0 \<le> n \<and> n < 2 ^ 31 \<longrightarrow> get_file_size (Some n) = n) \<and>
   (\<forall>n. 2 ^ 31 \<le> n \<longrightarrow> get_file_size (Some n) \<noteq> n) \<and>
   get_file_size (Some (2 ^ 32 - 1)) = -1 \<and> get_file_size None = -1"
proof (intro conjI allI impI)
  show "get_file_size (Some n) = n" if "0 \<le> n \<and> n < 2 ^ 31" for n
    using that by (simp add: get_file_size_def to_c_int_id)
  show "get_file_size (Some n) \<noteq> n" if "2 ^ 31 \<le> n" for n
  proof -
    have "to_c_int n < 2 ^ 31"
      using sint_less[of "word_of_int n :: 32 word"] by (simp add: to_c_int_def)
    then show ?thesis using that by (simp add: get_file_size_def)
  qed
  show "get_file_size (Some (2 ^ 32 - 1)) = -1" by (simp add: get_file_size_def to_c_int_def)
  show "get_file_size None = -1" by (simp add: get_file_size_def)
qed

theorem file_size_is_cut_witness:
  "get_file_size (Some 5) = 5 \<and> get_file_size (Some (2 ^ 31)) \<noteq> 2 ^ 31"
  using file_size_is_cut by simp

end
