(* ===== verification/Turns.thy ===== *)
theory Turns
  imports Prelude
begin

text \<open>
  Processes that share a store and a mutex and take turns in any order. A process is a value of
  any type \<open>'m\<close> with a function for its next step; a process whose next call takes the mutex waits
  as long as the mutex is held. The locale \<open>turn_taking\<close> states what is asked of the processes and
  proves once that at most one of them holds the mutex and that every fair schedule ends; the
  locale \<open>logged_turns\<close> adds that what the processes do to the store happens as if each did it at
  once, in the order in which they got the mutex. \<open>Server_Crowd\<close> interprets them on the server's
  threads.
\<close>

section \<open>Processes and schedules\<close>

record ('s, 'm) crowd =
  cr_store :: 's
  cr_locked :: bool
  cr_members :: "'m list"

text \<open>A step gives the new store, whether the mutex is held then, and the process after it.\<close>

type_synonym ('s, 'm) mover = "'s \<Rightarrow> bool \<Rightarrow> 'm \<Rightarrow> (fault + 's \<times> bool \<times> 'm) option"

definition turn ::
  "('s, 'm) mover \<Rightarrow> ('m \<Rightarrow> bool) \<Rightarrow> nat \<Rightarrow> ('s, 'm) crowd \<Rightarrow> (fault + ('s, 'm) crowd) option" where
  "turn move waits i c =
     (if i < length (cr_members c) \<and> \<not> (cr_locked c \<and> waits (cr_members c ! i))
      then Option.bind (move (cr_store c) (cr_locked c) (cr_members c ! i)) (\<lambda>r.
        Some (bindE r (\<lambda>(s, l, m).
          Inr \<lparr>cr_store = s, cr_locked = l, cr_members = (cr_members c)[i := m]\<rparr>)))
      else Some (Inr c))"

text \<open>A schedule names the process of each turn; a turn of a waiting process does nothing.\<close>

primrec run_schedule ::
  "('s, 'm) mover \<Rightarrow> ('m \<Rightarrow> bool) \<Rightarrow> nat list \<Rightarrow> ('s, 'm) crowd \<Rightarrow> (fault + ('s, 'm) crowd) option" where
  "run_schedule move waits [] c = Some (Inr c)"
| "run_schedule move waits (i # is) c =
     Option.bind (turn move waits i c) (\<lambda>r.
       case r of Inl f \<Rightarrow> Some (Inl f) | Inr c1 \<Rightarrow> run_schedule move waits is c1)"

lemma run_schedule_append:
  "run_schedule move waits (is @ js) c =
     Option.bind (run_schedule move waits is c) (\<lambda>r.
       case r of Inl f \<Rightarrow> Some (Inl f) | Inr c1 \<Rightarrow> run_schedule move waits js c1)"
  by (induction "is" arbitrary: c)
    (auto intro!: bind_option_cong simp: Option.bind_assoc split: sum.splits)

text \<open>What no step of a process changes, no schedule changes.\<close>

lemma turn_kind:
  assumes "\<And>s l m s' l' m'. move s l m = Some (Inr (s', l', m')) \<Longrightarrow> K m' = K m"
    "turn move waits i c = Some (Inr c')"
  shows "map K (cr_members c') = map K (cr_members c)"
proof (cases "c' = c")
  case False
  then obtain s l m where "i < length (cr_members c)"
    "move (cr_store c) (cr_locked c) (cr_members c ! i) = Some (Inr (s, l, m))"
    "cr_members c' = (cr_members c)[i := m]"
    using assms(2) by (auto simp: turn_def bind_eq_Some_conv bindE_eq_Inr split: if_splits)
  with assms(1)[OF this(2)] show ?thesis by (simp add: map_update list_update_same_conv)
qed simp

lemma run_schedule_kind:
  assumes "\<And>s l m s' l' m'. move s l m = Some (Inr (s', l', m')) \<Longrightarrow> K m' = K m"
    "run_schedule move waits is c = Some (Inr c')"
  shows "map K (cr_members c') = map K (cr_members c)"
  using assms(2)
proof (induction "is" arbitrary: c)
  case (Cons i "is")
  then obtain c1 where c1: "turn move waits i c = Some (Inr c1)" "run_schedule move waits is c1 = Some (Inr c')"
    by (auto simp: bind_eq_Some_conv split: sum.splits) (metis sumE)
  from Cons.IH[OF c1(2)] turn_kind[of move K waits i c c1, OF assms(1) c1(1)] show ?case by simp
qed simp

text \<open>A process put in front of the others takes no turn in a schedule of the others.\<close>

definition ahead :: "'m \<Rightarrow> ('s, 'm) crowd \<Rightarrow> ('s, 'm) crowd" where
  "ahead m c = c\<lparr>cr_members := m # cr_members c\<rparr>"

lemma ahead_simps [simp]:
  "cr_store (ahead m c) = cr_store c" "cr_locked (ahead m c) = cr_locked c"
  "cr_members (ahead m c) = m # cr_members c" "ahead m c = ahead m' c' \<longleftrightarrow> m = m' \<and> c = c'"
  by (simp_all add: ahead_def) (cases c; cases c'; auto)

lemma turn_ahead:
  "turn move waits (Suc i) (ahead m c) = map_option (map_sum id (ahead m)) (turn move waits i c)"
  by (auto simp: turn_def ahead_def map_option_bind comp_def bindE_def intro!: bind_option_cong
      split: sum.splits)

lemma run_ahead:
  "run_schedule move waits (map Suc is) (ahead m c) = map_option (map_sum id (ahead m)) (run_schedule move waits is c)"
proof (induction "is" arbitrary: c)
  case (Cons i "is")
  show ?case
    by (auto simp: turn_ahead map_option_bind bind_map_option comp_def Cons intro!: bind_option_cong split: sum.splits)
qed simp

lemma run_ahead_Inr:
  assumes "run_schedule move waits (map Suc is) (ahead m c) = Some (Inr c1)"
  obtains c' where "run_schedule move waits is c = Some (Inr c')" "c1 = ahead m c'"
proof (cases "run_schedule move waits is c")
  case (Some r)
  then show thesis using assms that by (cases r) (simp_all add: run_ahead)
qed (use assms in \<open>simp add: run_ahead\<close>)

definition fair :: "(nat \<Rightarrow> nat) \<Rightarrow> nat \<Rightarrow> bool" where
  "fair \<sigma> n \<longleftrightarrow> (\<forall>i<n. \<forall>k. \<exists>j\<ge>k. \<sigma> j = i)"

abbreviation first_turns :: "(nat \<Rightarrow> nat) \<Rightarrow> nat \<Rightarrow> nat list" where
  "first_turns \<sigma> k \<equiv> map \<sigma> [0..<k]"

lemma sum_list_update_less:
  fixes f :: "'a \<Rightarrow> nat"
  assumes "i < length xs" "f x < f (xs ! i)"
  shows "sum_list (map f (xs[i := x])) < sum_list (map f xs)"
  using assms by (induction xs arbitrary: i) (auto split: nat.splits)

lemma sum_list_update_same:
  fixes f :: "'a \<Rightarrow> nat"
  assumes "i < length xs" "f x = f (xs ! i)"
  shows "sum_list (map f (xs[i := x])) = sum_list (map f xs)"
  using assms by (induction xs arbitrary: i) (auto split: nat.splits)

section \<open>Progress\<close>

text \<open>
  What a kind of processes has to show of a single turn: it is without a fault, keeps the invariant
  \<open>inv\<close> of the whole, and brings it nearer to the end in the well-founded order \<open>less\<close> if the
  process can move; and somebody can move as long as not all have ended.
\<close>

locale scheduled =
  fixes move :: "('s, 'm) mover"
    and waits :: "'m \<Rightarrow> bool"
    and ended :: "'m \<Rightarrow> bool"
    and inv :: "('s, 'm) crowd \<Rightarrow> bool"
    and can_go :: "nat \<Rightarrow> ('s, 'm) crowd \<Rightarrow> bool"
    and less :: "(('s, 'm) crowd \<times> ('s, 'm) crowd) set"
  assumes wf_less: "wf less"
    and turn_law: "inv c \<Longrightarrow> \<exists>c'. turn move waits i c = Some (Inr c') \<and> inv c' \<and>
      length (cr_members c') = length (cr_members c) \<and> (if can_go i c then (c', c) \<in> less else c' = c)"
    and go_law: "inv c \<Longrightarrow> \<exists>m \<in> set (cr_members c). \<not> ended m \<Longrightarrow>
      \<exists>i < length (cr_members c). can_go i c"
begin

lemma run_ok:
  assumes "inv c"
  shows "\<exists>c'. run_schedule move waits is c = Some (Inr c') \<and> inv c' \<and>
    length (cr_members c') = length (cr_members c)"
  using assms
proof (induction "is" arbitrary: c)
  case (Cons i "is")
  obtain c1 where c1: "turn move waits i c = Some (Inr c1)" "inv c1"
    "length (cr_members c1) = length (cr_members c)" using turn_law[OF Cons.prems] by blast
  from Cons.IH[OF c1(2)] c1(1,3) show ?case by auto
qed simp

text \<open>Turns bring the whole nearer to the end, unless they are turns of processes that cannot move.\<close>

lemma run_progress:
  assumes "inv c"
  obtains c' where "run_schedule move waits is c = Some (Inr c')" "inv c'" "length (cr_members c') = length (cr_members c)"
    "(c', c) \<in> less\<^sup>+ \<or> c' = c \<and> (\<forall>i \<in> set is. \<not> can_go i c)"
proof -
  have "\<exists>c'. run_schedule move waits is c = Some (Inr c') \<and> inv c' \<and> length (cr_members c') = length (cr_members c) \<and>
    ((c', c) \<in> less\<^sup>+ \<or> c' = c \<and> (\<forall>i \<in> set is. \<not> can_go i c))"
    using assms
  proof (induction "is" arbitrary: c)
    case (Cons i "is")
    obtain c1 where c1: "turn move waits i c = Some (Inr c1)" "inv c1"
      "length (cr_members c1) = length (cr_members c)" "if can_go i c then (c1, c) \<in> less else c1 = c"
      using turn_law[OF Cons.prems] by blast
    obtain c2 where c2: "run_schedule move waits is c1 = Some (Inr c2)" "inv c2"
      "length (cr_members c2) = length (cr_members c1)"
      "(c2, c1) \<in> less\<^sup>+ \<or> c2 = c1 \<and> (\<forall>i \<in> set is. \<not> can_go i c1)" using Cons.IH[OF c1(2)] by blast
    have "(c2, c) \<in> less\<^sup>+ \<or> c2 = c \<and> (\<forall>i \<in> set (i # is). \<not> can_go i c)"
      using c1(4) c2(4) by (auto split: if_splits intro: trancl_into_trancl)
    with c1 c2 show ?case by simp
  qed simp
  with that show ?thesis by blast
qed

text \<open>
  Every fair schedule ends all processes; the turns may come in batches, each of any length, as
  long as the batches come back to every process.
\<close>

lemma fair_batches_end:
  assumes "inv c" "\<forall>i < length (cr_members c). \<forall>k. \<exists>j\<ge>k. i \<in> set (T j)"
  shows "\<exists>n c'. run_schedule move waits (concat (map T [0..<n])) c = Some (Inr c') \<and>
    (\<forall>m \<in> set (cr_members c'). ended m)"
  using wf_trancl[OF wf_less] assms
proof (induction c arbitrary: T rule: wf_induct_rule)
  case (less c)
  show ?case
  proof (cases "\<forall>m \<in> set (cr_members c). ended m")
    case True
    then show ?thesis by (intro exI[of _ 0] exI[of _ c]) simp
  next
    case False
    then obtain i where i: "i < length (cr_members c)" "can_go i c" using go_law[OF less.prems(1)] by blast
    then obtain j where j: "i \<in> set (T j)" using less.prems(2) by blast
    let ?is = "concat (map T [0..<Suc j])" and ?T = "\<lambda>k. T (Suc j + k)"
    have is_j: "i \<in> set ?is" using j by auto
    obtain c1 where
      c1: "run_schedule move waits ?is c = Some (Inr c1)" "inv c1" "length (cr_members c1) = length (cr_members c)"
      "(c1, c) \<in> less\<^sup>+" using run_progress[OF less.prems(1), of ?is] is_j i(2) by blast
    have "\<exists>l\<ge>k. i \<in> set (?T l)" if "i < length (cr_members c1)" for i k
    proof -
      obtain l where "l \<ge> Suc j + k" "i \<in> set (T l)" using less.prems(2) \<open>i < _\<close> c1(3) by metis
      then show ?thesis by (intro exI[of _ "l - Suc j"]) simp
    qed
    from less.IH[OF c1(4,2), of ?T] this obtain n c2 where
      c2: "run_schedule move waits (concat (map ?T [0..<n])) c1 = Some (Inr c2)" "\<forall>m \<in> set (cr_members c2). ended m"
      by blast
    have "[0..<Suc j + n] = [0..<Suc j] @ map (\<lambda>k. Suc j + k) [0..<n]"
      using upt_add_eq_append[of 0 "Suc j" n] map_add_upt[of "Suc j" n] by (simp add: add.commute)
    then have e: "concat (map T [0..<Suc j + n]) = ?is @ concat (map ?T [0..<n])" by (simp add: comp_def)
    have "run_schedule move waits (concat (map T [0..<Suc j + n])) c = Some (Inr c2)"
      unfolding e run_schedule_append c1(1) by (simp only: bind.simps sum.case c2(1))
    with c2(2) show ?thesis by blast
  qed
qed

lemma fair_schedule_ends:
  assumes "inv c" "fair \<sigma> (length (cr_members c))"
  shows "\<exists>k c'. run_schedule move waits (first_turns \<sigma> k) c = Some (Inr c') \<and>
    (\<forall>m \<in> set (cr_members c'). ended m)"
  using fair_batches_end[OF assms(1), of "\<lambda>j. [\<sigma> j]"] assms(2) by (simp add: fair_def eq_commute)

end

section \<open>Mutual exclusion\<close>

text \<open>
  \<open>ok s m\<close> is the invariant of a process when the store is \<open>s\<close>, which only the holder of the mutex
  may depend on. A turn of a process without the mutex leaves the store and lowers its \<open>weight\<close>;
  it may take a free mutex. A turn of the holder lowers the weight, or keeps it and lowers its
  \<open>fuel\<close>, which counts only as long as it holds the mutex.
\<close>

locale turn_taking =
  fixes move :: "('s, 'm) mover"
    and waits :: "'m \<Rightarrow> bool"
    and holds :: "'m \<Rightarrow> bool"
    and ended :: "'m \<Rightarrow> bool"
    and ok :: "'s \<Rightarrow> 'm \<Rightarrow> bool"
    and weight :: "'m \<Rightarrow> nat"
    and fuel :: "'s \<Rightarrow> 'm \<Rightarrow> nat"
  assumes ok_free: "\<not> holds m \<Longrightarrow> ok s m \<Longrightarrow> ok s' m"
    and waits_free: "holds m \<Longrightarrow> \<not> waits m \<and> \<not> ended m"
    and ended_move: "ended m \<Longrightarrow> move s l m = Some (Inr (s, l, m))"
    and free_move: "ok s m \<Longrightarrow> \<not> holds m \<Longrightarrow> \<not> ended m \<Longrightarrow> \<not> (l \<and> waits m) \<Longrightarrow>
      \<exists>l' m'. move s l m = Some (Inr (s, l', m')) \<and> ok s m' \<and> weight m' < weight m \<and>
        (l' = l \<and> \<not> holds m' \<or> \<not> l \<and> l' \<and> holds m')"
    and holder_move: "ok s m \<Longrightarrow> holds m \<Longrightarrow>
      \<exists>s' m'. move s True m = Some (Inr (s', holds m', m')) \<and> ok s' m' \<and>
        (weight m' < weight m \<or> weight m' = weight m \<and> (if holds m' then fuel s' m' else 0) < fuel s m)"
begin

definition crowd_ok :: "('s, 'm) crowd \<Rightarrow> bool" where
  "crowd_ok c \<longleftrightarrow>
     (\<forall>m \<in> set (cr_members c). ok (cr_store c) m) \<and>
     (\<forall>i < length (cr_members c). holds (cr_members c ! i) \<longrightarrow> cr_locked c) \<and>
     (cr_locked c \<longrightarrow> (\<exists>i < length (cr_members c). holds (cr_members c ! i))) \<and>
     (\<forall>i < length (cr_members c). \<forall>j < length (cr_members c).
        holds (cr_members c ! i) \<longrightarrow> holds (cr_members c ! j) \<longrightarrow> i = j)"

definition holder_fuel :: "'s \<Rightarrow> 'm \<Rightarrow> nat" where
  "holder_fuel s m = (if holds m then fuel s m else 0)"

definition work :: "('s, 'm) crowd \<Rightarrow> nat \<times> nat" where
  "work c = (sum_list (map weight (cr_members c)),
     sum_list (map (holder_fuel (cr_store c)) (cr_members c)))"

definition less_work :: "(('s, 'm) crowd \<times> ('s, 'm) crowd) set" where
  "less_work = inv_image (less_than <*lex*> less_than) work"

lemma trancl_less_work: "(c', c) \<in> less_work\<^sup>+ \<longleftrightarrow> (work c', work c) \<in> less_than <*lex*> less_than"
proof -
  have "trans less_work" unfolding less_work_def by (intro trans_inv_image trans_lex_prod) simp_all
  then show ?thesis by (simp add: trancl_id) (simp add: less_work_def)
qed

lemma wf_less_work: "wf less_work"
  unfolding less_work_def by (intro wf_inv_image wf_lex_prod wf_less_than)

definition can_move :: "nat \<Rightarrow> ('s, 'm) crowd \<Rightarrow> bool" where
  "can_move i c \<longleftrightarrow> i < length (cr_members c) \<and> \<not> ended (cr_members c ! i) \<and>
     \<not> (cr_locked c \<and> waits (cr_members c ! i))"

lemma only_holder:
  assumes "crowd_ok c" "holds (cr_members c ! i)" "i < length (cr_members c)"
  shows "cr_locked c" "\<And>j. j < length (cr_members c) \<Longrightarrow> j \<noteq> i \<Longrightarrow> \<not> holds (cr_members c ! j)"
  using assms unfolding crowd_ok_def by blast+

text \<open>The state after a turn of process \<open>i\<close>.\<close>

lemma crowd_ok_update:
  assumes c: "crowd_ok c" "i < length (cr_members c)" and m: "ok s m"
    and step: "holds (cr_members c ! i) \<and> l = holds m \<or>
      \<not> holds (cr_members c ! i) \<and> s = cr_store c \<and>
        (l = cr_locked c \<and> \<not> holds m \<or> \<not> cr_locked c \<and> l \<and> holds m)"
  shows "crowd_ok \<lparr>cr_store = s, cr_locked = l, cr_members = (cr_members c)[i := m]\<rparr>"
proof -
  have others: "ok s (cr_members c ! j)" if "j < length (cr_members c)" "j \<noteq> i" for j
  proof (cases "holds (cr_members c ! i)")
    case True
    with only_holder(2)[OF c(1) True c(2) that] c(1) that(1) show ?thesis
      by (auto simp: crowd_ok_def intro: ok_free)
  next
    case False
    with step c(1) that(1) show ?thesis by (auto simp: crowd_ok_def)
  qed
  have ok: "\<forall>x \<in> set ((cr_members c)[i := m]). ok s x"
  proof
    fix x assume "x \<in> set ((cr_members c)[i := m])"
    then obtain j where "j < length (cr_members c)" "x = (cr_members c)[i := m] ! j"
      by (auto simp: in_set_conv_nth)
    then show "ok s x" using others m by (cases "j = i") auto
  qed
  show ?thesis
  proof (cases "holds (cr_members c ! i)")
    case True
    note o = only_holder[OF c(1) True c(2)]
    show ?thesis
      unfolding crowd_ok_def using ok o step True c(2)
      by (auto simp: nth_list_update split: if_splits)
  next
    case False
    have "\<And>j. j < length (cr_members c) \<Longrightarrow> holds (cr_members c ! j) \<Longrightarrow> cr_locked c"
      "cr_locked c \<Longrightarrow> \<exists>j < length (cr_members c). holds (cr_members c ! j)"
      "\<And>j k. j < length (cr_members c) \<Longrightarrow> k < length (cr_members c) \<Longrightarrow>
        holds (cr_members c ! j) \<Longrightarrow> holds (cr_members c ! k) \<Longrightarrow> j = k"
      using c(1) unfolding crowd_ok_def by blast+
    note h = this
    from False step consider "l = cr_locked c" "\<not> holds m" | "\<not> cr_locked c" "l" "holds m" by blast
    then show ?thesis
    proof cases
      case 1
      have "\<exists>j < length (cr_members c). holds ((cr_members c)[i := m] ! j)" if "l"
        using h(2) that 1(1) False by (metis nth_list_update_neq)
      with ok 1 h(1,3) c(2) show ?thesis
        unfolding crowd_ok_def by (auto simp: nth_list_update split: if_splits)
    next
      case 2
      have "\<And>j. j < length (cr_members c) \<Longrightarrow> \<not> holds (cr_members c ! j)" using 2(1) h(1) by blast
      with ok 2 c(2) show ?thesis
        unfolding crowd_ok_def by (auto simp: nth_list_update split: if_splits)
    qed
  qed
qed

text \<open>Every turn is without a fault, keeps the invariant, and is progress if its process can move.\<close>

lemma turn_cases:
  assumes "crowd_ok c"
  obtains (idle) "turn move waits i c = Some (Inr c)" "\<not> can_move i c"
  | (free) l m where "can_move i c" "\<not> holds (cr_members c ! i)"
      "move (cr_store c) (cr_locked c) (cr_members c ! i) = Some (Inr (cr_store c, l, m))"
      "ok (cr_store c) m" "weight m < weight (cr_members c ! i)"
      "l = cr_locked c \<and> \<not> holds m \<or> \<not> cr_locked c \<and> l \<and> holds m"
      "turn move waits i c = Some (Inr \<lparr>cr_store = cr_store c, cr_locked = l, cr_members = (cr_members c)[i := m]\<rparr>)"
  | (holder) s m where "can_move i c" "holds (cr_members c ! i)" "cr_locked c"
      "move (cr_store c) True (cr_members c ! i) = Some (Inr (s, holds m, m))" "ok s m"
      "weight m < weight (cr_members c ! i) \<or>
        weight m = weight (cr_members c ! i) \<and> (if holds m then fuel s m else 0) < fuel (cr_store c) (cr_members c ! i)"
      "turn move waits i c = Some (Inr \<lparr>cr_store = s, cr_locked = holds m, cr_members = (cr_members c)[i := m]\<rparr>)"
proof (cases "can_move i c")
  case False
  moreover have "turn move waits i c = Some (Inr c)"
    using False ended_move[of "cr_members c ! i" "cr_store c" "cr_locked c"]
    by (auto simp: turn_def can_move_def)
  ultimately show ?thesis using idle by blast
next
  case True
  then have i: "i < length (cr_members c)" "\<not> ended (cr_members c ! i)"
    "\<not> (cr_locked c \<and> waits (cr_members c ! i))" by (auto simp: can_move_def)
  have ok: "ok (cr_store c) (cr_members c ! i)" using assms i(1) by (auto simp: crowd_ok_def)
  show ?thesis
  proof (cases "holds (cr_members c ! i)")
    case h: True
    have l: "cr_locked c" using only_holder(1)[OF assms h i(1)] .
    from holder_move[OF ok h] obtain s m where "move (cr_store c) True (cr_members c ! i) = Some (Inr (s, holds m, m))"
      "ok s m" "weight m < weight (cr_members c ! i) \<or>
        weight m = weight (cr_members c ! i) \<and> (if holds m then fuel s m else 0) < fuel (cr_store c) (cr_members c ! i)" by blast
    with holder[OF True h l this] i l show ?thesis by (simp add: turn_def)
  next
    case h: False
    from free_move[OF ok h i(2,3)] obtain l m where
      "move (cr_store c) (cr_locked c) (cr_members c ! i) = Some (Inr (cr_store c, l, m))"
      "ok (cr_store c) m" "weight m < weight (cr_members c ! i)"
      "l = cr_locked c \<and> \<not> holds m \<or> \<not> cr_locked c \<and> l \<and> holds m" by blast
    with free[OF True h this] i show ?thesis by (simp add: turn_def)
  qed
qed

lemma turn_ok:
  assumes "crowd_ok c"
  shows "\<exists>c'. turn move waits i c = Some (Inr c') \<and> crowd_ok c' \<and>
    length (cr_members c') = length (cr_members c) \<and>
    (if can_move i c then (c', c) \<in> less_work else c' = c)"
proof (rule turn_cases[OF assms, of i], goal_cases)
  case 1
  then show ?thesis using assms by simp
next
  case free: (2 l m)
  let ?c' = "\<lparr>cr_store = cr_store c, cr_locked = l, cr_members = (cr_members c)[i := m]\<rparr>"
  have i: "i < length (cr_members c)" using free(1) by (simp add: can_move_def)
  have "crowd_ok ?c'" using free(2,4,6) by (intro crowd_ok_update[OF assms i]) auto
  moreover have "(?c', c) \<in> less_work"
    using sum_list_update_less[OF i, of weight m] free(5) by (simp add: less_work_def work_def)
  ultimately show ?thesis using free(1,7) by auto
next
  case holder: (3 s m)
  let ?c' = "\<lparr>cr_store = s, cr_locked = holds m, cr_members = (cr_members c)[i := m]\<rparr>"
  have i: "i < length (cr_members c)" using holder(1) by (simp add: can_move_def)
  have ok: "crowd_ok ?c'" using holder(2,5) by (intro crowd_ok_update[OF assms i]) auto
  have "(?c', c) \<in> less_work"
  proof (cases "weight m < weight (cr_members c ! i)")
    case True
    then show ?thesis using sum_list_update_less[OF i, of weight m] by (simp add: less_work_def work_def)
  next
    case False
    with holder(6) have m: "weight m = weight (cr_members c ! i)"
      "holder_fuel s m < fuel (cr_store c) (cr_members c ! i)" by (auto simp: holder_fuel_def)
    have "map (holder_fuel s) ((cr_members c)[i := m]) =
        (map (holder_fuel (cr_store c)) (cr_members c))[i := holder_fuel s m]"
      using only_holder(2)[OF assms holder(2) i] i
      by (intro nth_equalityI) (auto simp: nth_list_update holder_fuel_def)
    moreover have "sum_list ((map (holder_fuel (cr_store c)) (cr_members c))[i := holder_fuel s m]) <
        sum_list (map (holder_fuel (cr_store c)) (cr_members c))"
      using sum_list_update_less[of i "map (holder_fuel (cr_store c)) (cr_members c)" "\<lambda>x. x" "holder_fuel s m"]
        i m(2) holder(2) by (simp add: holder_fuel_def[of "cr_store c" "cr_members c ! i"])
    ultimately show ?thesis
      using sum_list_update_same[OF i, of weight m] m(1) by (simp add: less_work_def work_def)
  qed
  with ok show ?thesis using holder(1,7) by auto
qed

lemma somebody_can_move:
  assumes "crowd_ok c" "\<exists>m \<in> set (cr_members c). \<not> ended m"
  shows "\<exists>i. can_move i c"
proof (cases "cr_locked c")
  case True
  with assms(1) obtain i where "i < length (cr_members c)" "holds (cr_members c ! i)"
    unfolding crowd_ok_def by blast
  then show ?thesis using waits_free[of "cr_members c ! i"] unfolding can_move_def by blast
next
  case False
  then show ?thesis using assms(2) by (auto simp: in_set_conv_nth can_move_def)
qed

text \<open>So schedules run, and fair ones end.\<close>

sublocale scheduled move waits ended crowd_ok can_move less_work
  by unfold_locales (use wf_less_work turn_ok somebody_can_move can_move_def in auto)

text \<open>A process that has ended stays as it is while others go on.\<close>

lemma ended_turn:
  assumes "crowd_ok c" "turn move waits j c = Some (Inr c')" "i < length (cr_members c)" "ended (cr_members c ! i)"
  shows "cr_members c' ! i = cr_members c ! i"
proof (rule turn_cases[OF assms(1), of j])
  show ?thesis if "turn move waits j c = Some (Inr c)" using that assms(2) by simp
qed (use assms in \<open>auto simp: can_move_def nth_list_update\<close>)

lemma ended_member:
  assumes "crowd_ok c" "run_schedule move waits is c = Some (Inr c')" "i < length (cr_members c)"
    "ended (cr_members c ! i)"
  shows "cr_members c' ! i = cr_members c ! i"
  using assms
proof (induction "is" arbitrary: c)
  case (Cons j "is")
  obtain c1 where c1: "turn move waits j c = Some (Inr c1)" "crowd_ok c1"
    "length (cr_members c1) = length (cr_members c)" using turn_ok[OF Cons.prems(1), of j] by blast
  with ended_turn[OF Cons.prems(1) c1(1) Cons.prems(3,4)] Cons.IH[OF c1(2)] Cons.prems(2-4)
  show ?case by simp
qed simp

lemma crowd_ok_join:
  assumes "crowd_ok c" "ok (cr_store c) m" "\<not> holds m"
  shows "crowd_ok (c\<lparr>cr_members := cr_members c @ [m]\<rparr>)"
proof -
  have "\<exists>i < Suc (length (cr_members c)). holds ((cr_members c @ [m]) ! i)" if "cr_locked c"
  proof -
    obtain i where "i < length (cr_members c)" "holds (cr_members c ! i)"
      using assms(1) \<open>cr_locked c\<close> by (auto simp: crowd_ok_def)
    then show ?thesis by (intro exI[of _ i]) (simp add: nth_append)
  qed
  with assms show ?thesis unfolding crowd_ok_def by (auto simp: nth_append less_Suc_eq)
qed

text \<open>
  A process in front of the others, which takes no turn: the others go on as they would, but for the
  mutex, if it has it.
\<close>

lemma crowd_ok_ahead:
  assumes "\<not> holds m"
  shows "crowd_ok (ahead m c) \<longleftrightarrow> crowd_ok c \<and> ok (cr_store c) m"
  using assms by (simp add: crowd_ok_def All_less_Suc2 Ex_less_Suc2) blast

lemma can_move_ahead: "can_move (Suc i) (ahead m c) = can_move i c"
  by (simp add: can_move_def)

lemma work_ahead:
  assumes "\<And>s s'. fuel s m = fuel s' m"
  shows "(work (ahead m c'), work (ahead m c)) \<in> less_than <*lex*> less_than \<longleftrightarrow>
    (work c', work c) \<in> less_than <*lex*> less_than"
  using assms[of "cr_store c" "cr_store c'"] by (auto simp: work_def holder_fuel_def)

lemma run_behind:
  assumes "crowd_ok (ahead m c)" "\<And>s s'. fuel s m = fuel s' m"
  obtains c' where "run_schedule move waits is c = Some (Inr c')"
    "run_schedule move waits (map Suc is) (ahead m c) = Some (Inr (ahead m c'))" "crowd_ok (ahead m c')"
    "length (cr_members c') = length (cr_members c)"
    "\<And>i. i < length (cr_members c) \<Longrightarrow> ended (cr_members c ! i) \<Longrightarrow> ended (cr_members c' ! i)"
    "(work c', work c) \<in> less_than <*lex*> less_than \<or> c' = c \<and> (\<forall>i \<in> set is. \<not> can_move i c)"
proof -
  obtain c1 where c1: "run_schedule move waits (map Suc is) (ahead m c) = Some (Inr c1)" "crowd_ok c1"
    "length (cr_members c1) = length (cr_members (ahead m c))"
    "(c1, ahead m c) \<in> less_work\<^sup>+ \<or> c1 = ahead m c \<and> (\<forall>i \<in> set (map Suc is). \<not> can_move i (ahead m c))"
    by (rule run_progress[OF assms(1), of "map Suc is"])
  obtain c' where c': "run_schedule move waits is c = Some (Inr c')" "c1 = ahead m c'"
    by (rule run_ahead_Inr[OF c1(1)])
  have "ended (cr_members c' ! i)" if "i < length (cr_members c)" "ended (cr_members c ! i)" for i
    using ended_member[OF assms(1) c1(1), of "Suc i"] that c'(2) by simp
  moreover have "(work c', work c) \<in> less_than <*lex*> less_than \<or> c' = c \<and> (\<forall>i \<in> set is. \<not> can_move i c)"
    using c1(4) unfolding trancl_less_work c'(2) work_ahead[OF assms(2)]
    by (auto simp: can_move_ahead)
  ultimately show thesis using that[OF c'(1)] c1 c'(2) by simp
qed

text \<open>At most one process holds the mutex, after any schedule.\<close>

lemma one_holder:
  assumes "crowd_ok c" "run_schedule move waits is c = Some (Inr c')"
    "i < length (cr_members c')" "j < length (cr_members c')"
    "holds (cr_members c' ! i)" "holds (cr_members c' ! j)"
  shows "i = j"
  using run_ok[OF assms(1), of "is"] assms(2-6) by (auto simp: crowd_ok_def)

end

section \<open>The order of the entries\<close>

text \<open>
  A log lists what was put into the store, each entry with its process. \<open>own i L\<close> are the entries
  of process \<open>i\<close>, and \<open>answers\<close> what it was sent back after each of them.
\<close>

definition own :: "nat \<Rightarrow> (nat \<times> 'e) list \<Rightarrow> 'e list" where
  "own i L = map snd (filter (\<lambda>e. fst e = i) L)"

primrec answers ::
  "('s \<Rightarrow> 'e \<Rightarrow> 's) \<Rightarrow> ('s \<Rightarrow> 'o list) \<Rightarrow> nat \<Rightarrow> 's \<Rightarrow> (nat \<times> 'e) list \<Rightarrow> 'o list" where
  "answers app rep i s [] = []"
| "answers app rep i s (e # L) =
     (let s1 = app s (snd e) in (if fst e = i then rep s1 else []) @ answers app rep i s1 L)"

lemma own_snoc: "own i (L @ [(j, p)]) = own i L @ (if j = i then [p] else [])"
  by (simp add: own_def)

lemma answers_snoc:
  "answers app rep i s (L @ [(j, p)]) =
     answers app rep i s L @ (if j = i then rep (app (foldl app s (map snd L)) p) else [])"
  by (induction L arbitrary: s) (simp_all add: Let_def)

text \<open>
  What a process had to do when it joined: the entries of its plan, what it had been sent, and what
  it is sent for a store. \<open>plan m\<close> are the entries process \<open>m\<close> still has to make, \<open>sent m\<close> what it has sent, and \<open>final\<close>
  gives the store and the process when the holder of the mutex lets it go.
\<close>

record ('s, 'e, 'o) past =
  pa_plan :: "'e list"
  pa_sent :: "'o list"
  pa_reply :: "'s \<Rightarrow> 'o list"

locale logged_turns = turn_taking move waits holds ended ok weight fuel
  for move :: "('s, 'm) mover" and waits :: "'m \<Rightarrow> bool" and holds :: "'m \<Rightarrow> bool"
    and ended :: "'m \<Rightarrow> bool" and ok :: "'s \<Rightarrow> 'm \<Rightarrow> bool" and weight :: "'m \<Rightarrow> nat"
    and fuel :: "'s \<Rightarrow> 'm \<Rightarrow> nat" +
  fixes good :: "'m \<Rightarrow> bool"
    and plan :: "'m \<Rightarrow> 'e list"
    and sent :: "'m \<Rightarrow> 'o list"
    and reply :: "'m \<Rightarrow> 's \<Rightarrow> 'o list"
    and final :: "'s \<Rightarrow> 'm \<Rightarrow> 's \<times> 'm"
    and append :: "'s \<Rightarrow> 'e \<Rightarrow> 's"
  assumes free_log: "ok s m \<Longrightarrow> good m \<Longrightarrow> \<not> holds m \<Longrightarrow> \<not> ended m \<Longrightarrow> \<not> (l \<and> waits m) \<Longrightarrow>
      move s l m = Some (Inr (s', l', m')) \<Longrightarrow>
      good m' \<and>
      (if holds m'
       then \<exists>p m1. final s m' = (append s p, m1) \<and> plan m = p # plan m1 \<and>
         sent m1 = sent m @ reply m (append s p) \<and> reply m1 = reply m
       else plan m' = plan m \<and> sent m' = sent m \<and> reply m' = reply m)"
    and holder_log: "ok s m \<Longrightarrow> good m \<Longrightarrow> holds m \<Longrightarrow> move s True m = Some (Inr (s', l', m')) \<Longrightarrow>
      good m' \<and> final s m = (if holds m' then final s' m' else (s', m'))"
    and ended_log: "ok s m \<Longrightarrow> good m \<Longrightarrow> ended m \<Longrightarrow> plan m = []"
begin

definition logged :: "'s \<Rightarrow> (nat \<times> 'e) list \<Rightarrow> 's \<Rightarrow> nat \<Rightarrow> ('s, 'e, 'o) past \<Rightarrow> 'm \<Rightarrow> bool" where
  "logged s0 L s i h m \<longleftrightarrow> good m \<and>
     (if holds m
      then \<exists>p m1. final s m = (append (foldl append s0 (map snd L)) p, m1) \<and>
        pa_plan h = own i L @ p # plan m1 \<and>
        sent m1 = pa_sent h @ answers append (pa_reply h) i s0 L @
          pa_reply h (append (foldl append s0 (map snd L)) p) \<and>
        reply m1 = pa_reply h
      else pa_plan h = own i L @ plan m \<and> sent m = pa_sent h @ answers append (pa_reply h) i s0 L \<and>
        reply m = pa_reply h)"

text \<open>\<open>hs\<close> are the processes as they were when they joined, \<open>s0\<close> is the store at the beginning.\<close>

definition log_ok :: "'s \<Rightarrow> ('s, 'e, 'o) past list \<Rightarrow> (nat \<times> 'e) list \<Rightarrow> ('s, 'm) crowd \<Rightarrow> bool" where
  "log_ok s0 hs L c \<longleftrightarrow> crowd_ok c \<and> length (cr_members c) = length hs \<and> (\<forall>e \<in> set L. fst e < length hs) \<and>
     (\<not> cr_locked c \<longrightarrow> cr_store c = foldl append s0 (map snd L)) \<and>
     (\<forall>i < length hs. logged s0 L (cr_store c) i (hs ! i) (cr_members c ! i))"

definition past_of :: "'m \<Rightarrow> ('s, 'e, 'o) past" where
  "past_of m = \<lparr>pa_plan = plan m, pa_sent = sent m, pa_reply = reply m\<rparr>"

lemma log_start:
  assumes "crowd_ok c" "\<not> cr_locked c" "\<forall>m \<in> set (cr_members c). good m"
  shows "log_ok (cr_store c) (map past_of (cr_members c)) [] c"
  using assms by (auto simp: log_ok_def logged_def own_def crowd_ok_def past_of_def)

text \<open>What a step of a process does to its part of the log, outside the section and in it.\<close>

lemma free_logged:
  assumes "logged s0 L s i h m" "ok s m" "\<not> holds m" "\<not> ended m" "\<not> (l \<and> waits m)"
    "move s l m = Some (Inr (s, l1, m1))" "holds m1 \<Longrightarrow> s = foldl append s0 (map snd L)"
  shows "logged s0 L s i h m1"
proof -
  have "good m" using assms(1) by (simp add: logged_def)
  from free_log[OF assms(2) this assms(3-6)] assms(1,3,7) show ?thesis
    by (auto simp: logged_def split: if_splits)
qed

lemma holder_logged:
  assumes "logged s0 L s i h m" "ok s m" "holds m" "move s True m = Some (Inr (s1, l1, m1))"
  shows "if holds m1 then logged s0 L s1 i h m1
    else \<exists>p. s1 = foldl append s0 (map snd L @ [p]) \<and> logged s0 (L @ [(i, p)]) s1 i h m1"
proof -
  have "good m" using assms(1) by (simp add: logged_def)
  from holder_log[OF assms(2) this assms(3,4)] assms(1,3) show ?thesis
    by (cases "holds m1") (auto simp: logged_def own_snoc answers_snoc)
qed

text \<open>The others do not notice: their entries are the same, and they are not in the section.\<close>

lemma logged_other:
  "logged s0 L s j h m \<Longrightarrow> \<not> holds m \<Longrightarrow> logged s0 L s1 j h m"
  "logged s0 L s j h m \<Longrightarrow> \<not> holds m \<Longrightarrow> j \<noteq> i \<Longrightarrow> logged s0 (L @ [(i, p)]) s1 j h m"
  by (auto simp: logged_def own_snoc answers_snoc)

text \<open>The new log: the old one, or one entry more.\<close>

lemma log_step:
  assumes log: "log_ok s0 hs L c" and i: "i < length hs" and ok': "crowd_ok c'"
    and c': "c' = \<lparr>cr_store = s, cr_locked = l, cr_members = (cr_members c)[i := m]\<rparr>"
    and L': "L' = L \<or> (\<exists>p. L' = L @ [(i, p)])" "\<not> l \<Longrightarrow> s = foldl append s0 (map snd L')" "logged s0 L' s i (hs ! i) m"
    and others: "s = cr_store c \<and> L' = L \<or> (\<forall>j < length hs. j \<noteq> i \<longrightarrow> \<not> holds (cr_members c ! j))"
  shows "log_ok s0 hs L' c'"
proof -
  have "logged s0 L' s j (hs ! j) (cr_members c ! j)" if j: "j < length hs" "j \<noteq> i" for j
  proof -
    have "logged s0 L (cr_store c) j (hs ! j) (cr_members c ! j)" using log j(1) by (simp add: log_ok_def)
    with others j L'(1) show ?thesis using logged_other by blast
  qed
  then show ?thesis using log i ok' L' unfolding c' by (auto simp: log_ok_def nth_list_update)
qed

lemma log_turn:
  assumes log: "log_ok s0 hs L c" and turn: "turn move waits i c = Some (Inr c')"
  shows "\<exists>L'. log_ok s0 hs L' c'"
proof -
  have ok: "crowd_ok c" and len: "length (cr_members c) = length hs"
    and base: "\<not> cr_locked c \<Longrightarrow> cr_store c = foldl append s0 (map snd L)"
    and mem: "\<And>j. j < length hs \<Longrightarrow> logged s0 L (cr_store c) j (hs ! j) (cr_members c ! j)"
    using log by (auto simp: log_ok_def)
  have ok': "crowd_ok c'" using turn_ok[OF ok, of i] turn by auto
  show ?thesis
  proof (rule turn_cases[OF ok, of i], goal_cases)
    case 1
    with turn log show ?case by auto
  next
    case free: (2 l m)
    have i: "i < length hs" "\<not> ended (cr_members c ! i)" "\<not> (cr_locked c \<and> waits (cr_members c ! i))"
      using free(1) len by (auto simp: can_move_def)
    have "ok (cr_store c) (cr_members c ! i)" using ok i(1) len by (auto simp: crowd_ok_def)
    from free_logged[OF mem[OF i(1)] this free(2) i(2,3) free(3)] base free(6)
    have m: "logged s0 L (cr_store c) i (hs ! i) m" by blast
    have c': "c' = \<lparr>cr_store = cr_store c, cr_locked = l, cr_members = (cr_members c)[i := m]\<rparr>"
      using free(7) turn by simp
    have "log_ok s0 hs L c'"
      by (rule log_step[OF log i(1) ok' c' _ _ m]) (use base free(6) in auto)
    then show ?case by blast
  next
    case holder: (3 s m)
    have i: "i < length hs" "i < length (cr_members c)" using holder(1) len by (simp_all add: can_move_def)
    have "ok (cr_store c) (cr_members c ! i)" using ok i by (auto simp: crowd_ok_def)
    note l = holder_logged[OF mem[OF i(1)] this holder(2,4)]
    have c': "c' = \<lparr>cr_store = s, cr_locked = holds m, cr_members = (cr_members c)[i := m]\<rparr>"
      using holder(7) turn by simp
    have others: "\<forall>j < length hs. j \<noteq> i \<longrightarrow> \<not> holds (cr_members c ! j)"
      using only_holder(2)[OF ok holder(2) i(2)] len by simp
    from l obtain L' where L': "L' = L \<or> (\<exists>p. L' = L @ [(i, p)])" "\<not> holds m \<Longrightarrow> s = foldl append s0 (map snd L')"
      "logged s0 L' s i (hs ! i) m"
    proof (cases "holds m")
      case True
      with l that[of L] show ?thesis by simp
    next
      case False
      with l obtain p where "s = foldl append s0 (map snd L @ [p])" "logged s0 (L @ [(i, p)]) s i (hs ! i) m" by auto
      with that[of "L @ [(i, p)]"] show ?thesis by simp
    qed
    have "log_ok s0 hs L' c'" by (rule log_step[OF log i(1) ok' c' L']) (use others in auto)
    then show ?case by blast
  qed
qed

lemma log_run:
  assumes "log_ok s0 hs L c" "run_schedule move waits is c = Some (Inr c')"
  shows "\<exists>L'. log_ok s0 hs L' c'"
  using assms
proof (induction "is" arbitrary: c L)
  case (Cons i "is")
  have "crowd_ok c" using Cons.prems(1) by (simp add: log_ok_def)
  from turn_ok[OF this, of i] obtain c1 where c1: "turn move waits i c = Some (Inr c1)" by blast
  obtain L1 where "log_ok s0 hs L1 c1" using log_turn[OF Cons.prems(1) c1] by blast
  with Cons.IH[of L1 c1] Cons.prems(2) c1 show ?case by simp
qed auto

text \<open>A process that joins, and one that goes on with a new plan after its old one is done.\<close>

lemma log_join:
  assumes "log_ok s0 hs L c" "good m" "ok (cr_store c) m" "\<not> holds m"
  shows "log_ok s0 (hs @ [past_of m]) L (c\<lparr>cr_members := cr_members c @ [m]\<rparr>)"
proof -
  have L: "\<forall>e \<in> set L. fst e \<noteq> length hs" using assms(1) by (auto simp: log_ok_def)
  then have "own (length hs) L = []" by (simp add: own_def filter_empty_conv)
  moreover have "answers append rep (length hs) s0 L = []" for rep
    using L by (induction L arbitrary: s0) (auto simp: Let_def)
  ultimately have "logged s0 L (cr_store c) (length hs) (past_of m) m"
    using assms(2,4) by (simp add: logged_def past_of_def)
  moreover have "crowd_ok (c\<lparr>cr_members := cr_members c @ [m]\<rparr>)"
    using assms(1,3,4) crowd_ok_join by (simp add: log_ok_def)
  ultimately show ?thesis using assms(1) by (auto simp: log_ok_def nth_append less_Suc_eq)
qed

lemma log_resume:
  assumes log: "log_ok s0 hs L c" and i: "i < length hs" "\<not> holds (cr_members c ! i)" "plan (cr_members c ! i) = []"
    and m: "good m" "ok (cr_store c) m" "\<not> holds m" "sent m = sent (cr_members c ! i)" "reply m = reply (cr_members c ! i)"
  shows "log_ok s0 (hs[i := (hs ! i)\<lparr>pa_plan := pa_plan (hs ! i) @ plan m\<rparr>]) L (c\<lparr>cr_members := (cr_members c)[i := m]\<rparr>)"
proof -
  have c: "crowd_ok c" "length (cr_members c) = length hs"
    and l: "logged s0 L (cr_store c) i (hs ! i) (cr_members c ! i)" using log i(1) by (simp_all add: log_ok_def)
  have "crowd_ok \<lparr>cr_store = cr_store c, cr_locked = cr_locked c, cr_members = (cr_members c)[i := m]\<rparr>"
    using i m(2,3) c(2) by (intro crowd_ok_update[OF c(1)]) auto
  moreover have "\<lparr>cr_store = cr_store c, cr_locked = cr_locked c, cr_members = (cr_members c)[i := m]\<rparr> =
      c\<lparr>cr_members := (cr_members c)[i := m]\<rparr>" by simp
  moreover have "logged s0 L (cr_store c) i ((hs ! i)\<lparr>pa_plan := pa_plan (hs ! i) @ plan m\<rparr>) m"
    using l i(2,3) m by (simp add: logged_def)
  ultimately show ?thesis using log c(2) i(1) by (auto simp: log_ok_def nth_list_update)
qed

text \<open>
  When all processes have ended, the store is what the entries in the order of the log make of it;
  each process made the entries it planned, in its order, and was sent the store as it was after
  each of them.
\<close>

lemma ended_entries:
  assumes "log_ok s0 hs L c" "\<forall>m \<in> set (cr_members c). ended m"
  shows "cr_store c = foldl append s0 (map snd L)" "\<not> cr_locked c"
    "i < length hs \<Longrightarrow> own i L = pa_plan (hs ! i) \<and>
       sent (cr_members c ! i) = pa_sent (hs ! i) @ answers append (pa_reply (hs ! i)) i s0 L"
proof -
  have e: "\<not> holds (cr_members c ! i) \<and> ended (cr_members c ! i)" if "i < length hs" for i
    using assms that waits_free[of "cr_members c ! i"] by (auto simp: log_ok_def)
  then show l: "\<not> cr_locked c" using assms(1) by (auto simp: log_ok_def crowd_ok_def)
  then show "cr_store c = foldl append s0 (map snd L)" using assms(1) by (simp add: log_ok_def)
  show "own i L = pa_plan (hs ! i) \<and>
       sent (cr_members c ! i) = pa_sent (hs ! i) @ answers append (pa_reply (hs ! i)) i s0 L" if "i < length hs"
  proof -
    have "ok (cr_store c) (cr_members c ! i)" "logged s0 L (cr_store c) i (hs ! i) (cr_members c ! i)"
      using assms(1) that by (auto simp: log_ok_def crowd_ok_def)
    with e[OF that] ended_log show ?thesis by (auto simp: logged_def)
  qed
qed

lemma entries_in_order:
  assumes "crowd_ok c" "\<not> cr_locked c" "\<forall>m \<in> set (cr_members c). good m"
    "run_schedule move waits is c = Some (Inr c')" "\<forall>m \<in> set (cr_members c'). ended m"
  shows "\<exists>L. cr_store c' = foldl append (cr_store c) (map snd L) \<and>
    (\<forall>i < length (cr_members c). own i L = plan (cr_members c ! i) \<and>
       sent (cr_members c' ! i) = sent (cr_members c ! i) @
         answers append (reply (cr_members c ! i)) i (cr_store c) L)"
proof -
  obtain L where L: "log_ok (cr_store c) (map past_of (cr_members c)) L c'"
    using log_run[OF log_start[OF assms(1-3)] assms(4)] by blast
  note e = ended_entries[OF L assms(5)]
  have "own i L = plan (cr_members c ! i) \<and> sent (cr_members c' ! i) = sent (cr_members c ! i) @
      answers append (reply (cr_members c ! i)) i (cr_store c) L" if "i < length (cr_members c)" for i
    using e(3)[of i] that by (simp add: past_of_def)
  with e(1) show ?thesis by blast
qed

end

end
