(* ===== verification/Server_Crowd.thy ===== *)
theory Server_Crowd
  imports Turns Session_Steps Stamp_Steps
begin

text \<open>
  The server's threads under any schedule: client threads (\<open>main_loop_thread\<close>) and the main thread
  when it writes time stamps (\<open>write_time_stamp\<close>), over one file and one mutex. Each has its own
  world (its connection, its file descriptor, the answers of the calls to come); the content of the
  file and the mutex are shared, and are put into its world before each of its steps. The theory
  shows that these processes satisfy the interfaces of \<open>Turns\<close> for every system with the laws of
  \<open>server_env\<close>.
\<close>

section \<open>The processes\<close>

datatype 'w member =
    Client thread_pc "'w thread"
  | Stamper "byte list" stamp_pc 'w

text \<open>How the shared part of a world is read and replaced.\<close>

record ('s, 'w) sharing =
  sh_store :: "'w \<Rightarrow> 's"
  sh_locked :: "'w \<Rightarrow> bool"
  sh_adopt :: "'s \<Rightarrow> bool \<Rightarrow> 'w \<Rightarrow> 'w"

definition member_move :: "build \<Rightarrow> 'w sys \<Rightarrow> ('s, 'w) sharing \<Rightarrow> ('s, 'w member) mover" where
  "member_move cfg sys sh s l m =
     (case m of
        Client pc t \<Rightarrow>
          if pc = Ended then Some (Inr (s, l, m))
          else
            map_option (\<lambda>r. bindE r (\<lambda>(pc1, t1).
                Inr (sh_store sh (world t1), sh_locked sh (world t1), Client pc1 t1)))
              (thread_small_step cfg sys pc (t\<lparr>world := sh_adopt sh s l (world t)\<rparr>))
      | Stamper stamp pc w \<Rightarrow>
          if stamp_left pc = 0 then Some (Inr (s, l, m))
          else
            let (pc1, w1) = stamp_step cfg sys stamp pc (sh_adopt sh s l w)
            in Some (Inr (sh_store sh w1, sh_locked sh w1, Stamper stamp pc1 w1)))"

fun in_section :: "send_pc \<Rightarrow> bool" where
  "in_section AtLock = False"
| "in_section (Returned _) = False"
| "in_section _ = True"

fun member_waits :: "'w member \<Rightarrow> bool" where
  "member_waits (Client pc _) = (\<exists>keep. pc = InSending keep AtLock)"
| "member_waits (Stamper _ pc _) = (pc = SLock)"

fun member_holds :: "'w member \<Rightarrow> bool" where
  "member_holds (Client pc _) = (case pc of InSending _ spc \<Rightarrow> in_section spc | _ \<Rightarrow> False)"
| "member_holds (Stamper _ pc _) = (pc \<noteq> SLock \<and> stamp_left pc \<noteq> 0)"

fun member_ended :: "'w member \<Rightarrow> bool" where
  "member_ended (Client pc _) = (pc = Ended)"
| "member_ended (Stamper _ pc _) = (stamp_left pc = 0)"

text \<open>
  The thread of a client when its present handler is over: inside \<open>sending_data\<close>, what the rest of
  the handler will make of it when nobody interferes.
\<close>

definition run_result :: "build \<Rightarrow> 'w sys \<Rightarrow> send_pc \<Rightarrow> 'w thread \<Rightarrow> int \<times> 'w thread" where
  "run_result cfg sys pc t =
     (case send_run cfg sys pc t of Some (Inr x) \<Rightarrow> x | _ \<Rightarrow> (- 1, t))"

definition settled :: "build \<Rightarrow> 'w sys \<Rightarrow> thread_pc \<Rightarrow> 'w thread \<Rightarrow> 'w thread" where
  "settled cfg sys pc t =
     (case pc of
        InSending _ spc \<Rightarrow> if spc = AtLock then t else close_on_error (run_result cfg sys spc t)
      | _ \<Rightarrow> t)"

section \<open>How long the mutex is held\<close>

primrec send_ends :: "build \<Rightarrow> 'w sys \<Rightarrow> nat \<Rightarrow> send_pc \<Rightarrow> 'w thread \<Rightarrow> bool" where
  "send_ends cfg sys 0 pc t \<longleftrightarrow> (\<exists>rc. pc = Returned rc)"
| "send_ends cfg sys (Suc n) pc t \<longleftrightarrow>
     (case send_step cfg sys pc t of Inl _ \<Rightarrow> False | Inr (pc1, t1) \<Rightarrow> send_ends cfg sys n pc1 t1)"

definition send_left :: "build \<Rightarrow> 'w sys \<Rightarrow> send_pc \<Rightarrow> 'w thread \<Rightarrow> nat" where
  "send_left cfg sys pc t = (LEAST n. send_ends cfg sys n pc t)"

lemma send_run_ends:
  assumes "send_run cfg sys pc t = Some (Inr x)"
  shows "\<exists>n. send_ends cfg sys n pc t"
proof -
  have "case r of Inl _ \<Rightarrow> True | Inr _ \<Rightarrow> \<exists>n. send_ends cfg sys n pc t"
    if "send_run cfg sys pc t = Some r" for r
  proof (rule send_run.raw_induct[where
        P = "\<lambda>cfg sys pc t r. case r of Inl _ \<Rightarrow> True | Inr _ \<Rightarrow> \<exists>n. send_ends cfg sys n pc t", OF _ that])
    fix f and cfg :: build and sys :: "'a sys" and pc and t :: "'a thread" and r
    assume IH: "\<And>cfg sys pc t r. f cfg sys pc t = Some r \<Longrightarrow>
        case r of Inl _ \<Rightarrow> True | Inr _ \<Rightarrow> \<exists>n. send_ends cfg sys n pc t"
      and body: "(case pc of
        Returned rc \<Rightarrow> Some (Inr (rc, t))
      | _ \<Rightarrow> (case send_step cfg sys pc t of Inl f \<Rightarrow> Some (Inl f) | Inr (pc1, t1) \<Rightarrow> f cfg sys pc1 t1)) = Some r"
    show "case r of Inl _ \<Rightarrow> True | Inr _ \<Rightarrow> \<exists>n. send_ends cfg sys n pc t"
    proof (cases "\<exists>rc. pc = Returned rc")
      case True
      then have "\<exists>n. send_ends cfg sys n pc t" by (intro exI[of _ 0]) simp
      then show ?thesis by (simp split: sum.splits)
    next
      case False
      then have b: "(case send_step cfg sys pc t of Inl f \<Rightarrow> Some (Inl f) | Inr (pc1, t1) \<Rightarrow> f cfg sys pc1 t1) = Some r"
        using body by (cases pc) simp_all
      show ?thesis
      proof (cases r)
        case (Inr y)
        with b obtain pc1 t1 where q: "send_step cfg sys pc t = Inr (pc1, t1)" "f cfg sys pc1 t1 = Some r"
          by (auto split: sum.splits)
        from IH[OF q(2)] Inr obtain n where "send_ends cfg sys n pc1 t1" by auto
        with q(1) have "send_ends cfg sys (Suc n) pc t" by simp
        then have "\<exists>n. send_ends cfg sys n pc t" by blast
        with Inr show ?thesis by simp
      qed simp
    qed
  qed
  from this[OF assms] show ?thesis by simp
qed

lemma send_left_less:
  assumes "send_run cfg sys pc t = Some (Inr x)" "in_section pc" "send_step cfg sys pc t = Inr (pc1, t1)"
  shows "send_left cfg sys pc1 t1 < send_left cfg sys pc t"
proof -
  obtain n where n: "send_ends cfg sys n pc t" using send_run_ends[OF assms(1)] ..
  have "\<not> send_ends cfg sys 0 pc t" using assms(2) by auto
  from Least_Suc[of "\<lambda>n. send_ends cfg sys n pc t", OF n this] assms(3) show ?thesis
    by (simp add: send_left_def)
qed

lemma send_run_section:
  assumes "in_section pc \<or> pc = AtLock" "send_step cfg sys pc t = Inr (pc1, t1)"
  shows "send_run cfg sys pc t = send_run cfg sys pc1 t1"
  using assms by (subst send_run_step) auto

section \<open>The laws of the processes\<close>

locale crowd_env = server_env sys inv store pos locked inbox outbox reliable ready append bytes
  for sys :: "'w sys" and inv :: "'w \<Rightarrow> bool" and store :: "'w \<Rightarrow> 's" and pos :: "'w \<Rightarrow> nat"
    and locked :: "'w \<Rightarrow> bool" and inbox :: "'w \<Rightarrow> byte list" and outbox :: "'w \<Rightarrow> byte list"
    and reliable :: "'w \<Rightarrow> bool" and ready :: "'w \<Rightarrow> bool"
    and append :: "'s \<Rightarrow> byte list \<Rightarrow> 's" and bytes :: "'s \<Rightarrow> byte list" +
  fixes cfg :: build
    and adopt :: "'s \<Rightarrow> bool \<Rightarrow> 'w \<Rightarrow> 'w"
    and h0 :: memory
  assumes locking: "\<not> disable_locking cfg"
    and adopt_view: "inv w \<Longrightarrow> inv (adopt s l w) \<and> store (adopt s l w) = s \<and> locked (adopt s l w) = l \<and>
      inbox (adopt s l w) = inbox w \<and> outbox (adopt s l w) = outbox w \<and> reliable (adopt s l w) = reliable w"
    and adopt_same: "adopt (store w) (locked w) w = w"
begin

abbreviation sh :: "('s, 'w) sharing" where
  "sh \<equiv> \<lparr>sh_store = store, sh_locked = locked, sh_adopt = adopt\<rparr>"

abbreviation load_thread :: "'s \<Rightarrow> bool \<Rightarrow> 'w thread \<Rightarrow> 'w thread" where
  "load_thread s l t \<equiv> t\<lparr>world := adopt s l (world t)\<rparr>"

text \<open>What holds at each place inside the critical section.\<close>

definition packet_ready :: "'w thread \<Rightarrow> bool" where
  "packet_ready t \<longleftrightarrow> buffers_ok t \<and> received t \<noteq> [] \<and> last (received t) = newline \<and>
     length (received t) < 2 ^ 31"

definition section_ok :: "send_pc \<Rightarrow> 'w thread \<Rightarrow> bool" where
  "section_ok pc t \<longleftrightarrow> inv (world t) \<and> locked (world t) \<and>
     (case pc of
        AtOpen \<Rightarrow> packet_ready t
      | AtWrite _ \<Rightarrow> packet_ready t \<and> ready (world t)
      | AtSeek _ \<Rightarrow> ready (world t)
      | AtSend _ _ n \<Rightarrow> 0 \<le> n
      | _ \<Rightarrow> True)"

lemma release_locked:
  assumes "inv w" "locked w" "release_file_mutex cfg sys w = (rc, w')"
  shows "inv w'" "\<not> locked w'" "rc = 0"
  using release_file_mutex_ok[OF assms(1) _ assms(3)] assms(2) locking by (auto simp: quiet_def)

lemma section_write:
  assumes "section_ok (AtWrite fd) t"
  shows "\<exists>pc1 t1. send_step cfg sys (AtWrite fd) t = Inr (pc1, t1) \<and> in_section pc1 \<and> section_ok pc1 t1"
proof -
  have w: "inv (world t)" "locked (world t)" "packet_ready t" "ready (world t)"
    using assms by (auto simp: section_ok_def)
  note rd = received_read[of t] and p = w(3)[unfolded packet_ready_def]
  obtain rc w1 where o: "write_to_file sys fd (received t) (world t) = (rc, w1)"
    by (cases "write_to_file sys fd (received t) (world t)")
  have "received t \<noteq> []" "last (received t) = newline" "length (received t) < 2 ^ 31" using p by auto
  from write_to_file_ok[OF w(1) this o] rd p o w show ?thesis by (auto simp: section_ok_def)
qed

lemma section_send:
  assumes "section_ok (AtSend fd buf n) t"
  shows "\<exists>pc1 t1. send_step cfg sys (AtSend fd buf n) t = Inr (pc1, t1) \<and> in_section pc1 \<and> section_ok pc1 t1"
proof (cases "n < int (length buf)")
  case False
  with assms show ?thesis by (auto simp: section_ok_def)
next
  case True
  have w: "inv (world t)" "locked (world t)" "0 \<le> n" using assms by (auto simp: section_ok_def)
  with True have ne: "drop (nat n) buf \<noteq> []" by auto
  obtain m w1 where s: "sys_send sys (client_fd (t_data t)) (drop (nat n) buf) (world t) = (m, w1)"
    by (cases "sys_send sys (client_fd (t_data t)) (drop (nat n) buf) (world t)")
  from send_law[OF w(1) ne s] s True w show ?thesis by (auto simp: section_ok_def)
qed

lemma section_step:
  assumes "section_ok pc t" "in_section pc"
  shows "\<exists>pc1 t1. send_step cfg sys pc t = Inr (pc1, t1) \<and>
    (in_section pc1 \<and> section_ok pc1 t1 \<or> (\<exists>rc. pc1 = Returned rc) \<and> \<not> locked (world t1))"
proof -
  have w: "inv (world t)" "locked (world t)" using assms(1) by (auto simp: section_ok_def)
  show ?thesis
  proof (cases pc)
    case AtOpen
    obtain fd w1 where o: "open_file_for_read_write sys (world t) = (fd, w1)"
      by (cases "open_file_for_read_write sys (world t)")
    from open_ok[OF w(1) o] assms(1) AtOpen o w show ?thesis
      by (auto simp: section_ok_def same_def packet_ready_def buffers_ok_def)
  next
    case (AtWrite fd)
    from section_write[of fd t] assms(1) AtWrite show ?thesis by blast
  next
    case (AtSeek fd)
    have "ready (world t)" using assms(1) AtSeek by (auto simp: section_ok_def)
    from lseek_law[OF w(1) this, of fd] AtSeek w show ?thesis by (auto simp: section_ok_def same_def)
  next
    case (AtRead fd)
    obtain n bs w1 where o: "read_from_file sys fd SEND_BUFFER_SIZE (world t) = ((n, bs), w1)"
      by (metis prod.exhaust)
    from read_from_file_ok[OF w(1) o] AtRead o w show ?thesis by (auto simp: section_ok_def same_def)
  next
    case (AtSend fd buf n)
    from section_send[of fd buf n t] assms(1) AtSend show ?thesis by blast
  next
    case (AtClose fd)
    obtain n w1 where o: "sys_close sys fd (world t) = (n, w1)" by (cases "sys_close sys fd (world t)")
    from close_law[OF w(1) o] AtClose o w show ?thesis by (auto simp: section_ok_def same_def)
  next
    case AtRelease
    obtain n w1 where o: "release_file_mutex cfg sys (world t) = (n, w1)"
      by (cases "release_file_mutex cfg sys (world t)")
    from release_locked[OF w o] AtRelease o show ?thesis by (auto simp: Let_def)
  next
    case (AtFailedClose fd)
    from close_law[OF w(1) surjective_pairing, of fd] AtFailedClose w show ?thesis
      by (auto simp: section_ok_def same_def)
  next
    case AtFailedRelease
    from release_locked[OF w surjective_pairing] AtFailedRelease show ?thesis by simp
  qed (use assms(2) in auto)
qed

text \<open>The invariant of a client thread at each place; only the holder looks at the store.\<close>

definition client_ok :: "'s \<Rightarrow> thread_pc \<Rightarrow> 'w thread \<Rightarrow> bool" where
  "client_ok s pc t \<longleftrightarrow>
     (case pc of
        AtTop \<Rightarrow> session_inv h0 t
      | Ended \<Rightarrow> True
      | InSending _ spc \<Rightarrow>
          if spc = AtLock then session_inv h0 t \<and> thread_state (t_data t) = SendingData
          else (\<exists>x. send_run cfg sys spc t = Some (Inr x) \<and> session_inv h0 (close_on_error x)) \<and>
            (in_section spc \<longrightarrow> section_ok spc t \<and> store (world t) = s))"

definition client_weight :: "thread_pc \<Rightarrow> 'w thread \<Rightarrow> nat" where
  "client_weight pc t =
     (case pc of
        AtTop \<Rightarrow> 3 * togo t + 3
      | Ended \<Rightarrow> 0
      | InSending _ spc \<Rightarrow> if spc = AtLock then 3 * togo t + 2 else 3 * togo (settled cfg sys pc t) + 4)"

definition client_good :: "thread_pc \<Rightarrow> 'w thread \<Rightarrow> bool" where
  "client_good pc t \<longleftrightarrow> (case pc of InSending keep _ \<Rightarrow> keep | _ \<Rightarrow> True) \<and>
     reliable (world (settled cfg sys pc t)) \<and> bd_buffer (rb_new (settled cfg sys pc t)) \<noteq> None"

definition client_plan :: "thread_pc \<Rightarrow> 'w thread \<Rightarrow> byte list list" where
  "client_plan pc t = (if pc = Ended then [] else todo (settled cfg sys pc t))"

lemmas client_defs = client_ok_def client_weight_def client_good_def client_plan_def settled_def

lemma run_result_Some: "send_run cfg sys pc t = Some (Inr x) \<Longrightarrow> run_result cfg sys pc t = x"
  by (simp add: run_result_def)

lemma load_session:
  assumes "session_inv h0 t"
  shows "session_inv h0 (load_thread s l t)" "togo (load_thread s l t) = togo t"
    "todo (load_thread s l t) = todo t"
proof -
  have "inv (world t)" using assms by (simp add: session_inv_def)
  note v = adopt_view[OF this, of s l]
  show "session_inv h0 (load_thread s l t)" "togo (load_thread s l t) = togo t"
    "todo (load_thread s l t) = todo t"
    using session_world[of "adopt s l (world t)" t] v assms by simp_all
qed

text \<open>A pass outside the critical section.\<close>

definition outside_move :: "'w thread \<Rightarrow> thread_pc \<Rightarrow> 'w thread \<Rightarrow> bool" where
  "outside_move t pc1 t1 \<longleftrightarrow>
     store (world t1) = store (world t) \<and> locked (world t1) = locked (world t) \<and>
     client_ok (store (world t)) pc1 t1 \<and> \<not> member_holds (Client pc1 t1) \<and>
     client_weight pc1 t1 < 3 * togo t + 3 \<and>
     (reliable (world t) \<and> bd_buffer (rb_new t) \<noteq> None \<longrightarrow>
        client_good pc1 t1 \<and> client_plan pc1 t1 = todo t \<and>
        outbox (world (settled cfg sys pc1 t1)) = outbox (world t))"

lemma top_move:
  assumes "session_inv h0 t"
  shows "\<exists>pc1 t1. thread_small_step cfg sys AtTop t = Some (Inr (pc1, t1)) \<and> outside_move t pc1 t1"
proof -
  from top_step[OF assms, of cfg] obtain pc1 t1 where
    s: "thread_small_step cfg sys AtTop t = Some (Inr (pc1, t1))" "outside_step h0 t pc1 t1" by blast
  have "outside_move t pc1 t1"
    using s(2) by (cases pc1) (auto simp: outside_step_def outside_move_def private_turn_def client_defs)
  with s(1) show ?thesis by blast
qed

text \<open>The call that takes the mutex, when it is free.\<close>

lemma lock_move:
  assumes "session_inv h0 t" "thread_state (t_data t) = SendingData" "\<not> locked (world t)"
  shows "\<exists>pc1 t1. send_step cfg sys AtLock t = Inr (pc1, t1) \<and> store (world t1) = store (world t) \<and>
    locked (world t1) = in_section pc1 \<and> pc1 \<noteq> AtLock \<and> client_ok (store (world t)) (InSending keep pc1) t1 \<and>
    client_weight (InSending keep pc1) t1 < 3 * togo t + 2 \<and>
    (reliable (world t) \<and> bd_buffer (rb_new t) \<noteq> None \<longrightarrow>
       in_section pc1 \<and> (keep \<longrightarrow> client_good (InSending keep pc1) t1) \<and>
       (\<exists>p. todo t = p # client_plan (InSending keep pc1) t1 \<and>
          store (world (snd (run_result cfg sys pc1 t1))) = append (store (world t)) p \<and>
          outbox (world (settled cfg sys (InSending keep pc1) t1)) =
            outbox (world t) @ bytes (append (store (world t)) p)))"
proof -
  have inv: "inv (world t)" using assms(1) by (simp add: session_inv_def)
  obtain rc w1 where g: "get_file_mutex cfg sys (world t) = (rc, w1)" by (cases "get_file_mutex cfg sys (world t)")
  note mx = get_file_mutex_ok[OF inv assms(3) g]
  have "thread_inv h0 t" using assms by (simp add: thread_inv_def)
  from sending_turn[OF this assms(2)] obtain x where x: "sending_data cfg sys t = Some (Inr x)"
    "thread_inv h0 (close_on_error x)" "togo (close_on_error x) < togo t" "answers_packet t (close_on_error x)"
    by blast
  let ?pc = "if rc = - 1 then Returned (- 1) else AtOpen" and ?t = "t\<lparr>world := w1\<rparr>"
  have st: "send_step cfg sys AtLock t = Inr (?pc, ?t)" using g by simp
  have run: "send_run cfg sys ?pc ?t = Some (Inr x)"
    using send_run_section[OF _ st] x(1) by (simp add: sending_data_run)
  have res: "run_result cfg sys ?pc ?t = x" using run by (rule run_result_Some)
  have ws: "world (close_on_error x) = world (snd x)"
    by (cases x; cases "fst x = - 1") simp_all
  have pr: "packet_ready ?t"
    using assms(1,2) by (auto simp: session_inv_def packet_ready_def buffers_ok_def load_def)
  have sec: "section_ok AtOpen ?t" if "rc \<noteq> - 1"
    using mx that locking pr by (auto simp: section_ok_def quiet_def)
  have ok: "client_ok (store (world t)) (InSending keep ?pc) ?t"
    using run x(2) sec mx by (auto simp: client_ok_def thread_inv_def quiet_def)
  have weight: "client_weight (InSending keep ?pc) ?t < 3 * togo t + 2"
    using res x(3) by (auto simp: client_weight_def settled_def)
  have good: "rc \<noteq> - 1" if "reliable (world t)" using mx(2)[OF that] by simp
  have set: "settled cfg sys (InSending keep ?pc) ?t = close_on_error x"
    using res by (simp add: settled_def)
  have "store w1 = store (world t)" "locked w1 = (rc \<noteq> - 1)"
    using mx locking by (auto simp: quiet_def)
  with st ok weight good set res x(4) ws show ?thesis
    by (intro exI[of _ ?pc] exI[of _ ?t])
      (auto simp: answers_packet_def client_good_def client_plan_def)
qed

text \<open>The return from the handler.\<close>

lemma returned_move:
  assumes "client_ok s (InSending keep (Returned rc)) t"
  shows "\<exists>pc1 t1. thread_small_step cfg sys (InSending keep (Returned rc)) t = Some (Inr (pc1, t1)) \<and>
    world t1 = world t \<and> client_ok s pc1 t1 \<and> \<not> member_holds (Client pc1 t1) \<and>
    client_weight pc1 t1 < client_weight (InSending keep (Returned rc)) t \<and>
    (client_good (InSending keep (Returned rc)) t \<longrightarrow>
       client_good pc1 t1 \<and> client_plan pc1 t1 = client_plan (InSending keep (Returned rc)) t \<and>
       outbox (world (settled cfg sys pc1 t1)) = outbox (world (settled cfg sys (InSending keep (Returned rc)) t)))"
proof -
  have r: "run_result cfg sys (Returned rc) t = (rc, t)" by (simp add: run_result_def)
  have s: "session_inv h0 (close_on_error (rc, t))" using assms by (simp add: client_ok_def)
  have w: "world (close_on_error (rc, t)) = world t" by (cases "rc = - 1") simp_all
  show ?thesis
    using s r w by (auto simp: small_step_InSending leave_ok[OF s] client_defs)
qed

text \<open>A step inside the critical section.\<close>

lemma section_move:
  assumes "client_ok s (InSending keep pc) t" "in_section pc"
  shows "\<exists>pc1 t1. send_step cfg sys pc t = Inr (pc1, t1) \<and> pc1 \<noteq> AtLock \<and>
    locked (world t1) = in_section pc1 \<and> client_ok (store (world t1)) (InSending keep pc1) t1 \<and>
    settled cfg sys (InSending keep pc1) t1 = settled cfg sys (InSending keep pc) t \<and>
    run_result cfg sys pc1 t1 = run_result cfg sys pc t \<and>
    send_left cfg sys pc1 t1 < send_left cfg sys pc t"
proof -
  have ne: "pc \<noteq> AtLock" using assms(2) by auto
  from assms ne obtain x where run: "send_run cfg sys pc t = Some (Inr x)" and
    si: "session_inv h0 (close_on_error x)" and sec: "section_ok pc t"
    by (auto simp: client_ok_def)
  from section_step[OF sec assms(2)] obtain pc1 t1 where st: "send_step cfg sys pc t = Inr (pc1, t1)"
    "in_section pc1 \<and> section_ok pc1 t1 \<or> (\<exists>rc. pc1 = Returned rc) \<and> \<not> locked (world t1)" by blast
  have run1: "send_run cfg sys pc1 t1 = Some (Inr x)"
    using send_run_section[OF _ st(1)] assms(2) run by simp
  have ne1: "pc1 \<noteq> AtLock" using st(2) by auto
  have l: "locked (world t1) = in_section pc1" using st(2) by (auto simp: section_ok_def)
  show ?thesis
    using st run run1 ne ne1 l si send_left_less[OF run assms(2) st(1)]
    by (auto simp: client_ok_def settled_def run_result_def)
qed

text \<open>A client thread with the shared state put in, as \<open>Turns\<close> asks for it.\<close>

definition free_move :: "'s \<Rightarrow> bool \<Rightarrow> thread_pc \<Rightarrow> 'w thread \<Rightarrow> bool \<Rightarrow> thread_pc \<Rightarrow> 'w thread \<Rightarrow> bool" where
  "free_move s l pc t l' pc1 t1 \<longleftrightarrow>
    member_move cfg sys sh s l (Client pc t) = Some (Inr (s, l', Client pc1 t1)) \<and>
    client_ok s pc1 t1 \<and> client_weight pc1 t1 < client_weight pc t \<and>
    (l' = l \<and> \<not> member_holds (Client pc1 t1) \<or> \<not> l \<and> l' \<and> member_holds (Client pc1 t1)) \<and>
    (client_good pc t \<longrightarrow> client_good pc1 t1 \<and>
      (if member_holds (Client pc1 t1)
       then \<exists>p keep spc. pc1 = InSending keep spc \<and> client_plan pc t = p # client_plan pc1 t1 \<and>
         store (world (snd (run_result cfg sys spc t1))) = append s p \<and>
         outbox (world (settled cfg sys pc1 t1)) = outbox (world (settled cfg sys pc t)) @ bytes (append s p)
       else client_plan pc1 t1 = client_plan pc t \<and>
         outbox (world (settled cfg sys pc1 t1)) = outbox (world (settled cfg sys pc t))))"

lemma free_top:
  assumes "client_ok s AtTop t"
  shows "\<exists>l' pc1 t1. free_move s l AtTop t l' pc1 t1"
proof -
  have s: "session_inv h0 t" using assms by (simp add: client_ok_def)
  then have "inv (world t)" by (simp add: session_inv_def)
  note v = adopt_view[OF this, of s l] and ld = load_session[OF s, of s l]
  from top_move[OF ld(1)] obtain pc1 t1 where m: "thread_small_step cfg sys AtTop (load_thread s l t) = Some (Inr (pc1, t1))"
    "outside_move (load_thread s l t) pc1 t1" by blast
  then show ?thesis using v ld
    by (intro exI[of _ l] exI[of _ pc1] exI[of _ t1])
      (auto simp: free_move_def member_move_def outside_move_def client_weight_def client_good_def client_plan_def settled_def)
qed

lemma free_lock:
  assumes "client_ok s (InSending keep AtLock) t" "\<not> l"
  shows "\<exists>l' pc1 t1. free_move s l (InSending keep AtLock) t l' pc1 t1"
proof -
  let ?pc = "InSending keep AtLock"
  have s: "session_inv h0 t" "thread_state (t_data t) = SendingData" "\<not> l"
    using assms by (simp_all add: client_ok_def)
  then have "inv (world t)" by (simp add: session_inv_def)
  note v = adopt_view[OF this, of s False] and ld = load_session[OF s(1), of s False]
  from lock_move[OF ld(1), of keep] s(2) v obtain pc1 t1 where
    m: "send_step cfg sys AtLock (load_thread s False t) = Inr (pc1, t1)" "store (world t1) = s"
      "locked (world t1) = in_section pc1" "pc1 \<noteq> AtLock" "client_ok s (InSending keep pc1) t1"
      "client_weight (InSending keep pc1) t1 < 3 * togo t + 2"
      "reliable (world t) \<and> bd_buffer (rb_new t) \<noteq> None \<Longrightarrow>
         in_section pc1 \<and> (keep \<longrightarrow> client_good (InSending keep pc1) t1) \<and>
         (\<exists>p. todo t = p # client_plan (InSending keep pc1) t1 \<and>
            store (world (snd (run_result cfg sys pc1 t1))) = append s p \<and>
            outbox (world (settled cfg sys (InSending keep pc1) t1)) = outbox (world t) @ bytes (append s p))"
    unfolding ld(2,3) by auto
  have "member_move cfg sys sh s l (Client ?pc t) =
      Some (Inr (s, in_section pc1, Client (InSending keep pc1) t1))"
    using s(3) m(1-3) by (simp add: member_move_def small_step_InSending del: send_step.simps)
  moreover have "client_weight ?pc t = 3 * togo t + 2" "settled cfg sys ?pc t = t" "client_plan ?pc t = todo t"
    "client_good ?pc t \<longleftrightarrow> keep \<and> reliable (world t) \<and> bd_buffer (rb_new t) \<noteq> None"
    by (auto simp: client_weight_def settled_def client_plan_def client_good_def)
  ultimately show ?thesis using m(4-7) s(3)
    by (intro exI[of _ "in_section pc1"] exI[of _ "InSending keep pc1"] exI[of _ t1]) (auto simp: free_move_def)
qed

text \<open>Putting the shared state in does not change what a returned handler leads to.\<close>

lemma returned_load:
  assumes "client_ok s (InSending keep (Returned rc)) t"
  shows "client_ok s (InSending keep (Returned rc)) (load_thread s l t)"
    "client_good (InSending keep (Returned rc)) (load_thread s l t) = client_good (InSending keep (Returned rc)) t"
    "client_plan (InSending keep (Returned rc)) (load_thread s l t) = client_plan (InSending keep (Returned rc)) t"
    "client_weight (InSending keep (Returned rc)) (load_thread s l t) = client_weight (InSending keep (Returned rc)) t"
    "outbox (world (settled cfg sys (InSending keep (Returned rc)) (load_thread s l t))) =
     outbox (world (settled cfg sys (InSending keep (Returned rc)) t))"
    "store (adopt s l (world t)) = s" "locked (adopt s l (world t)) = l"
proof -
  let ?x = "close_on_error (rc, t)"
  have si: "session_inv h0 ?x" using assms by (simp add: client_ok_def)
  have w: "world ?x = world t" by (cases "rc = - 1") simp_all
  have x: "close_on_error (rc, load_thread s l t) = load_thread s l ?x"
    by (cases "rc = - 1") (simp_all add: set_state_def)
  have "inv (world t)" using si w by (simp add: session_inv_def)
  note v = adopt_view[OF this, of s l] and ld = load_session[OF si, of s l]
  show "client_ok s (InSending keep (Returned rc)) (load_thread s l t)"
    using ld(1) x w by (simp add: client_ok_def)
  show "client_good (InSending keep (Returned rc)) (load_thread s l t) = client_good (InSending keep (Returned rc)) t"
    "client_plan (InSending keep (Returned rc)) (load_thread s l t) = client_plan (InSending keep (Returned rc)) t"
    "client_weight (InSending keep (Returned rc)) (load_thread s l t) = client_weight (InSending keep (Returned rc)) t"
    "outbox (world (settled cfg sys (InSending keep (Returned rc)) (load_thread s l t))) =
     outbox (world (settled cfg sys (InSending keep (Returned rc)) t))"
    using ld(2,3) v w
    by (simp_all add: client_defs run_result_def x del: close_on_error_simps)
  show "store (adopt s l (world t)) = s" "locked (adopt s l (world t)) = l" using v by simp_all
qed

lemma free_returned:
  assumes "client_ok s (InSending keep (Returned rc)) t"
  shows "\<exists>l' pc1 t1. free_move s l (InSending keep (Returned rc)) t l' pc1 t1"
proof -
  note same0 = returned_load(1)[OF assms, of l] and same = returned_load(2-7)[OF assms, of l]
  from returned_move[OF same0] obtain pc1 t1 where
    m: "thread_small_step cfg sys (InSending keep (Returned rc)) (load_thread s l t) = Some (Inr (pc1, t1))"
      "world t1 = adopt s l (world t)" "client_ok s pc1 t1" "\<not> member_holds (Client pc1 t1)"
      "client_weight pc1 t1 < client_weight (InSending keep (Returned rc)) t"
      "client_good (InSending keep (Returned rc)) t \<longrightarrow> client_good pc1 t1 \<and> client_plan pc1 t1 = client_plan (InSending keep (Returned rc)) t \<and>
        outbox (world (settled cfg sys pc1 t1)) = outbox (world (settled cfg sys (InSending keep (Returned rc)) t))"
    unfolding same(1-4) by auto
  have "member_move cfg sys sh s l (Client (InSending keep (Returned rc)) t) = Some (Inr (s, l, Client pc1 t1))"
    using m(1,2) same(5,6) by (simp add: member_move_def)
  with m(3-6) show ?thesis
    by (intro exI[of _ l] exI[of _ pc1] exI[of _ t1]) (auto simp: free_move_def)
qed

lemma client_free:
  assumes "client_ok s pc t" "\<not> member_holds (Client pc t)" "pc \<noteq> Ended"
    "\<not> (l \<and> member_waits (Client pc t))"
  shows "\<exists>l' pc1 t1. free_move s l pc t l' pc1 t1"
proof (cases pc)
  case AtTop
  with assms(1) free_top show ?thesis by simp
next
  case (InSending keep spc)
  then have "spc = AtLock \<and> \<not> l \<or> (\<exists>rc. spc = Returned rc)" using assms(2,4) by (cases spc) auto
  with InSending assms(1) free_lock free_returned show ?thesis by auto
qed (use assms(3) in simp)

lemma client_holder:
  assumes "client_ok s (InSending keep pc) t" "in_section pc"
  shows "\<exists>s' pc1 t1. member_move cfg sys sh s True (Client (InSending keep pc) t) =
      Some (Inr (s', in_section pc1, Client (InSending keep pc1) t1)) \<and> s' = store (world t1) \<and> pc1 \<noteq> AtLock \<and>
    client_ok s' (InSending keep pc1) t1 \<and>
    settled cfg sys (InSending keep pc1) t1 = settled cfg sys (InSending keep pc) t \<and>
    run_result cfg sys pc1 t1 = run_result cfg sys pc t \<and>
    send_left cfg sys pc1 t1 < send_left cfg sys pc t"
proof -
  have ne: "pc \<noteq> AtLock" "\<nexists>rc. pc = Returned rc" using assms(2) by auto
  then have "store (world t) = s" "locked (world t)"
    using assms by (auto simp: client_ok_def section_ok_def)
  then have ld: "load_thread s True t = t" using adopt_same[of "world t"] by simp
  from section_move[OF assms] obtain pc1 t1 where
    m: "send_step cfg sys pc t = Inr (pc1, t1)" "pc1 \<noteq> AtLock" "locked (world t1) = in_section pc1"
      "client_ok (store (world t1)) (InSending keep pc1) t1"
      "settled cfg sys (InSending keep pc1) t1 = settled cfg sys (InSending keep pc) t"
      "run_result cfg sys pc1 t1 = run_result cfg sys pc t" "send_left cfg sys pc1 t1 < send_left cfg sys pc t"
    by blast
  have "thread_small_step cfg sys (InSending keep pc) t = Some (Inr (InSending keep pc1, t1))"
    using m(1) ne(2) by (cases pc) (simp_all add: small_step_InSending del: send_step.simps)
  then have "member_move cfg sys sh s True (Client (InSending keep pc) t) =
      Some (Inr (store (world t1), in_section pc1, Client (InSending keep pc1) t1))"
    using m(3) ld by (simp add: member_move_def)
  with m(2,4-7) show ?thesis by blast
qed

section \<open>A time stamp among the threads\<close>

definition stamper_ok :: "'s \<Rightarrow> byte list \<Rightarrow> stamp_pc \<Rightarrow> 'w \<Rightarrow> bool" where
  "stamper_ok s stamp pc w \<longleftrightarrow>
     stamp \<noteq> [] \<and> last stamp = newline \<and> length stamp < 2 ^ 31 \<and> inv w \<and>
     (pc \<noteq> SLock \<and> stamp_left pc \<noteq> 0 \<longrightarrow> locked w \<and> store w = s \<and> (\<exists>s0. stamp_at cfg stamp False s0 pc w))"

lemma stamper_free:
  assumes "stamper_ok s stamp SLock w"
  shows "\<exists>l' pc1 w1. member_move cfg sys sh s False (Stamper stamp SLock w) =
      Some (Inr (s, l', Stamper stamp pc1 w1)) \<and> stamper_ok s stamp pc1 w1 \<and> pc1 \<noteq> SLock \<and>
    l' = (stamp_left pc1 \<noteq> 0) \<and>
    (reliable w \<longrightarrow> reliable w1 \<and> stamp_left pc1 \<noteq> 0 \<and> store (snd (stamp_run cfg sys stamp pc1 w1)) = append s stamp)"
proof -
  have st: "stamp \<noteq> []" "last stamp = newline" "length stamp < 2 ^ 31" "inv w"
    using assms by (auto simp: stamper_ok_def)
  note v = adopt_view[OF st(4), of s False]
  let ?w = "adopt s False w"
  obtain rc w1 where g: "get_file_mutex cfg sys ?w = (rc, w1)" by (cases "get_file_mutex cfg sys ?w")
  have "inv ?w" "\<not> locked ?w" using v by simp_all
  note mx = get_file_mutex_ok[OF this g]
  let ?pc = "if rc = - 1 then SReturned (- 1) else SOpen"
  have at: "stamp_at cfg stamp r s SLock ?w" if "r \<longrightarrow> reliable w" for r
    using v that by (simp add: stamp_at_def)
  have step: "stamp_step cfg sys stamp SLock ?w = (?pc, w1)" using g by simp
  have at1: "stamp_at cfg stamp r s ?pc w1" if "r \<longrightarrow> reliable w" for r
    using stamp_step_ok[OF at[OF that] st(1-3) step] by simp
  have run: "store (snd (stamp_run cfg sys stamp ?pc w1)) = append s stamp" if "reliable w"
    using stamp_run_ok[OF at1[of True] st(1-3)] that by (auto simp: stamp_at_def split del: if_split)
  have "rc \<noteq> - 1 \<and> reliable w1" if "reliable w" using mx v that by (simp add: quiet_def)
  moreover have "store w1 = s" "locked w1 = (rc \<noteq> - 1)" "inv w1"
    using mx v locking by (auto simp: quiet_def)
  moreover from this have "stamper_ok s stamp ?pc w1" using st at1[of False] by (auto simp: stamper_ok_def)
  ultimately show ?thesis using step run
    by (intro exI[of _ "rc \<noteq> - 1"] exI[of _ ?pc] exI[of _ w1])
      (auto simp: member_move_def simp del: stamp_step.simps)
qed

lemma stamper_holder:
  assumes "stamper_ok s stamp pc w" "pc \<noteq> SLock" "stamp_left pc \<noteq> 0"
  shows "\<exists>s' pc1 w1. member_move cfg sys sh s True (Stamper stamp pc w) =
      Some (Inr (s', stamp_left pc1 \<noteq> 0, Stamper stamp pc1 w1)) \<and> s' = store w1 \<and> pc1 \<noteq> SLock \<and>
    stamper_ok s' stamp pc1 w1 \<and> stamp_left pc1 < stamp_left pc \<and> (reliable w \<longrightarrow> reliable w1) \<and>
    stamp_run cfg sys stamp pc1 w1 = stamp_run cfg sys stamp pc w"
proof -
  obtain s0 where st: "stamp \<noteq> []" "last stamp = newline" "length stamp < 2 ^ 31" "inv w" "locked w" "store w = s"
    "stamp_at cfg stamp False s0 pc w" using assms by (auto simp: stamper_ok_def)
  then have ld: "adopt s True w = w" using adopt_same[of w] by simp
  obtain pc1 w1 where step: "stamp_step cfg sys stamp pc w = (pc1, w1)" by (cases "stamp_step cfg sys stamp pc w")
  have at1: "stamp_at cfg stamp False s0 pc1 w1" "pc1 \<noteq> SLock"
    using stamp_step_ok[OF st(7,1-3) step] assms(3) by blast+
  then have l: "locked w1 = (stamp_left pc1 \<noteq> 0)" "inv w1"
    using locking by (cases pc1; simp add: stamp_at_def)+
  then have "stamper_ok (store w1) stamp pc1 w1" using st at1 by (auto simp: stamper_ok_def)
  moreover have "stamp_left pc1 < stamp_left pc" using step assms(3) by (cases pc) (auto split: prod.splits)
  moreover have "reliable w \<longrightarrow> reliable w1" using stamp_step_reliable[OF st(7,1-3) step] by blast
  moreover have "stamp_run cfg sys stamp pc1 w1 = stamp_run cfg sys stamp pc w"
    using step assms(3) by (simp add: stamp_run_step)
  moreover have "member_move cfg sys sh s True (Stamper stamp pc w) =
      Some (Inr (store w1, stamp_left pc1 \<noteq> 0, Stamper stamp pc1 w1))"
    using step ld l assms(3) by (simp add: member_move_def)
  ultimately show ?thesis using at1(2) by blast
qed

section \<open>The interfaces\<close>

definition member_ok :: "'s \<Rightarrow> 'w member \<Rightarrow> bool" where
  "member_ok s m = (case m of Client pc t \<Rightarrow> client_ok s pc t | Stamper stamp pc w \<Rightarrow> stamper_ok s stamp pc w)"

definition member_weight :: "'w member \<Rightarrow> nat" where
  "member_weight m =
     (case m of
        Client pc t \<Rightarrow> client_weight pc t
      | Stamper stamp pc w \<Rightarrow> if pc = SLock then 2 else if stamp_left pc = 0 then 0 else 1)"

definition member_fuel :: "'w member \<Rightarrow> nat" where
  "member_fuel m =
     (case m of
        Client pc t \<Rightarrow> (case pc of InSending _ spc \<Rightarrow> send_left cfg sys spc t | _ \<Rightarrow> 0)
      | Stamper stamp pc w \<Rightarrow> stamp_left pc)"

definition member_good :: "'w member \<Rightarrow> bool" where
  "member_good m =
     (case m of Client pc t \<Rightarrow> client_good pc t | Stamper stamp pc w \<Rightarrow> reliable w)"

definition member_plan :: "'w member \<Rightarrow> byte list list" where
  "member_plan m =
     (case m of Client pc t \<Rightarrow> client_plan pc t | Stamper stamp pc w \<Rightarrow> if pc = SLock then [stamp] else [])"

definition member_sent :: "'w member \<Rightarrow> byte list" where
  "member_sent m =
     (case m of Client pc t \<Rightarrow> outbox (world (settled cfg sys pc t)) | Stamper stamp pc w \<Rightarrow> [])"

definition member_reply :: "'w member \<Rightarrow> 's \<Rightarrow> byte list" where
  "member_reply m = (case m of Client pc t \<Rightarrow> bytes | Stamper stamp pc w \<Rightarrow> (\<lambda>_. []))"

definition member_final :: "'s \<Rightarrow> 'w member \<Rightarrow> 's \<times> 'w member" where
  "member_final s m =
     (case m of
        Client (InSending keep pc) t \<Rightarrow>
          let x = run_result cfg sys pc t
          in (store (world (snd x)), Client (InSending keep (Returned (fst x))) (snd x))
      | Client _ _ \<Rightarrow> (s, m)
      | Stamper stamp pc w \<Rightarrow>
          let x = stamp_run cfg sys stamp pc w in (store (snd x), Stamper stamp (SReturned (fst x)) (snd x)))"

lemmas member_defs = member_ok_def member_weight_def member_fuel_def member_good_def member_plan_def
  member_sent_def member_reply_def member_final_def

lemma same_weight:
  assumes "settled cfg sys (InSending keep pc1) t1 = settled cfg sys (InSending keep pc) t"
    "pc1 \<noteq> AtLock" "pc \<noteq> AtLock"
  shows "client_weight (InSending keep pc1) t1 = client_weight (InSending keep pc) t"
    "client_good (InSending keep pc1) t1 = client_good (InSending keep pc) t"
  using assms by (simp_all add: client_weight_def client_good_def)

lemma run_result_Returned [simp]: "run_result cfg sys (Returned rc) t = (rc, t)"
  by (simp add: run_result_def)

lemma not_in_section: "\<not> in_section pc \<longleftrightarrow> pc = AtLock \<or> (\<exists>rc. pc = Returned rc)"
  by (cases pc) auto

lemma stamp_left_0: "stamp_left pc = 0 \<longleftrightarrow> (\<exists>rc. pc = SReturned rc)"
  by (cases pc) auto

lemma member_free:
  assumes "member_ok s m" "\<not> member_holds m" "\<not> member_ended m" "\<not> (l \<and> member_waits m)"
  shows "\<exists>l' m'. member_move cfg sys sh s l m = Some (Inr (s, l', m')) \<and> member_ok s m' \<and>
    member_weight m' < member_weight m \<and> (l' = l \<and> \<not> member_holds m' \<or> \<not> l \<and> l' \<and> member_holds m')"
proof (cases m)
  case (Client pc t)
  have "client_ok s pc t" "\<not> member_holds (Client pc t)" "pc \<noteq> Ended" "\<not> (l \<and> member_waits (Client pc t))"
    using assms Client by (simp_all add: member_ok_def)
  from client_free[OF this, unfolded free_move_def] obtain l' pc1 t1 where
    "member_move cfg sys sh s l (Client pc t) = Some (Inr (s, l', Client pc1 t1))" "client_ok s pc1 t1"
    "client_weight pc1 t1 < client_weight pc t"
    "l' = l \<and> \<not> member_holds (Client pc1 t1) \<or> \<not> l \<and> l' \<and> member_holds (Client pc1 t1)" by blast
  with Client show ?thesis
    by (intro exI[of _ l'] exI[of _ "Client pc1 t1"] conjI) (simp_all add: member_ok_def member_weight_def)
next
  case (Stamper stamp pc w)
  then have pc: "pc = SLock" using assms(2,3) by auto
  with assms(4) Stamper have l: "\<not> l" by simp
  have "stamper_ok s stamp SLock w" using assms(1) Stamper pc by (simp add: member_ok_def)
  from stamper_free[OF this] obtain l' pc1 w1 where
    "member_move cfg sys sh s False (Stamper stamp SLock w) = Some (Inr (s, l', Stamper stamp pc1 w1))"
    "stamper_ok s stamp pc1 w1" "pc1 \<noteq> SLock" "l' = (stamp_left pc1 \<noteq> 0)" by blast
  with Stamper pc l show ?thesis
    by (intro exI[of _ l'] exI[of _ "Stamper stamp pc1 w1"]) (auto simp: member_ok_def member_weight_def)
qed

lemma member_holder:
  assumes "member_ok s m" "member_holds m"
  shows "\<exists>s' m'. member_move cfg sys sh s True m = Some (Inr (s', member_holds m', m')) \<and> member_ok s' m' \<and>
    (member_weight m' < member_weight m \<or>
      member_weight m' = member_weight m \<and> (if member_holds m' then member_fuel m' else 0) < member_fuel m)"
proof (cases m)
  case (Client pc t)
  with assms(2) obtain keep spc where pc: "pc = InSending keep spc" "in_section spc" by (cases pc) auto
  have ne: "spc \<noteq> AtLock" using pc(2) by auto
  have "client_ok s (InSending keep spc) t" using assms(1) Client pc by (simp add: member_ok_def)
  from client_holder[OF this pc(2)] obtain s' pc1 t1 where
    m: "member_move cfg sys sh s True (Client (InSending keep spc) t) =
      Some (Inr (s', in_section pc1, Client (InSending keep pc1) t1))" "pc1 \<noteq> AtLock"
      "client_ok s' (InSending keep pc1) t1"
      "settled cfg sys (InSending keep pc1) t1 = settled cfg sys (InSending keep spc) t"
      "send_left cfg sys pc1 t1 < send_left cfg sys spc t" by blast
  let ?m' = "Client (InSending keep pc1) t1"
  have w: "member_weight ?m' = member_weight m"
    using same_weight(1)[OF m(4,2) ne] Client pc by (simp add: member_weight_def)
  have "member_fuel ?m' < member_fuel m" using m(5) Client pc by (simp add: member_fuel_def)
  with w m(1,3) Client pc show ?thesis
    by (intro exI[of _ s'] exI[of _ ?m']) (auto simp: member_ok_def)
next
  case (Stamper stamp pc w)
  have pc: "pc \<noteq> SLock" "stamp_left pc \<noteq> 0" using assms(2) Stamper by auto
  have "stamper_ok s stamp pc w" using assms(1) Stamper by (simp add: member_ok_def)
  from stamper_holder[OF this pc] obtain s' pc1 w1 where
    m: "member_move cfg sys sh s True (Stamper stamp pc w) = Some (Inr (s', stamp_left pc1 \<noteq> 0, Stamper stamp pc1 w1))"
      "pc1 \<noteq> SLock" "stamper_ok s' stamp pc1 w1" "stamp_left pc1 < stamp_left pc" by blast
  with Stamper pc show ?thesis
    by (intro exI[of _ s'] exI[of _ "Stamper stamp pc1 w1"])
      (auto simp: member_ok_def member_weight_def member_fuel_def)
qed

sublocale members: turn_taking "member_move cfg sys sh" member_waits member_holds member_ended
  member_ok member_weight "\<lambda>_. member_fuel"
proof (unfold_locales, goal_cases)
  case (1 m s s')
  then show ?case
    by (cases m) (auto simp: member_ok_def client_ok_def stamper_ok_def split: thread_pc.splits if_splits)
next
  case (2 m)
  then show ?case by (cases m) (auto split: thread_pc.splits)
next
  case (3 m s l)
  then show ?case by (cases m) (auto simp: member_move_def)
next
  case (4 s m l)
  then show ?case by (rule member_free)
next
  case (5 s m)
  then show ?case by (rule member_holder)
qed

lemma client_view:
  "member_plan (Client pc t) = client_plan pc t"
  "member_sent (Client pc t) = outbox (world (settled cfg sys pc t))" "member_reply (Client pc t) = bytes"
  by (simp_all add: member_plan_def member_sent_def member_reply_def)

lemma client_free_log:
  assumes "client_ok s pc t" "client_good pc t" "\<not> member_holds (Client pc t)" "pc \<noteq> Ended"
    "\<not> (l \<and> member_waits (Client pc t))"
    "member_move cfg sys sh s l (Client pc t) = Some (Inr (s', l', m'))"
  shows "member_good m' \<and>
    (if member_holds m'
     then \<exists>p m1. member_final s m' = (append s p, m1) \<and> client_plan pc t = p # member_plan m1 \<and>
       member_sent m1 = outbox (world (settled cfg sys pc t)) @ bytes (append s p) \<and> member_reply m1 = bytes
     else member_plan m' = client_plan pc t \<and> member_sent m' = outbox (world (settled cfg sys pc t)) \<and>
       member_reply m' = bytes)"
proof -
  from client_free[OF assms(1,3-5), unfolded free_move_def] assms(2,6) obtain pc1 t1 where m: "m' = Client pc1 t1" "client_good pc1 t1"
    "if member_holds (Client pc1 t1)
     then \<exists>p keep spc. pc1 = InSending keep spc \<and> client_plan pc t = p # client_plan pc1 t1 \<and>
         store (world (snd (run_result cfg sys spc t1))) = append s p \<and>
         outbox (world (settled cfg sys pc1 t1)) = outbox (world (settled cfg sys pc t)) @ bytes (append s p)
     else client_plan pc1 t1 = client_plan pc t \<and>
         outbox (world (settled cfg sys pc1 t1)) = outbox (world (settled cfg sys pc t))" by auto
  show ?thesis
  proof (cases "member_holds m'")
    case False
    with m show ?thesis by (simp add: member_good_def member_plan_def member_sent_def member_reply_def)
  next
    case True
    with m obtain p keep spc where p: "pc1 = InSending keep spc" "client_plan pc t = p # client_plan pc1 t1"
      "store (world (snd (run_result cfg sys spc t1))) = append s p"
      "outbox (world (settled cfg sys pc1 t1)) = outbox (world (settled cfg sys pc t)) @ bytes (append s p)"
      "in_section spc" by auto
    let ?x = "run_result cfg sys spc t1"
    let ?m1 = "Client (InSending keep (Returned (fst ?x))) (snd ?x)"
    have ne: "spc \<noteq> AtLock" using p(5) by auto
    then have "settled cfg sys (InSending keep (Returned (fst ?x))) (snd ?x) = settled cfg sys pc1 t1"
      using p(1) by (simp add: settled_def)
    then have "member_plan ?m1 = client_plan pc1 t1" "member_sent ?m1 = outbox (world (settled cfg sys pc1 t1))"
      using p(1) by (simp_all add: member_plan_def member_sent_def client_plan_def)
    moreover have "member_final s m' = (append s p, ?m1)"
      using m(1) p(1,3) by (simp add: member_final_def Let_def)
    ultimately show ?thesis using True m(1,2) p(2,4) by (simp add: member_good_def member_reply_def)
  qed
qed

lemma member_free_log:
  assumes "member_ok s m" "member_good m" "\<not> member_holds m" "\<not> member_ended m" "\<not> (l \<and> member_waits m)"
    "member_move cfg sys sh s l m = Some (Inr (s', l', m'))"
  shows "member_good m' \<and>
    (if member_holds m'
     then \<exists>p m1. member_final s m' = (append s p, m1) \<and> member_plan m = p # member_plan m1 \<and>
       member_sent m1 = member_sent m @ member_reply m (append s p) \<and> member_reply m1 = member_reply m
     else member_plan m' = member_plan m \<and> member_sent m' = member_sent m \<and> member_reply m' = member_reply m)"
proof (cases m)
  case (Client pc t)
  have "client_ok s pc t" "client_good pc t" "\<not> member_holds (Client pc t)" "pc \<noteq> Ended"
    "\<not> (l \<and> member_waits (Client pc t))"
    "member_move cfg sys sh s l (Client pc t) = Some (Inr (s', l', m'))"
    using assms Client by (simp_all add: member_ok_def member_good_def)
  from client_free_log[OF this] show ?thesis unfolding Client client_view .
next
  case (Stamper stamp pc w)
  then have pc: "pc = SLock" using assms(3,4) by auto
  with assms(5) Stamper have l: "\<not> l" by simp
  have "stamper_ok s stamp SLock w" "reliable w"
    using assms(1,2) Stamper pc by (simp_all add: member_ok_def member_good_def)
  with stamper_free[OF this(1)] assms(6) Stamper pc l obtain pc1 w1 where
    "m' = Stamper stamp pc1 w1" "pc1 \<noteq> SLock" "stamp_left pc1 \<noteq> 0" "reliable w1"
    "store (snd (stamp_run cfg sys stamp pc1 w1)) = append s stamp" by auto
  with Stamper pc show ?thesis
    by (simp add: member_good_def member_plan_def member_sent_def member_reply_def member_final_def Let_def)
qed

lemma client_holder_log:
  assumes "client_ok s (InSending keep spc) t" "in_section spc" "member_good (Client (InSending keep spc) t)"
    "member_move cfg sys sh s True (Client (InSending keep spc) t) = Some (Inr (s', l', m'))"
  shows "member_good m' \<and> member_final s (Client (InSending keep spc) t) =
    (if member_holds m' then member_final s' m' else (s', m'))"
proof -
  have ne: "spc \<noteq> AtLock" using assms(2) by auto
  from client_holder[OF assms(1,2)] assms(4) obtain pc1 t1 where
    m: "m' = Client (InSending keep pc1) t1" "pc1 \<noteq> AtLock" "s' = store (world t1)"
      "settled cfg sys (InSending keep pc1) t1 = settled cfg sys (InSending keep spc) t"
      "run_result cfg sys pc1 t1 = run_result cfg sys spc t" by auto
  have "member_good m'"
    using same_weight(2)[OF m(4,2) ne] assms(3) m(1) by (simp add: member_good_def)
  moreover have "member_final s (Client (InSending keep spc) t) = (if member_holds m' then member_final s' m' else (s', m'))"
  proof (cases "in_section pc1")
    case True
    with m(1,5) assms(2) show ?thesis by (simp add: member_final_def)
  next
    case False
    with m(2) obtain rc where "pc1 = Returned rc" by (auto simp: not_in_section)
    with m(1,3) m(5)[symmetric] assms(2) show ?thesis by (simp add: member_final_def)
  qed
  ultimately show ?thesis by blast
qed

lemma stamper_holder_log:
  assumes "stamper_ok s stamp pc w" "pc \<noteq> SLock" "stamp_left pc \<noteq> 0" "member_good (Stamper stamp pc w)"
    "member_move cfg sys sh s True (Stamper stamp pc w) = Some (Inr (s', l', m'))"
  shows "member_good m' \<and> member_final s (Stamper stamp pc w) =
    (if member_holds m' then member_final s' m' else (s', m'))"
proof -
  from stamper_holder[OF assms(1-3)] assms(5) obtain pc1 w1 where
    m: "m' = Stamper stamp pc1 w1" "pc1 \<noteq> SLock" "s' = store w1"
      "stamp_run cfg sys stamp pc1 w1 = stamp_run cfg sys stamp pc w" "member_good m'"
    using assms(4) by (auto simp: member_good_def)
  show ?thesis
  proof (cases "stamp_left pc1 = 0")
    case True
    then obtain rc where "pc1 = SReturned rc" by (auto simp: stamp_left_0)
    with m(1-3) m(4)[symmetric] assms(2) m(5) show ?thesis by (simp add: member_final_def)
  next
    case False
    with m assms(2) show ?thesis by (simp add: member_final_def)
  qed
qed

lemma member_holder_log:
  assumes "member_ok s m" "member_good m" "member_holds m" "member_move cfg sys sh s True m = Some (Inr (s', l', m'))"
  shows "member_good m' \<and> member_final s m = (if member_holds m' then member_final s' m' else (s', m'))"
proof (cases m)
  case (Client pc t)
  with assms(3) obtain keep spc where pc: "pc = InSending keep spc" "in_section spc" by (cases pc) auto
  have "client_ok s (InSending keep spc) t" using assms(1) Client pc by (simp add: member_ok_def)
  from client_holder_log[OF this pc(2)] assms(2,4) Client pc(1) show ?thesis by simp
next
  case (Stamper stamp pc w)
  have pc: "pc \<noteq> SLock" "stamp_left pc \<noteq> 0" using assms(3) Stamper by auto
  have "stamper_ok s stamp pc w" using assms(1) Stamper by (simp add: member_ok_def)
  from stamper_holder_log[OF this pc] assms(2,4) Stamper show ?thesis by simp
qed

sublocale members: logged_turns "member_move cfg sys sh" member_waits member_holds member_ended
  member_ok member_weight "\<lambda>_. member_fuel" member_good member_plan member_sent member_reply member_final append
proof (unfold_locales, goal_cases)
  case (1 s m l s' l' m')
  then show ?case by (rule member_free_log)
next
  case (2 s m s' l' m')
  then show ?case by (rule member_holder_log)
next
  case (3 s m)
  then show ?case by (cases m) (auto simp: member_plan_def client_plan_def)
qed

end

end
