(* ===== verification/Crowd_Props.thy ===== *)
theory Crowd_Props
  imports Server_Crowd Server_System
begin

text \<open>
  The server's threads on a regular file under any schedule: mutual exclusion, the end of every
  fair schedule, and the order of the entries in the file.
\<close>

section \<open>The crowd on a regular file\<close>

definition plain_adopt :: "byte list \<Rightarrow> bool \<Rightarrow> plain \<Rightarrow> plain" where
  "plain_adopt f l w = w\<lparr>pl_file := f, cs_locked := l\<rparr>"

definition plain_sharing :: "(byte list, plain) sharing" where
  "plain_sharing = \<lparr>sh_store = pl_file, sh_locked = cs_locked, sh_adopt = plain_adopt\<rparr>"

abbreviation plain_move :: "(byte list, plain member) mover" where
  "plain_move \<equiv> member_move plain_build plain_sys plain_sharing"

abbreviation plain_turns ::
  "nat list \<Rightarrow> (byte list, plain member) crowd \<Rightarrow> (fault + (byte list, plain member) crowd) option" where
  "plain_turns \<equiv> run_schedule plain_move member_waits"

interpretation crowd: crowd_env plain_sys "\<lambda>w. True" pl_file pl_pos cs_locked cs_inbox cs_outbox
  no_faults "\<lambda>w. True" "(@)" "\<lambda>s. s" plain_build plain_adopt Map.empty
  by unfold_locales (simp_all add: plain_build_def plain_adopt_def no_faults_def)

text \<open>
  The start: a thread for each client, with its data and its world, and a time stamp to write for
  each entry of \<open>stamps\<close>. The threads have made their first allocations.
\<close>

definition start_crowd ::
  "byte list \<Rightarrow> (ThreadData \<times> plain) list \<Rightarrow> (byte list \<times> plain) list \<Rightarrow> fault + (byte list, plain member) crowd"
where
  "start_crowd file cls stamps =
     bindE (begin_all plain_sys cls) (\<lambda>ts.
       Inr \<lparr>cr_store = file, cr_locked = False,
            cr_members = map (Client AtTop) ts @ map (\<lambda>(stamp, w). Stamper stamp SLock w) stamps\<rparr>)"

text \<open>A stamp is a line.\<close>

definition fit_stamp :: "byte list \<times> plain \<Rightarrow> bool" where
  "fit_stamp = (\<lambda>(stamp, w). stamp \<noteq> [] \<and> last stamp = newline \<and> length stamp < 2 ^ 31)"

text \<open>The crowd at the start satisfies the invariant of the interfaces.\<close>

lemma start_crowd_ok:
  assumes "start_crowd file cls stamps = Inr c" "list_all fit_client cls" "list_all fit_stamp stamps"
  shows "crowd.members.crowd_ok c" "\<not> cr_locked c" "cr_store c = file"
    "length (cr_members c) = length cls + length stamps"
    "\<And>i. i < length cls \<Longrightarrow> \<exists>t. cr_members c ! i = Client AtTop t \<and>
      plain.todo t = packets [] (cs_inbox (snd (cls ! i))) \<and>
      cs_outbox (world t) = cs_outbox (snd (cls ! i)) \<and>
      (no_faults (snd (cls ! i)) \<longrightarrow> no_faults (world t) \<and> bd_buffer (rb_new t) \<noteq> None)"
    "\<And>j. j < length stamps \<Longrightarrow>
      cr_members c ! (length cls + j) = Stamper (fst (stamps ! j)) SLock (snd (stamps ! j))"
proof -
  let ?st = "map (\<lambda>(stamp, w). Stamper stamp SLock w) stamps"
  obtain ts where ts: "begin_all plain_sys cls = Inr ts" and
    c: "c = \<lparr>cr_store = file, cr_locked = False, cr_members = map (Client AtTop) ts @ ?st\<rparr>"
    using assms(1) by (auto simp: start_crowd_def bindE_eq_Inr)
  have "\<forall>(d, w) \<in> set cls. True \<and> \<not> cs_locked w \<and> thread_state d = WaitingForData \<and> length (cs_inbox w) < 2 ^ 31"
    using assms(2) by (auto simp: fit_client_def list_all_iff)
  note nth = plain.begin_all_nth[OF ts this]
  let ?ms = "map (Client AtTop) ts"
  have ok: "crowd.member_ok file m" if "m \<in> set ?ms" for m
    using that nth by (auto simp: in_set_conv_nth crowd.member_ok_def crowd.client_ok_def)
  have ok': "crowd.member_ok file m" if "m \<in> set ?st" for m
    using that assms(3)
    by (auto simp: crowd.member_ok_def crowd.stamper_ok_def fit_stamp_def list_all_iff)
  have free: "\<not> member_holds m" if "m \<in> set (?ms @ ?st)" for m
    using that nth by (auto simp: in_set_conv_nth)
  then have "\<And>i. i < length (?ms @ ?st) \<Longrightarrow> \<not> member_holds ((?ms @ ?st) ! i)" by (meson nth_mem)
  then show "crowd.members.crowd_ok c"
    using ok ok' unfolding crowd.members.crowd_ok_def c by (auto simp del: set_map)
  show "\<not> cr_locked c" "cr_store c = file" "length (cr_members c) = length cls + length stamps"
    using c nth by simp_all
  show "\<exists>t. cr_members c ! i = Client AtTop t \<and> plain.todo t = packets [] (cs_inbox (snd (cls ! i))) \<and>
      cs_outbox (world t) = cs_outbox (snd (cls ! i)) \<and>
      (no_faults (snd (cls ! i)) \<longrightarrow> no_faults (world t) \<and> bd_buffer (rb_new t) \<noteq> None)"
    if "i < length cls" for i
    using c nth that by (auto simp: nth_append)
  show "cr_members c ! (length cls + j) = Stamper (fst (stamps ! j)) SLock (snd (stamps ! j))"
    if "j < length stamps" for j
    using c nth that by (simp add: nth_append split_beta)
qed

fun is_client :: "'w member \<Rightarrow> bool" where
  "is_client (Client _ _) = True"
| "is_client (Stamper _ _ _) = False"

lemma member_kind:
  "member_move cfg sys sh s l m = Some (Inr (s', l', m')) \<Longrightarrow> is_client m' = is_client m"
  by (cases m) (auto simp: member_move_def bindE_eq_Inr Let_def split: if_splits prod.splits)

text \<open>Two clients, which send two packets and one, in pieces, and one time stamp.\<close>

definition demo_world :: "byte list \<Rightarrow> nat list \<Rightarrow> plain" where
  "demo_world inbox chunks =
     \<lparr>cs_inbox = inbox, cs_outbox = [], cs_locked = False, cs_faults = [], cs_chunks = chunks,
      pl_file = [], pl_pos = 0\<rparr>"

definition demo_clients :: "(ThreadData \<times> plain) list" where
  "demo_clients =
     [(\<lparr>client_fd = 4, thread_state = WaitingForData, thread_complete_success = False\<rparr>,
       demo_world [97, newline, 98, newline] [1, 2]),
      (\<lparr>client_fd = 5, thread_state = WaitingForData, thread_complete_success = False\<rparr>,
       demo_world [99, newline] [])]"

definition demo_stamps :: "(byte list \<times> plain) list" where
  "demo_stamps = [([116, newline], demo_world [] [])]"

lemma demo_crowd:
  "\<exists>c. start_crowd [] demo_clients demo_stamps = Inr c" "list_all fit_client demo_clients"
  "list_all fit_stamp demo_stamps" "\<forall>x \<in> set demo_clients. no_faults (snd x)"
  "\<forall>x \<in> set demo_stamps. no_faults (snd x)" "length demo_clients + length demo_stamps = 3"
  by (simp_all add: start_crowd_def demo_clients_def demo_stamps_def demo_world_def begin_thread_def
      plain_sys_def cs_simple_def cs_alloc_def next_fault_def fit_client_def fit_stamp_def no_faults_def
      first_free.simps mem_alloc_def)

lemma round_robin_fair: "0 < n \<Longrightarrow> fair (\<lambda>j. j mod n) n"
  unfolding fair_def
proof (intro allI impI)
  fix i k :: nat assume "i < n"
  then show "\<exists>j\<ge>k. j mod n = i" by (intro exI[of _ "i + k * n"]) (auto simp: trans_le_add2)
qed

section \<open>Properties\<close>



text \<open>
  Every schedule that comes back to every thread ends all of them, whichever calls fail.
\<close>

theorem fair_schedules_end:
  assumes "start_crowd file cls stamps = Inr c" "list_all fit_client cls" "list_all fit_stamp stamps"
    "fair \<sigma> (length cls + length stamps)"
  shows "\<exists>k c'. plain_turns (first_turns \<sigma> k) c = Some (Inr c') \<and>
    (\<forall>m \<in> set (cr_members c'). member_ended m)"
proof -
  note st = start_crowd_ok[OF assms(1-3)]
  from crowd.members.fair_schedule_ends[OF st(1), of \<sigma>] assms(4) st(4) show ?thesis
    unfolding plain_sharing_def by auto
qed

theorem fair_schedules_end_witness:
  "\<exists>c k c'. start_crowd [] demo_clients demo_stamps = Inr c \<and>
    plain_turns (first_turns (\<lambda>j. j mod 3) k) c = Some (Inr c') \<and>
    (\<forall>m \<in> set (cr_members c'). member_ended m)"
proof -
  obtain c where c: "start_crowd [] demo_clients demo_stamps = Inr c" using demo_crowd(1) by blast
  have "fair (\<lambda>j. j mod 3) (length demo_clients + length demo_stamps)"
    using round_robin_fair[of 3] demo_crowd(6) by simp
  from fair_schedules_end[OF c demo_crowd(2,3) this] c show ?thesis by blast
qed

lemma start_good:
  assumes "start_crowd file cls stamps = Inr c" "list_all fit_client cls" "list_all fit_stamp stamps"
    "\<forall>x \<in> set cls. no_faults (snd x)" "\<forall>x \<in> set stamps. no_faults (snd x)"
  shows "\<forall>m \<in> set (cr_members c). crowd.member_good m"
proof
  note st = start_crowd_ok[OF assms(1-3)]
  fix m assume "m \<in> set (cr_members c)"
  then obtain i where i: "i < length cls + length stamps" "m = cr_members c ! i"
    by (auto simp: in_set_conv_nth st(4))
  show "crowd.member_good m"
  proof (cases "i < length cls")
    case True
    with st(5)[OF True] assms(4) i(2) show ?thesis
      by (auto simp: crowd.member_good_def crowd.client_good_def settled_def)
  next
    case False
    with i(1) have j: "i - length cls < length stamps" "length cls + (i - length cls) = i" by auto
    with st(6)[OF j(1)] assms(5) i(2) show ?thesis by (simp add: crowd.member_good_def)
  qed
qed

text \<open>A client stays a client in its place.\<close>

lemma ended_client:
  assumes "crowd.members.crowd_ok c"
    and run: "run_schedule (member_move plain_build plain_sys crowd.sh) member_waits schedule c = Some (Inr c')"
    and "\<forall>m \<in> set (cr_members c'). member_ended m"
    and i: "i < length (cr_members c)" "cr_members c ! i = Client pc t0"
  shows "\<exists>t. cr_members c' ! i = Client Ended t"
proof -
  have len: "length (cr_members c') = length (cr_members c)"
    using crowd.members.run_ok[OF assms(1), of schedule] run by auto
  have "map is_client (cr_members c') = map is_client (cr_members c)"
    by (rule run_schedule_kind[where K = is_client, OF _ run]) (rule member_kind)
  then have "is_client (cr_members c' ! i) = is_client (cr_members c ! i)"
    using i(1) len by (metis nth_map)
  then have "is_client (cr_members c' ! i)" using i(2) by simp
  moreover have "member_ended (cr_members c' ! i)" using assms(3) i(1) len by simp
  ultimately show ?thesis by (cases "cr_members c' ! i") auto
qed

text \<open>
  C7. When no call fails, a run that has ended all threads has put the packets of all clients and
  all time stamps into the file, each whole, in some order that is the client's own for the packets
  of one client; and each client was sent, after each of its packets, the file as it was right
  after that packet, without the bytes of any packet that came later.
\<close>

theorem packets_in_order:
  assumes "start_crowd file cls stamps = Inr c" "list_all fit_client cls" "list_all fit_stamp stamps"
    "\<forall>x \<in> set cls. no_faults (snd x)" "\<forall>x \<in> set stamps. no_faults (snd x)"
    "plain_turns schedule c = Some (Inr c')" "\<forall>m \<in> set (cr_members c'). member_ended m"
  shows "\<exists>L. cr_store c' = file @ concat (map snd L) \<and>
    (\<forall>i < length cls. own i L = packets [] (cs_inbox (snd (cls ! i))) \<and>
       (\<exists>t. cr_members c' ! i = Client Ended t \<and>
          cs_outbox (world t) = cs_outbox (snd (cls ! i)) @ answers (@) (\<lambda>f. f) i file L)) \<and>
    (\<forall>j < length stamps. own (length cls + j) L = [fst (stamps ! j)])"
proof -
  note st = start_crowd_ok[OF assms(1-3)]
  have run: "run_schedule (member_move plain_build plain_sys crowd.sh) member_waits schedule c = Some (Inr c')"
    using assms(6) by (simp add: plain_sharing_def)
  from crowd.members.entries_in_order[OF st(1,2) start_good[OF assms(1-5)] run assms(7)] obtain L where
    L: "cr_store c' = foldl (@) file (map snd L)"
    "\<And>i. i < length (cr_members c) \<Longrightarrow> own i L = crowd.member_plan (cr_members c ! i) \<and>
       crowd.member_sent (cr_members c' ! i) = crowd.member_sent (cr_members c ! i) @
         answers (@) (crowd.member_reply (cr_members c ! i)) i file L"
    unfolding st(3) by blast
  have client: "own i L = packets [] (cs_inbox (snd (cls ! i))) \<and>
      (\<exists>t. cr_members c' ! i = Client Ended t \<and>
         cs_outbox (world t) = cs_outbox (snd (cls ! i)) @ answers (@) (\<lambda>f. f) i file L)"
    if i: "i < length cls" for i
  proof -
    from st(5)[OF i] obtain t0 where t0: "cr_members c ! i = Client AtTop t0"
      "plain.todo t0 = packets [] (cs_inbox (snd (cls ! i)))"
      "cs_outbox (world t0) = cs_outbox (snd (cls ! i))" by blast
    have il: "i < length (cr_members c)" using i st(4) by simp
    obtain t where t: "cr_members c' ! i = Client Ended t"
      using ended_client[OF st(1) run assms(7) il t0(1)] by blast
    show ?thesis
      using L(2)[OF il] unfolding t t0(1) crowd.client_view
      by (simp add: crowd.client_plan_def settled_def t0(2,3))
  qed
  have stamp: "own (length cls + j) L = [fst (stamps ! j)]" if "j < length stamps" for j
    using L(2)[of "length cls + j"] st(4) st(6)[OF that] that by (simp add: crowd.member_plan_def)
  from L(1) client stamp show ?thesis unfolding foldl_append_concat by blast
qed

theorem packets_in_order_witness:
  "\<exists>c k c' L. start_crowd [] demo_clients demo_stamps = Inr c \<and>
    plain_turns (first_turns (\<lambda>j. j mod 3) k) c = Some (Inr c') \<and>
    cr_store c' = concat (map snd L) \<and> own 0 L = [[97, newline], [98, newline]] \<and>
    own 1 L = [[99, newline]] \<and> own 2 L = [[116, newline]]"
proof -
  obtain c where c: "start_crowd [] demo_clients demo_stamps = Inr c" using demo_crowd(1) by blast
  note st = start_crowd_ok[OF c demo_crowd(2,3)]
  have "fair (\<lambda>j. j mod 3) (length (cr_members c))"
    using round_robin_fair[of 3] demo_crowd(6) st(4) by simp
  from crowd.members.fair_schedule_ends[OF st(1) this] obtain k c' where
    c': "plain_turns (first_turns (\<lambda>j. j mod 3) k) c = Some (Inr c')" "\<forall>m \<in> set (cr_members c'). member_ended m"
    unfolding plain_sharing_def by blast
  from packets_in_order[OF c demo_crowd(2-5) c'] obtain L where
    L: "cr_store c' = concat (map snd L)"
    "\<forall>i < length demo_clients. own i L = packets [] (cs_inbox (snd (demo_clients ! i)))"
    "\<forall>j < length demo_stamps. own (length demo_clients + j) L = [fst (demo_stamps ! j)]" by auto
  have "own 0 L = [[97, newline], [98, newline]]" "own 1 L = [[99, newline]]"
    using L(2) by (auto simp: demo_clients_def demo_world_def packets_def newline_def)
  moreover have "own 2 L = [[116, newline]]"
    using L(3) by (auto simp: demo_clients_def demo_stamps_def numeral_2_eq_2)
  ultimately show ?thesis using c c'(1) L(1) by blast
qed

end
