(* ===== verification/Free_Turns.thy ===== *)
theory Free_Turns
  imports Turns
begin

text \<open>
  Processes that share a store and take turns in any order without a mutex: a turn may change the
  store whenever it likes. The locale \<open>free_turns\<close> asks that every turn is without a fault whatever
  the others have done to the store, and that a turn that changes the store lowers the \<open>weight\<close> of
  its process, while one that leaves everybody's \<open>fuel\<close>, which depends on the store, may lower its own. Then every
  fair schedule ends. The locale \<open>logged_free\<close> adds that each change of the store is an entry the
  process had planned; then the store is what the entries of all processes make of it in some
  order that is the process's own for each process.
\<close>

section \<open>Progress\<close>

locale free_turns =
  fixes move :: "('s, 'm) mover"
    and ended :: "'m \<Rightarrow> bool"
    and sound :: "'s \<Rightarrow> bool"
    and ok :: "'m \<Rightarrow> bool"
    and weight :: "'m \<Rightarrow> nat"
    and fuel :: "'s \<Rightarrow> 'm \<Rightarrow> nat"
  assumes ended_stays: "ended m \<Longrightarrow> move s l m = Some (Inr (s, l, m))"
    and free_step: "sound s \<Longrightarrow> ok m \<Longrightarrow> \<not> ended m \<Longrightarrow>
      \<exists>s' m'. move s False m = Some (Inr (s', False, m')) \<and> sound s' \<and> ok m' \<and>
        (weight m' < weight m \<or> weight m' = weight m \<and> fuel s' = fuel s \<and> fuel s m' < fuel s m)"
begin

definition free_ok :: "('s, 'm) crowd \<Rightarrow> bool" where
  "free_ok c \<longleftrightarrow> sound (cr_store c) \<and> \<not> cr_locked c \<and> (\<forall>m \<in> set (cr_members c). ok m)"

definition free_can :: "nat \<Rightarrow> ('s, 'm) crowd \<Rightarrow> bool" where
  "free_can i c \<longleftrightarrow> i < length (cr_members c) \<and> \<not> ended (cr_members c ! i)"

definition free_work :: "('s, 'm) crowd \<Rightarrow> nat \<times> nat" where
  "free_work c = (sum_list (map weight (cr_members c)), sum_list (map (fuel (cr_store c)) (cr_members c)))"

definition free_less :: "(('s, 'm) crowd \<times> ('s, 'm) crowd) set" where
  "free_less = inv_image (less_than <*lex*> less_than) free_work"

lemma trancl_free_less: "(c', c) \<in> free_less\<^sup>+ \<longleftrightarrow> (free_work c', free_work c) \<in> less_than <*lex*> less_than"
proof -
  have "trans free_less" unfolding free_less_def by (intro trans_inv_image trans_lex_prod) simp_all
  then show ?thesis by (simp add: trancl_id) (simp add: free_less_def)
qed

text \<open>A turn either does nothing, or is the step of a process that has not ended.\<close>

lemma free_turn_cases:
  assumes "free_ok c"
  obtains (idle) "turn move (\<lambda>_. False) i c = Some (Inr c)" "\<not> free_can i c"
  | (step) s m where "free_can i c" "move (cr_store c) False (cr_members c ! i) = Some (Inr (s, False, m))"
      "sound s" "ok m"
      "weight m < weight (cr_members c ! i) \<or>
        weight m = weight (cr_members c ! i) \<and> fuel s = fuel (cr_store c) \<and>
        fuel (cr_store c) m < fuel (cr_store c) (cr_members c ! i)"
      "turn move (\<lambda>_. False) i c =
        Some (Inr \<lparr>cr_store = s, cr_locked = False, cr_members = (cr_members c)[i := m]\<rparr>)"
proof (cases "free_can i c")
  case False
  moreover have "turn move (\<lambda>_. False) i c = Some (Inr c)"
    using False ended_stays[of "cr_members c ! i" "cr_store c" "cr_locked c"]
    by (auto simp: turn_def free_can_def)
  ultimately show ?thesis using idle by blast
next
  case True
  then have "i < length (cr_members c)" "ok (cr_members c ! i)" "\<not> ended (cr_members c ! i)"
    "sound (cr_store c)" "\<not> cr_locked c" using assms by (auto simp: free_can_def free_ok_def)
  with free_step[OF this(4,2,3)] step[OF True] show ?thesis by (auto simp: turn_def)
qed

lemma free_turn_ok:
  assumes "free_ok c"
  shows "\<exists>c'. turn move (\<lambda>_. False) i c = Some (Inr c') \<and> free_ok c' \<and>
    length (cr_members c') = length (cr_members c) \<and>
    (if free_can i c then (c', c) \<in> free_less else c' = c)"
proof (rule free_turn_cases[OF assms, of i], goal_cases)
  case 1
  then show ?thesis using assms by simp
next
  case step: (2 s m)
  let ?c' = "\<lparr>cr_store = s, cr_locked = False, cr_members = (cr_members c)[i := m]\<rparr>"
  have i: "i < length (cr_members c)" using step(1) by (simp add: free_can_def)
  have "free_ok ?c'" using assms step(3,4) by (auto simp: free_ok_def dest!: set_update_subset_insert[THEN subsetD])
  moreover have "(?c', c) \<in> free_less"
    using step(5) sum_list_update_less[OF i, of weight m] sum_list_update_same[OF i, of weight m]
      sum_list_update_less[OF i, of "fuel (cr_store c)" m] by (auto simp: free_less_def free_work_def)
  ultimately show ?thesis using step(1,6) by auto
qed

text \<open>Processes that have all ended stay as they are, and so does the store.\<close>

lemma ended_run:
  assumes "\<forall>m \<in> set (cr_members c). ended m"
  shows "run_schedule move (\<lambda>_. False) is c = Some (Inr c)"
proof (induction "is")
  case (Cons i "is")
  have "turn move (\<lambda>_. False) i c = Some (Inr c)"
    using ended_stays[of "cr_members c ! i" "cr_store c" "cr_locked c"] assms by (simp add: turn_def)
  with Cons show ?case by simp
qed simp

text \<open>A process that has ended stays as it is while others go on.\<close>

lemma ended_turn:
  assumes "free_ok c" "turn move (\<lambda>_. False) j c = Some (Inr c')" "i < length (cr_members c)"
    "ended (cr_members c ! i)"
  shows "cr_members c' ! i = cr_members c ! i"
proof (rule free_turn_cases[OF assms(1), of j], goal_cases)
  case 1
  then show ?thesis using assms(2) by simp
next
  case (2 s m)
  then have "j \<noteq> i" using assms(4) by (auto simp: free_can_def)
  with 2(6) assms(2) show ?thesis by auto
qed

lemma ended_member:
  assumes "free_ok c" "run_schedule move (\<lambda>_. False) is c = Some (Inr c')" "i < length (cr_members c)"
    "ended (cr_members c ! i)"
  shows "cr_members c' ! i = cr_members c ! i"
  using assms
proof (induction "is" arbitrary: c)
  case (Cons j "is")
  obtain c1 where c1: "turn move (\<lambda>_. False) j c = Some (Inr c1)" "free_ok c1"
    "length (cr_members c1) = length (cr_members c)" using free_turn_ok[OF Cons.prems(1), of j] by blast
  with ended_turn[OF Cons.prems(1) c1(1) Cons.prems(3,4)] Cons.IH[OF c1(2)] Cons.prems(2-4)
  show ?case by simp
qed simp

lemma free_join: "free_ok c \<Longrightarrow> ok m \<Longrightarrow> free_ok (c\<lparr>cr_members := cr_members c @ [m]\<rparr>)"
  by (auto simp: free_ok_def)

sublocale scheduled move "\<lambda>_. False" ended free_ok free_can free_less
proof unfold_locales
  show "wf free_less" unfolding free_less_def by (intro wf_inv_image wf_lex_prod wf_less_than)
  show "\<exists>i < length (cr_members c). free_can i c" if "\<exists>m \<in> set (cr_members c). \<not> ended m" for c
    using that by (auto simp: in_set_conv_nth free_can_def)
qed (rule free_turn_ok)

end

section \<open>What becomes of the store\<close>

locale logged_free = free_turns move ended sound ok weight fuel
  for move :: "('s, 'm) mover" and ended :: "'m \<Rightarrow> bool" and sound :: "'s \<Rightarrow> bool" and ok :: "'m \<Rightarrow> bool"
    and weight :: "'m \<Rightarrow> nat" and fuel :: "'s \<Rightarrow> 'm \<Rightarrow> nat" +
  fixes view :: "'s \<Rightarrow> 'v"
    and put :: "'v \<Rightarrow> 'e \<Rightarrow> 'v"
    and good :: "'m \<Rightarrow> bool"
    and plan :: "'m \<Rightarrow> 'e list"
  assumes ended_plan: "ended m \<Longrightarrow> plan m = []"
    and good_step: "sound s \<Longrightarrow> ok m \<Longrightarrow> \<not> ended m \<Longrightarrow> good m \<Longrightarrow>
      move s False m = Some (Inr (s', False, m')) \<Longrightarrow>
      good m' \<and> (view s' = view s \<and> plan m' = plan m \<or>
        (\<exists>p. plan m = p # plan m' \<and> view s' = put (view s) p))"
begin

text \<open>
  \<open>ps\<close> are the plans that the processes had at their start; the entries made so far and the plans
  that are left make them up.
\<close>

definition log_of :: "'v \<Rightarrow> 'e list list \<Rightarrow> (nat \<times> 'e) list \<Rightarrow> ('s, 'm) crowd \<Rightarrow> bool" where
  "log_of v ps L c \<longleftrightarrow>
     view (cr_store c) = foldl put v (map snd L) \<and> length ps = length (cr_members c) \<and>
     (\<forall>e \<in> set L. fst e < length ps) \<and>
     (\<forall>i < length ps. good (cr_members c ! i) \<and> ps ! i = own i L @ plan (cr_members c ! i))"

lemma turn_log:
  assumes "free_ok c" "log_of v ps L c" "turn move (\<lambda>_. False) i c = Some (Inr c')"
  shows "\<exists>L'. log_of v ps L' c'"
proof (rule free_turn_cases[OF assms(1), of i], goal_cases)
  case 1
  then show ?thesis using assms(2,3) by auto
next
  case step: (2 s m)
  have i: "i < length (cr_members c)" "\<not> ended (cr_members c ! i)"
    using step(1) by (simp_all add: free_can_def)
  have g: "good (cr_members c ! i)" "ok (cr_members c ! i)" "sound (cr_store c)"
    using assms(1,2) i(1) by (auto simp: log_of_def free_ok_def)
  have c': "c' = \<lparr>cr_store = s, cr_locked = False, cr_members = (cr_members c)[i := m]\<rparr>"
    using assms(3) step(6) by simp
  from good_step[OF g(3,2) i(2) g(1) step(2)] consider
    "good m" "view s = view (cr_store c)" "plan m = plan (cr_members c ! i)"
  | p where "good m" "plan (cr_members c ! i) = p # plan m" "view s = put (view (cr_store c)) p" by blast
  then show ?thesis
  proof cases
    case 1
    with assms(2) i(1) have "log_of v ps L c'" unfolding log_of_def c' by (auto simp: nth_list_update)
    then show ?thesis ..
  next
    case (2 p)
    with assms(2) i(1) have "log_of v ps (L @ [(i, p)]) c'"
      unfolding log_of_def c' by (auto simp: nth_list_update own_snoc)
    then show ?thesis ..
  qed
qed

lemma run_log:
  assumes "free_ok c" "log_of v ps L c" "run_schedule move (\<lambda>_. False) is c = Some (Inr c')"
  shows "\<exists>L'. log_of v ps L' c'"
  using assms
proof (induction "is" arbitrary: c L)
  case (Cons i "is")
  obtain c2 where c2: "turn move (\<lambda>_. False) i c = Some (Inr c2)" "free_ok c2"
    using free_turn_ok[OF Cons.prems(1), of i] by blast
  with Cons.prems(3) have "run_schedule move (\<lambda>_. False) is c2 = Some (Inr c')" by simp
  with turn_log[OF Cons.prems(1,2) c2(1)] Cons.IH[OF c2(2)] show ?case by blast
qed auto

lemma log_start:
  "\<forall>m \<in> set (cr_members c). good m \<Longrightarrow> log_of (view (cr_store c)) (map plan (cr_members c)) [] c"
  by (auto simp: log_of_def own_def)

text \<open>A process that joins later has made no entry.\<close>

lemma log_join:
  assumes "log_of v ps L c" "good m"
  shows "log_of v (ps @ [plan m]) L (c\<lparr>cr_members := cr_members c @ [m]\<rparr>)"
proof -
  have "\<forall>e \<in> set L. fst e \<noteq> length ps" using assms(1) by (auto simp: log_of_def)
  then have "own (length ps) L = []" by (simp add: own_def filter_empty_conv)
  with assms show ?thesis by (auto simp: log_of_def nth_append less_Suc_eq)
qed

text \<open>When all processes have ended, each has made its entries, in its order.\<close>

lemma ended_log:
  assumes "log_of v ps L c" "\<forall>m \<in> set (cr_members c). ended m"
  shows "view (cr_store c) = foldl put v (map snd L)" "i < length ps \<Longrightarrow> own i L = ps ! i"
  using assms ended_plan by (auto simp: log_of_def)

lemma entries_of_ended_run:
  assumes "free_ok c" "\<forall>m \<in> set (cr_members c). good m"
    and "run_schedule move (\<lambda>_. False) is c = Some (Inr c')" "\<forall>m \<in> set (cr_members c'). ended m"
  shows "\<exists>L. view (cr_store c') = foldl put (view (cr_store c)) (map snd L) \<and>
    (\<forall>i < length (cr_members c). own i L = plan (cr_members c ! i))"
proof -
  from run_log[OF assms(1) log_start[OF assms(2)] assms(3)] obtain L where
    "log_of (view (cr_store c)) (map plan (cr_members c)) L c'" ..
  from ended_log[OF this assms(4)] show ?thesis by auto
qed

end

end
