(* ===== verification/Free_Crowd.thy ===== *)
theory Free_Crowd
  imports Free_Turns Server_Crowd
begin

text \<open>
  The server's client threads under any schedule in the build with \<open>DISABLE_LOCKING\<close>: there is no
  mutex, so a call of one thread may come between any two calls of another. The theory shows for
  every system with the laws of \<open>server_env\<close> that these threads satisfy the interfaces of
  \<open>Free_Turns\<close>. There are no time stamps in this build.
\<close>

text \<open>
  The shared part of a world is \<open>core w\<close>; \<open>view\<close> gives the store in it and \<open>sound\<close> its invariant.
\<close>

locale free_env = server_env sys inv store pos locked inbox outbox reliable ready append bytes
  for sys :: "'w sys" and inv :: "'w \<Rightarrow> bool" and store :: "'w \<Rightarrow> 's" and pos :: "'w \<Rightarrow> nat"
    and locked :: "'w \<Rightarrow> bool" and inbox :: "'w \<Rightarrow> byte list" and outbox :: "'w \<Rightarrow> byte list"
    and reliable :: "'w \<Rightarrow> bool" and ready :: "'w \<Rightarrow> bool"
    and append :: "'s \<Rightarrow> byte list \<Rightarrow> 's" and bytes :: "'s \<Rightarrow> byte list" +
  fixes cfg :: build
    and core :: "'w \<Rightarrow> 'd"
    and view :: "'d \<Rightarrow> 's"
    and sound :: "'d \<Rightarrow> bool"
    and adopt :: "'d \<Rightarrow> bool \<Rightarrow> 'w \<Rightarrow> 'w"
    and h0 :: memory
  assumes unlocking: "disable_locking cfg"
    and core_view: "inv w \<Longrightarrow> sound (core w) \<and> store w = view (core w)"
    and adopt_core: "inv w \<Longrightarrow> sound d \<Longrightarrow>
      inv (adopt d l w) \<and> core (adopt d l w) = d \<and> locked (adopt d l w) = l \<and> pos (adopt d l w) = pos w \<and>
      inbox (adopt d l w) = inbox w \<and> outbox (adopt d l w) = outbox w \<and>
      reliable (adopt d l w) = reliable w \<and> ready (adopt d l w) = ready w"
begin

abbreviation sh :: "('d, 'w) sharing" where
  "sh \<equiv> \<lparr>sh_store = core, sh_locked = locked, sh_adopt = adopt\<rparr>"

section \<open>What holds at each place\<close>

text \<open>
  Once its packet is written, \<open>resume t\<close> is the thread with the state it goes on with when the
  rest of \<open>sending_data\<close> succeeds.
\<close>

definition resume :: "'w thread \<Rightarrow> 'w thread" where
  "resume t = set_state (if bd_size (rb_new t) > 0 then ProcessingData else WaitingForData) t"

definition unsent :: "'w thread \<Rightarrow> bool" where
  "unsent t \<longleftrightarrow> session_inv h0 t \<and> thread_state (t_data t) = SendingData"

fun after_send :: "send_pc \<Rightarrow> 'w thread \<Rightarrow> 'w thread" where
  "after_send AtLock t = t"
| "after_send AtOpen t = t"
| "after_send (AtWrite _) t = t"
| "after_send (AtFailedClose _) t = set_state ClosedConnection t"
| "after_send AtFailedRelease t = set_state ClosedConnection t"
| "after_send (Returned rc) t = close_on_error (rc, t)"
| "after_send _ t = resume t"

fun send_ok :: "send_pc \<Rightarrow> 'w thread \<Rightarrow> bool" where
  "send_ok AtLock t = (thread_state (t_data t) = SendingData)"
| "send_ok AtOpen t = (thread_state (t_data t) = SendingData)"
| "send_ok (AtWrite _) t = (thread_state (t_data t) = SendingData \<and> ready (world t))"
| "send_ok (AtSeek _) t = ready (world t)"
| "send_ok (AtSend _ _ n) t = (0 \<le> n)"
| "send_ok _ t = True"

definition place_ok :: "thread_pc \<Rightarrow> 'w thread \<Rightarrow> bool" where
  "place_ok pc t \<longleftrightarrow>
     (case pc of
        AtTop \<Rightarrow> session_inv h0 t
      | Ended \<Rightarrow> True
      | InSending _ spc \<Rightarrow> session_inv h0 (after_send spc t) \<and> send_ok spc t)"

text \<open>How many steps of the section are left, the loops apart.\<close>

fun send_rank :: "send_pc \<Rightarrow> nat" where
  "send_rank AtLock = 2"
| "send_rank AtOpen = 1"
| "send_rank (AtWrite _) = 0"
| "send_rank (AtSeek _) = 10"
| "send_rank (AtRead _) = 9"
| "send_rank (AtSend _ _ _) = 9"
| "send_rank (AtClose _) = 8"
| "send_rank AtRelease = 7"
| "send_rank (AtFailedClose _) = 6"
| "send_rank AtFailedRelease = 5"
| "send_rank (Returned _) = 4"

definition place_weight :: "thread_pc \<Rightarrow> 'w thread \<Rightarrow> nat" where
  "place_weight pc t =
     (case pc of
        AtTop \<Rightarrow> 16 * togo t + 3
      | Ended \<Rightarrow> 0
      | InSending _ spc \<Rightarrow> 16 * togo (after_send spc t) + send_rank spc)"

text \<open>The loops: the bytes of the store still to be read count three times.\<close>

definition place_fuel :: "'s \<Rightarrow> thread_pc \<Rightarrow> 'w thread \<Rightarrow> nat" where
  "place_fuel s pc t =
     (let rest = length (bytes s) - pos (world t)
      in case pc of
           InSending _ (AtRead _) \<Rightarrow> 3 * rest + 1
         | InSending _ (AtSend _ buf n) \<Rightarrow> 3 * rest + 2 + (length buf - nat n)
         | _ \<Rightarrow> 0)"

fun going_well :: "send_pc \<Rightarrow> bool" where
  "going_well (AtFailedClose _) = False"
| "going_well AtFailedRelease = False"
| "going_well (Returned rc) = (rc \<noteq> - 1)"
| "going_well _ = True"

definition place_good :: "thread_pc \<Rightarrow> 'w thread \<Rightarrow> bool" where
  "place_good pc t \<longleftrightarrow> reliable (world t) \<and> bd_buffer (rb_new t) \<noteq> None \<and>
     (case pc of InSending keep spc \<Rightarrow> keep \<and> going_well spc | _ \<Rightarrow> True)"

definition place_plan :: "thread_pc \<Rightarrow> 'w thread \<Rightarrow> byte list list" where
  "place_plan pc t =
     (case pc of AtTop \<Rightarrow> todo t | Ended \<Rightarrow> [] | InSending _ spc \<Rightarrow> todo (after_send spc t))"

lemmas place_defs = place_ok_def place_weight_def place_good_def place_plan_def

section \<open>Putting the shared part in\<close>

lemma resume_simps [simp]:
  "world (resume t) = world t" "rb_data (resume t) = rb_data t" "rb_new (resume t) = rb_new t"
  "heap (resume t) = heap t" "resume (t\<lparr>world := w\<rparr>) = (resume t)\<lparr>world := w\<rparr>"
  by (simp_all add: resume_def set_state_def)

lemma after_send_world: "after_send spc (t\<lparr>world := w\<rparr>) = (after_send spc t)\<lparr>world := w\<rparr>"
  by (cases spc) (simp_all add: resume_def set_state_def close_on_error_def)

lemma after_send_simps [simp]:
  "world (after_send spc t) = world t"
  "rb_data (after_send spc t) = rb_data t" "rb_new (after_send spc t) = rb_new t" "heap (after_send spc t) = heap t"
  by (cases spc; simp add: resume_def set_state_def close_on_error_def)+

lemma place_inv: "place_ok pc t \<Longrightarrow> pc \<noteq> Ended \<Longrightarrow> inv (world t)"
  by (auto simp: place_ok_def session_inv_def split: thread_pc.splits)

lemma load_place:
  assumes "place_ok pc t" "pc \<noteq> Ended" "sound d"
  shows "place_ok pc (t\<lparr>world := adopt d l (world t)\<rparr>)"
    "place_weight pc (t\<lparr>world := adopt d l (world t)\<rparr>) = place_weight pc t"
    "place_fuel s pc (t\<lparr>world := adopt d l (world t)\<rparr>) = place_fuel s pc t"
    "place_good pc (t\<lparr>world := adopt d l (world t)\<rparr>) = place_good pc t"
    "place_plan pc (t\<lparr>world := adopt d l (world t)\<rparr>) = place_plan pc t"
proof -
  note v = adopt_core[OF place_inv[OF assms(1,2)] assms(3), of l]
  have w: "inv (adopt d l (world t))" "inbox (adopt d l (world t)) = inbox (world t)" using v by simp_all
  note sw = session_world[of "adopt d l (world t)"]
  have send: "send_ok spc (t\<lparr>world := adopt d l (world t)\<rparr>) = send_ok spc t" for spc
    using v by (cases spc) simp_all
  show "place_ok pc (t\<lparr>world := adopt d l (world t)\<rparr>)"
    using assms(1) w sw(1) by (auto simp: place_ok_def after_send_world send split: thread_pc.splits)
  show "place_weight pc (t\<lparr>world := adopt d l (world t)\<rparr>) = place_weight pc t"
    "place_plan pc (t\<lparr>world := adopt d l (world t)\<rparr>) = place_plan pc t"
    using w sw(2,3) by (auto simp: place_weight_def place_plan_def after_send_world split: thread_pc.splits)
  show "place_fuel s pc (t\<lparr>world := adopt d l (world t)\<rparr>) = place_fuel s pc t"
    "place_good pc (t\<lparr>world := adopt d l (world t)\<rparr>) = place_good pc t"
    using v by (simp_all add: place_fuel_def place_good_def)
qed

section \<open>A step\<close>

definition free_result :: "thread_pc \<Rightarrow> 'w thread \<Rightarrow> thread_pc \<Rightarrow> 'w thread \<Rightarrow> bool" where
  "free_result pc t pc1 t1 \<longleftrightarrow>
     inv (world t1) \<and> \<not> locked (world t1) \<and> place_ok pc1 t1 \<and>
     (place_weight pc1 t1 < place_weight pc t \<or>
        place_weight pc1 t1 = place_weight pc t \<and> store (world t1) = store (world t) \<and>
        place_fuel (store (world t)) pc1 t1 < place_fuel (store (world t)) pc t) \<and>
     (place_good pc t \<longrightarrow> place_good pc1 t1 \<and>
        (store (world t1) = store (world t) \<and> place_plan pc1 t1 = place_plan pc t \<or>
         (\<exists>p. place_plan pc t = p # place_plan pc1 t1 \<and> store (world t1) = append (store (world t)) p)))"

lemma top_free:
  assumes "session_inv h0 t" "\<not> locked (world t)"
  shows "\<exists>pc1 t1. thread_small_step cfg sys AtTop t = Some (Inr (pc1, t1)) \<and> free_result AtTop t pc1 t1"
proof -
  from top_step[OF assms(1), of cfg] obtain pc1 t1 where
    s: "thread_small_step cfg sys AtTop t = Some (Inr (pc1, t1))" "outside_step h0 t pc1 t1" by blast
  have "free_result AtTop t pc1 t1"
    using s(2) assms(2) by (cases pc1) (auto simp: outside_step_def free_result_def private_turn_def place_defs)
  with s(1) show ?thesis by blast
qed

lemma closed_session: "session_inv h0 t \<Longrightarrow> session_inv h0 (set_state ClosedConnection t)"
  by (simp add: session_inv_def owns_def set_state_def)

lemma closed_togo [simp]: "togo (set_state ClosedConnection t) = 0" "todo (set_state ClosedConnection t) = []"
  by (simp_all add: togo_def todo_def set_state_def)

lemma resume_closed: "session_inv h0 (resume t) \<Longrightarrow> session_inv h0 (set_state ClosedConnection t)"
  by (simp add: session_inv_def owns_def set_state_def resume_def)

text \<open>A call that only moves the world.\<close>

lemma same_session: "same (world t) w \<Longrightarrow> session_inv h0 (after_send spc t) \<Longrightarrow>
    session_inv h0 (after_send spc (t\<lparr>world := w\<rparr>))"
  "same (world t) w \<Longrightarrow> togo (after_send spc (t\<lparr>world := w\<rparr>)) = togo (after_send spc t)"
  "same (world t) w \<Longrightarrow> todo (after_send spc (t\<lparr>world := w\<rparr>)) = todo (after_send spc t)"
  using session_world[of w "after_send spc t"] by (simp_all add: same_def after_send_world)

text \<open>The write: the packet is in the store, and the thread goes on with the rest.\<close>

lemma written_resume:
  assumes "session_inv h0 t" "thread_state (t_data t) = SendingData" "inv w" "inbox w = inbox (world t)"
  defines "t1 \<equiv> t\<lparr>rb_data := (rb_data t)\<lparr>bd_size := 0\<rparr>, world := w\<rparr>"
  shows "session_inv h0 (resume t1)" "togo (resume t1) < togo t" "todo t = received t # todo (resume t1)"
proof -
  have t: "buffers_ok t" "owns h0 t" "load t < 2 ^ 31" "finite (dom h0)"
    using assms(1,2) by (auto simp: session_inv_def)
  note e = emptied_buffers[OF t(1), of "resume t1"]
  have r: "heap (resume t1) = heap t" "rb_new (resume t1) = rb_new t" "rb_data (resume t1) = (rb_data t)\<lparr>bd_size := 0\<rparr>"
    "world (resume t1) = w"
    "thread_state (t_data (resume t1)) = (if 0 < bd_size (rb_new t) then ProcessingData else WaitingForData)"
    by (simp_all add: resume_def t1_def set_state_def)
  note e = emptied_buffers[OF t(1) r(1-3)]
  have "owns h0 (resume t1)" using t(2) r(1-3) by (simp add: owns_def)
  moreover have "load (resume t1) < 2 ^ 31" using t(3) e r(4) assms(4) by (simp add: load_def)
  ultimately show "session_inv h0 (resume t1)"
    using r e t(4) assms(3) by (simp add: session_inv_def word_gt_0)
  show "togo (resume t1) < togo t"
    using assms(2,4) r e unread_size(2)[OF t(1)] by (simp add: togo_def word_gt_0)
  show "todo t = received t # todo (resume t1)"
    using assms(2,4) r e unread_size(2)[OF t(1)] by (simp add: todo_def Let_def)
qed

lemma free_write:
  assumes "place_ok (InSending keep (AtWrite fd)) t" "\<not> locked (world t)"
  shows "\<exists>pc1 t1. send_step cfg sys (AtWrite fd) t = Inr (pc1, t1) \<and>
    free_result (InSending keep (AtWrite fd)) t (InSending keep pc1) t1"
proof -
  have s: "session_inv h0 t" "thread_state (t_data t) = SendingData" "ready (world t)"
    using assms(1) by (simp_all add: place_ok_def)
  then have p: "inv (world t)" "buffers_ok t" "received t \<noteq> []" "last (received t) = newline"
    "length (received t) < 2 ^ 31" by (auto simp: session_inv_def load_def)
  obtain rc w1 where o: "write_to_file sys fd (received t) (world t) = (rc, w1)"
    by (cases "write_to_file sys fd (received t) (world t)")
  note w = write_to_file_ok[OF p(1,3-5) o]
  show ?thesis
  proof (cases "rc = - 1")
    case True
    have "session_inv h0 (set_state ClosedConnection (t\<lparr>world := w1\<rparr>))"
      using session_world(1)[OF _ _ s(1), of w1] w by (intro closed_session) simp
    moreover have "2 \<le> togo t" using s(2) by (simp add: togo_def)
    ultimately have "free_result (InSending keep (AtWrite fd)) t (InSending keep (AtFailedClose fd)) (t\<lparr>world := w1\<rparr>)"
      using w assms(2) True by (auto simp: free_result_def place_defs)
    with True o received_read[OF p(2,3)] show ?thesis by auto
  next
    case False
    let ?t1 = "t\<lparr>rb_data := (rb_data t)\<lparr>bd_size := 0\<rparr>, world := w1\<rparr>"
    have "inv w1" "inbox w1 = inbox (world t)" using w by simp_all
    note wr = written_resume[OF s(1,2) this]
    have "free_result (InSending keep (AtWrite fd)) t (InSending keep (AtSeek fd)) ?t1"
      using wr w assms(2) s(3) False by (auto simp: free_result_def place_defs)
    with False o received_read[OF p(2,3)] show ?thesis by auto
  qed
qed

text \<open>The loop that reads the store and sends it: the position only grows.\<close>

lemma free_read:
  assumes "place_ok (InSending keep (AtRead fd)) t" "\<not> locked (world t)"
  shows "\<exists>pc1 t1. send_step cfg sys (AtRead fd) t = Inr (pc1, t1) \<and>
    free_result (InSending keep (AtRead fd)) t (InSending keep pc1) t1"
proof -
  have s: "session_inv h0 (resume t)" using assms(1) by (simp add: place_ok_def)
  have inv: "inv (world t)" using place_inv[OF assms(1)] by simp
  obtain n bs w1 where o: "read_from_file sys fd SEND_BUFFER_SIZE (world t) = ((n, bs), w1)"
    by (metis prod.exhaust)
  note r = read_from_file_ok[OF inv o]
  have same: "same (world t) w1" using r by simp
  have rest: "Suc (3 * (length (bytes (store (world t))) - pos w1) + length bs) <
      3 * (length (bytes (store (world t))) - pos (world t))" if "n > 0"
  proof -
    have b: "bs = take (length bs) (drop (pos (world t)) (bytes (store (world t))))" "pos w1 = pos (world t) + length bs"
      using r that by auto
    have "length bs \<le> length (bytes (store (world t))) - pos (world t)"
      using arg_cong[OF b(1), of length] by (simp add: min_def split: if_splits)
    moreover have "0 < length bs" using r that by auto
    ultimately show ?thesis using b(2) by linarith
  qed
  let ?pc = "if n > 0 then AtSend fd bs 0 else if n = - 1 then AtFailedClose fd else AtClose fd"
  have "free_result (InSending keep (AtRead fd)) t (InSending keep ?pc) (t\<lparr>world := w1\<rparr>)"
    using same_session[OF same, of "AtRead fd"] same_session[OF same, of "AtSend fd bs 0"]
      resume_closed[of "t\<lparr>world := w1\<rparr>"] s same r rest assms(2)
    by (auto simp: free_result_def place_defs place_fuel_def same_def Let_def)
  with o show ?thesis by auto
qed

lemma free_send:
  assumes "place_ok (InSending keep (AtSend fd buf n)) t" "\<not> locked (world t)"
  shows "\<exists>pc1 t1. send_step cfg sys (AtSend fd buf n) t = Inr (pc1, t1) \<and>
    free_result (InSending keep (AtSend fd buf n)) t (InSending keep pc1) t1"
proof -
  have s: "session_inv h0 (resume t)" "0 \<le> n" using assms(1) by (simp_all add: place_ok_def)
  have inv: "inv (world t)" using place_inv[OF assms(1)] by simp
  show ?thesis
  proof (cases "n < int (length buf)")
    case False
    then have "free_result (InSending keep (AtSend fd buf n)) t (InSending keep (AtRead fd)) t"
      using s inv assms(2) by (auto simp: free_result_def place_defs place_fuel_def Let_def)
    with False show ?thesis by auto
  next
    case True
    then have ne: "drop (nat n) buf \<noteq> []" using s(2) by auto
    obtain m w1 where o: "sys_send sys (client_fd (t_data t)) (drop (nat n) buf) (world t) = (m, w1)"
      by (cases "sys_send sys (client_fd (t_data t)) (drop (nat n) buf) (world t)")
    note w = send_law[OF inv ne o]
    have sw: "session_inv h0 (resume (t\<lparr>world := w1\<rparr>))" "togo (resume (t\<lparr>world := w1\<rparr>)) = togo (resume t)"
      "todo (resume (t\<lparr>world := w1\<rparr>)) = todo (resume t)"
      using session_world[of w1 "resume t"] w s(1) by simp_all
    let ?pc = "if m = - 1 then AtFailedClose fd else AtSend fd buf (n + m)"
    have "free_result (InSending keep (AtSend fd buf n)) t (InSending keep ?pc) (t\<lparr>world := w1\<rparr>)"
      using sw resume_closed[OF sw(1)] w True s(2) assms(2)
      by (auto simp: free_result_def place_defs place_fuel_def Let_def)
    with True o show ?thesis by auto
  qed
qed

lemma no_mutex [simp]: "get_file_mutex cfg sys w = (0, w)" "release_file_mutex cfg sys w = (0, w)"
  using unlocking by (simp_all add: get_file_mutex_def release_file_mutex_def)

lemma sending_togo: "thread_state (t_data t) = SendingData \<Longrightarrow> 2 \<le> togo t"
  by (simp add: togo_def)

lemma same_closed:
  "same (world t) w \<Longrightarrow> session_inv h0 t \<Longrightarrow> session_inv h0 (set_state ClosedConnection (t\<lparr>world := w\<rparr>))"
  using session_world(1)[of w t] by (intro closed_session) (simp add: same_def)

lemma same_resume:
  assumes "same (world t) w"
  shows "session_inv h0 (resume t) \<Longrightarrow> session_inv h0 ((resume t)\<lparr>world := w\<rparr>)"
    "togo ((resume t)\<lparr>world := w\<rparr>) = togo (resume t)" "todo ((resume t)\<lparr>world := w\<rparr>) = todo (resume t)"
  using session_world[of w "resume t"] assms by (simp_all add: same_def)

lemma same_unsent:
  assumes "same (world t) w"
  shows "session_inv h0 t \<Longrightarrow> session_inv h0 (t\<lparr>world := w\<rparr>)"
    "togo (t\<lparr>world := w\<rparr>) = togo t" "todo (t\<lparr>world := w\<rparr>) = todo t"
  using session_world[of w t] assms by (simp_all add: same_def)

lemma free_open:
  assumes "place_ok (InSending keep AtOpen) t" "\<not> locked (world t)"
  shows "\<exists>pc1 t1. send_step cfg sys AtOpen t = Inr (pc1, t1) \<and>
    free_result (InSending keep AtOpen) t (InSending keep pc1) t1"
proof -
  have s: "session_inv h0 t" "thread_state (t_data t) = SendingData" using assms(1) by (simp_all add: place_ok_def)
  obtain fd w1 where o: "open_file_for_read_write sys (world t) = (fd, w1)"
    by (cases "open_file_for_read_write sys (world t)")
  have inv: "inv (world t)" using place_inv[OF assms(1)] by simp
  note w = open_ok[OF inv o]
  have "free_result (InSending keep AtOpen) t
      (InSending keep (if fd = - 1 then AtFailedRelease else AtWrite fd)) (t\<lparr>world := w1\<rparr>)"
    using same_closed[OF w(1) s(1)] same_unsent[OF w(1)] s w sending_togo[OF s(2)] assms(2)
    by (auto simp: free_result_def place_defs same_def)
  with o show ?thesis by auto
qed

lemma free_close:
  assumes "place_ok (InSending keep (AtClose fd)) t" "\<not> locked (world t)"
  shows "\<exists>pc1 t1. send_step cfg sys (AtClose fd) t = Inr (pc1, t1) \<and>
    free_result (InSending keep (AtClose fd)) t (InSending keep pc1) t1"
proof -
  have s: "session_inv h0 (resume t)" using assms(1) by (simp add: place_ok_def)
  obtain n w1 where o: "sys_close sys fd (world t) = (n, w1)" by (cases "sys_close sys fd (world t)")
  have inv: "inv (world t)" using place_inv[OF assms(1)] by simp
  note w = close_law[OF inv o]
  have w1: "same (world t) w1" using w by simp
  have "free_result (InSending keep (AtClose fd)) t
      (InSending keep (if n = - 1 then AtFailedRelease else AtRelease)) (t\<lparr>world := w1\<rparr>)"
    using same_resume[OF w1] resume_closed[of "t\<lparr>world := w1\<rparr>"] s w assms(2)
    by (auto simp: free_result_def place_defs same_def)
  with o show ?thesis by auto
qed

lemma free_failed_close:
  assumes "place_ok (InSending keep (AtFailedClose fd)) t" "\<not> locked (world t)"
  shows "\<exists>pc1 t1. send_step cfg sys (AtFailedClose fd) t = Inr (pc1, t1) \<and>
    free_result (InSending keep (AtFailedClose fd)) t (InSending keep pc1) t1"
proof -
  have s: "session_inv h0 (set_state ClosedConnection t)" using assms(1) by (simp add: place_ok_def)
  have inv: "inv (world t)" using place_inv[OF assms(1)] by simp
  let ?w1 = "snd (sys_close sys fd (world t))"
  have w1: "same (world t) ?w1" using close_law[OF inv surjective_pairing] by simp
  have "session_inv h0 (set_state ClosedConnection (t\<lparr>world := ?w1\<rparr>))"
    using s w1 by (simp add: session_inv_def owns_def set_state_def same_def)
  then show ?thesis using w1 assms(2) by (auto simp: free_result_def place_defs same_def)
qed

lemma free_send_step:
  assumes "place_ok (InSending keep pc) t" "\<not> locked (world t)" "\<nexists>rc. pc = Returned rc"
  shows "\<exists>pc1 t1. send_step cfg sys pc t = Inr (pc1, t1) \<and>
    free_result (InSending keep pc) t (InSending keep pc1) t1"
proof -
  have inv: "inv (world t)" using place_inv[OF assms(1)] by simp
  show ?thesis
  proof (cases pc)
    case AtLock
    then have "free_result (InSending keep pc) t (InSending keep AtOpen) t"
      using assms inv by (auto simp: free_result_def place_defs)
    with AtLock show ?thesis by simp
  next
    case (AtSeek fd)
    have s: "session_inv h0 (resume t)" "ready (world t)" using assms(1) AtSeek by (simp_all add: place_ok_def)
    have w: "same (world t) (sys_lseek sys fd (world t))" using lseek_law[OF inv s(2)] by simp
    have "free_result (InSending keep pc) t (InSending keep (AtRead fd)) (t\<lparr>world := sys_lseek sys fd (world t)\<rparr>)"
      using same_resume[OF w] s w assms(2) AtSeek by (auto simp: free_result_def place_defs same_def)
    with AtSeek show ?thesis by auto
  next
    case AtRelease
    have s: "session_inv h0 (resume t)" using assms(1) AtRelease by (simp add: place_ok_def)
    have "free_result (InSending keep pc) t (InSending keep (Returned 0)) (resume t)"
      using s inv assms(2) AtRelease by (auto simp: free_result_def place_defs)
    with AtRelease show ?thesis by (auto simp: resume_def Let_def)
  next
    case AtFailedRelease
    have "free_result (InSending keep pc) t (InSending keep (Returned (- 1))) t"
      using assms inv AtFailedRelease by (auto simp: free_result_def place_defs)
    with AtFailedRelease show ?thesis by simp
  qed (use assms free_open free_write free_read free_send free_close free_failed_close in auto)
qed

lemma place_free:
  assumes "place_ok pc t" "\<not> locked (world t)" "pc \<noteq> Ended"
  shows "\<exists>pc1 t1. thread_small_step cfg sys pc t = Some (Inr (pc1, t1)) \<and> free_result pc t pc1 t1"
proof (cases pc)
  case AtTop
  with assms top_free show ?thesis by (simp add: place_ok_def)
next
  case (InSending keep spc)
  show ?thesis
  proof (cases "\<exists>rc. spc = Returned rc")
    case True
    then obtain rc where rc: "spc = Returned rc" ..
    have s: "session_inv h0 (close_on_error (rc, t))" using assms(1) InSending rc by (simp add: place_ok_def)
    have x: "world (close_on_error (rc, t)) = world t" "rb_new (close_on_error (rc, t)) = rb_new t"
      using after_send_simps[of "Returned rc" t] by simp_all
    show ?thesis
      using s x assms(2) InSending rc
      by (auto simp: small_step_InSending leave_ok[OF s] free_result_def place_defs session_inv_def[of h0 "close_on_error (rc, t)"])
  next
    case False
    with free_send_step[of keep spc t] assms(1,2) InSending show ?thesis
      by (cases spc) (auto simp: small_step_InSending simp del: send_step.simps)
  qed
qed (use assms(3) in simp)

section \<open>The interfaces\<close>

fun runner_ok :: "'w member \<Rightarrow> bool" where
  "runner_ok (Client pc t) = place_ok pc t"
| "runner_ok (Stamper _ _ _) = False"

fun runner_weight :: "'w member \<Rightarrow> nat" where
  "runner_weight (Client pc t) = place_weight pc t"
| "runner_weight (Stamper _ _ _) = 0"

fun runner_fuel :: "'d \<Rightarrow> 'w member \<Rightarrow> nat" where
  "runner_fuel d (Client pc t) = place_fuel (view d) pc t"
| "runner_fuel d (Stamper _ _ _) = 0"

fun runner_good :: "'w member \<Rightarrow> bool" where
  "runner_good (Client pc t) = place_good pc t"
| "runner_good (Stamper _ _ _) = False"

fun runner_plan :: "'w member \<Rightarrow> byte list list" where
  "runner_plan (Client pc t) = place_plan pc t"
| "runner_plan (Stamper _ _ _) = []"

lemma runner_move:
  assumes "sound d" "place_ok pc t" "pc \<noteq> Ended"
  shows "\<exists>d1 pc1 t1. member_move cfg sys sh d False (Client pc t) = Some (Inr (d1, False, Client pc1 t1)) \<and>
    sound d1 \<and> place_ok pc1 t1 \<and>
    (place_weight pc1 t1 < place_weight pc t \<or>
       place_weight pc1 t1 = place_weight pc t \<and> view d1 = view d \<and> place_fuel (view d) pc1 t1 < place_fuel (view d) pc t) \<and>
    (place_good pc t \<longrightarrow> place_good pc1 t1 \<and>
       (view d1 = view d \<and> place_plan pc1 t1 = place_plan pc t \<or>
        (\<exists>p. place_plan pc t = p # place_plan pc1 t1 \<and> view d1 = append (view d) p)))"
proof -
  let ?t = "t\<lparr>world := adopt d False (world t)\<rparr>"
  note ld = load_place[OF assms(2,3,1), where l = False]
  have a: "\<not> locked (world ?t)" "store (world ?t) = view d"
    using adopt_core[OF place_inv[OF assms(2,3)] assms(1), of False] core_view[of "world ?t"] by auto
  from place_free[OF ld(1) a(1) assms(3)] obtain pc1 t1 where
    m: "thread_small_step cfg sys pc ?t = Some (Inr (pc1, t1))" "free_result pc ?t pc1 t1" by blast
  then have "inv (world t1)" "\<not> locked (world t1)" by (simp_all add: free_result_def)
  with core_view[OF this(1)] m(1) assms(3) have
    "member_move cfg sys sh d False (Client pc t) = Some (Inr (core (world t1), False, Client pc1 t1))"
    "sound (core (world t1))" "store (world t1) = view (core (world t1))"
    by (simp_all add: member_move_def)
  with m(2) show ?thesis unfolding free_result_def a(2) ld(2-5)
    by (intro exI[of _ "core (world t1)"] exI[of _ pc1] exI[of _ t1]) auto
qed

sublocale runners: free_turns "member_move cfg sys sh" member_ended sound runner_ok runner_weight runner_fuel
proof (unfold_locales, goal_cases)
  case (1 m s l)
  then show ?case by (cases m) (auto simp: member_move_def)
next
  case (2 s m)
  then obtain pc t where m: "m = Client pc t" "place_ok pc t" "pc \<noteq> Ended" by (cases m) auto
  from runner_move[OF 2(1) m(2,3)] obtain d1 pc1 t1 where
    "member_move cfg sys sh s False m = Some (Inr (d1, False, Client pc1 t1))" "sound d1" "place_ok pc1 t1"
    "place_weight pc1 t1 < place_weight pc t \<or>
       place_weight pc1 t1 = place_weight pc t \<and> view d1 = view s \<and> place_fuel (view s) pc1 t1 < place_fuel (view s) pc t"
    unfolding m(1) by blast
  moreover have "runner_fuel d1 = runner_fuel s" if "view d1 = view s"
  proof
    show "runner_fuel d1 x = runner_fuel s x" for x using that by (cases x) simp_all
  qed
  ultimately show ?case unfolding m(1)
    by (intro exI[of _ d1] exI[of _ "Client pc1 t1"]) auto
qed

sublocale runners: logged_free "member_move cfg sys sh" member_ended sound runner_ok runner_weight runner_fuel
  view append runner_good runner_plan
proof (intro logged_free.intro runners.free_turns_axioms logged_free_axioms.intro)
  show "runner_plan m = []" if "member_ended m" for m
    using that by (cases m) (auto simp: place_plan_def)
  show "runner_good m1 \<and> (view s1 = view s \<and> runner_plan m1 = runner_plan m \<or>
      (\<exists>p. runner_plan m = p # runner_plan m1 \<and> view s1 = append (view s) p))"
    if "sound s" "runner_ok m" "\<not> member_ended m" "runner_good m"
      "member_move cfg sys sh s False m = Some (Inr (s1, False, m1))" for s m s1 m1
  proof -
    from that(2,3) obtain pc t where m: "m = Client pc t" "place_ok pc t" "pc \<noteq> Ended" by (cases m) auto
    from runner_move[OF that(1) m(2,3)] that(4,5) show ?thesis unfolding m(1) by auto
  qed
qed

end

end
