(* ===== verification/Device_Crowd.thy ===== *)
theory Device_Crowd
  imports Free_Crowd Crowd_Props Socket_Props
begin

text \<open>
  The server's threads on the character device under any schedule. This build has no mutex: what
  keeps the packets whole is that one \<open>write\<close> of the driver stores a line, and what ends the loops
  is that the position of an open file only grows. What a client is sent may mix with the packets
  of the others, as the last theorem shows.
\<close>

section \<open>The crowd on the device\<close>

definition device_adopt :: "driver \<Rightarrow> bool \<Rightarrow> device_world \<Rightarrow> device_world" where
  "device_adopt d l w = w\<lparr>dv := d, cs_locked := l\<rparr>"

definition device_sharing :: "(driver, device_world) sharing" where
  "device_sharing = \<lparr>sh_store = dv, sh_locked = cs_locked, sh_adopt = device_adopt\<rparr>"

text \<open>No process waits: there is nothing to wait for.\<close>

abbreviation device_turns ::
  "nat list \<Rightarrow> (driver, device_world member) crowd \<Rightarrow> (fault + (driver, device_world member) crowd) option" where
  "device_turns \<equiv> run_schedule (member_move demo_device_build device_sys device_sharing) (\<lambda>_. False)"

definition driver_ok :: "driver \<Rightarrow> bool" where
  "driver_ok d \<longleftrightarrow> line_inv d \<and> (\<forall>l \<in> set (held_lines d). length l < 2 ^ 31)"

lemma device_adopt_simps [simp]:
  "dv (device_adopt d l w) = d" "dv_pos (device_adopt d l w) = dv_pos w" "cs_locked (device_adopt d l w) = l"
  "cs_inbox (device_adopt d l w) = cs_inbox w" "cs_outbox (device_adopt d l w) = cs_outbox w"
  "no_faults (device_adopt d l w) = no_faults w"
  by (simp_all add: device_adopt_def no_faults_def)

lemma device_ok_driver: "device_ok w = driver_ok (dv w)"
  by (simp add: device_ok_def driver_ok_def)

interpretation free: free_env device_sys device_ok device_lines "\<lambda>w. unat (dv_pos w)" cs_locked cs_inbox
  cs_outbox no_faults "\<lambda>w. dv_pos w = 0" ring_push concat demo_device_build dv held_lines driver_ok device_adopt
  Map.empty
  by unfold_locales (simp_all add: demo_device_build_def device_ok_driver device_lines_def)

text \<open>The start: a device in any state between two lines, and a thread for each client.\<close>

definition device_start ::
  "driver \<Rightarrow> (ThreadData \<times> device_world) list \<Rightarrow> fault + (driver, device_world member) crowd" where
  "device_start d cls =
     bindE (begin_all device_sys (map (\<lambda>(x, w). (x, device_adopt d False w)) cls)) (\<lambda>ts.
       Inr \<lparr>cr_store = d, cr_locked = False, cr_members = map (Client AtTop) ts\<rparr>)"

lemma device_start_ok:
  assumes "device_start d cls = Inr c" "driver_ok d" "list_all fit_client cls"
  shows "free.runners.free_ok c" "cr_store c = d" "length (cr_members c) = length cls"
    "\<And>i. i < length cls \<Longrightarrow> free.runner_plan (cr_members c ! i) = packets [] (cs_inbox (snd (cls ! i))) \<and>
      (no_faults (snd (cls ! i)) \<longrightarrow> free.runner_good (cr_members c ! i))"
proof -
  let ?cls = "map (\<lambda>(x, w). (x, device_adopt d False w)) cls"
  obtain ts where ts: "begin_all device_sys ?cls = Inr ts" and
    c: "c = \<lparr>cr_store = d, cr_locked = False, cr_members = map (Client AtTop) ts\<rparr>"
    using assms(1) by (auto simp: device_start_def bindE_eq_Inr)
  have "\<forall>(x, w) \<in> set ?cls. device_ok w \<and> \<not> cs_locked w \<and> thread_state x = WaitingForData \<and> length (cs_inbox w) < 2 ^ 31"
    using assms(2,3) by (auto simp: fit_client_def list_all_iff device_ok_driver)
  note nth = device.begin_all_nth[OF ts this]
  show "cr_store c = d" "length (cr_members c) = length cls" using c nth by simp_all
  have "\<forall>m \<in> set (map (Client AtTop) ts). free.runner_ok m"
    using nth by (auto simp: in_set_conv_nth free.place_ok_def)
  then show "free.runners.free_ok c" using assms(2) by (simp add: free.runners.free_ok_def c)
  show "free.runner_plan (cr_members c ! i) = packets [] (cs_inbox (snd (cls ! i))) \<and>
      (no_faults (snd (cls ! i)) \<longrightarrow> free.runner_good (cr_members c ! i))" if "i < length cls" for i
    using nth that by (auto simp: c free.place_plan_def free.place_good_def split_beta)
qed

text \<open>Two clients, which send two packets and one, in pieces, and the device fresh from its initialisation.\<close>

definition demo_device_client :: "byte list \<Rightarrow> nat list \<Rightarrow> device_world" where
  "demo_device_client inbox chunks =
     \<lparr>cs_inbox = inbox, cs_outbox = [], cs_locked = False, cs_faults = [], cs_chunks = chunks,
      dv = demo_device, dv_pos = 0\<rparr>"

definition demo_device_clients :: "(ThreadData \<times> device_world) list" where
  "demo_device_clients =
     [(\<lparr>client_fd = 4, thread_state = WaitingForData, thread_complete_success = False\<rparr>,
       demo_device_client [97, newline, 98, newline] [1, 2]),
      (\<lparr>client_fd = 5, thread_state = WaitingForData, thread_complete_success = False\<rparr>,
       demo_device_client [99, newline] [])]"

lemma demo_driver_ok: "driver_ok demo_device"
  using demo_device_state by (simp add: driver_ok_def line_inv_def)

lemma demo_device_crowd:
  "\<exists>c. device_start demo_device demo_device_clients = Inr c" "list_all fit_client demo_device_clients"
  "\<forall>x \<in> set demo_device_clients. no_faults (snd x)" "length demo_device_clients = 2"
  by (simp_all add: device_start_def demo_device_clients_def demo_device_client_def begin_thread_def device_adopt_def
      device_sys_def cs_simple_def cs_alloc_def next_fault_def fit_client_def no_faults_def
      first_free.simps mem_alloc_def)

section \<open>Properties\<close>

text \<open>
  Every schedule that comes back to every thread ends all of them on the device too, without a
  mutex and whichever calls of the server or of the driver fail.
\<close>

theorem device_schedules_end:
  assumes "device_start d cls = Inr c" "driver_ok d" "list_all fit_client cls" "fair \<sigma> (length cls)"
  shows "\<exists>k c'. device_turns (first_turns \<sigma> k) c = Some (Inr c') \<and> (\<forall>m \<in> set (cr_members c'). member_ended m)"
proof -
  note st = device_start_ok[OF assms(1-3)]
  from free.runners.fair_schedule_ends[OF st(1), of \<sigma>] assms(4) st(3) show ?thesis
    unfolding device_sharing_def by auto
qed

theorem device_schedules_end_witness:
  "\<exists>c k c'. device_start demo_device demo_device_clients = Inr c \<and>
    device_turns (first_turns (\<lambda>j. j mod 2) k) c = Some (Inr c') \<and> (\<forall>m \<in> set (cr_members c'). member_ended m)"
proof -
  obtain c where c: "device_start demo_device demo_device_clients = Inr c" using demo_device_crowd(1) by blast
  have "fair (\<lambda>j. j mod 2) (length demo_device_clients)" using round_robin_fair[of 2] demo_device_crowd(4) by simp
  from device_schedules_end[OF c demo_driver_ok demo_device_crowd(2) this] c show ?thesis by blast
qed

text \<open>
  When no call fails, a run of the server on the device that has ended all threads has stored
  the packets of all clients, each as one whole line, in some order that is the client's own for
  the packets of one client; the device holds the last ten of its old lines and of these. There is
  no mutex in this build: one write of the driver is what keeps a packet whole.
\<close>

theorem device_packets_stay_whole:
  assumes "device_start d cls = Inr c" "driver_ok d" "list_all fit_client cls"
    "\<forall>x \<in> set cls. no_faults (snd x)"
    "device_turns schedule c = Some (Inr c')" "\<forall>m \<in> set (cr_members c'). member_ended m"
  shows "\<exists>L. held_lines (cr_store c') = take_last max_ops (held_lines d @ map snd L) \<and>
    (\<forall>i < length cls. own i L = packets [] (cs_inbox (snd (cls ! i))))"
proof -
  note st = device_start_ok[OF assms(1-3)]
  have good: "\<forall>m \<in> set (cr_members c). free.runner_good m"
    using st(3,4) assms(4) by (simp add: all_set_conv_all_nth)
  have run: "run_schedule (member_move demo_device_build device_sys free.sh) (\<lambda>_. False) schedule c = Some (Inr c')"
    using assms(5) by (simp add: device_sharing_def)
  have "length (held_lines d) \<le> max_ops" using held_count_le by (simp add: held_lines_def)
  with free.runners.entries_of_ended_run[OF st(1) good run assms(6)] st(2-4) show ?thesis
    by (simp add: foldl_ring_push)
qed

theorem device_packets_stay_whole_witness:
  "\<exists>c k c' L. device_start demo_device demo_device_clients = Inr c \<and>
    device_turns (first_turns (\<lambda>j. j mod 2) k) c = Some (Inr c') \<and>
    held_lines (cr_store c') = take_last max_ops (map snd L) \<and>
    own 0 L = [[97, newline], [98, newline]] \<and> own 1 L = [[99, newline]]"
proof -
  obtain c where c: "device_start demo_device demo_device_clients = Inr c" using demo_device_crowd(1) by blast
  note st = device_start_ok[OF c demo_driver_ok demo_device_crowd(2)]
  have "fair (\<lambda>j. j mod 2) (length (cr_members c))" using round_robin_fair[of 2] demo_device_crowd(4) st(3) by simp
  from free.runners.fair_schedule_ends[OF st(1) this] obtain k c' where
    c': "device_turns (first_turns (\<lambda>j. j mod 2) k) c = Some (Inr c')" "\<forall>m \<in> set (cr_members c'). member_ended m"
    unfolding device_sharing_def by blast
  from device_packets_stay_whole[OF c demo_driver_ok demo_device_crowd(2,3) c'] obtain L where
    L: "held_lines (cr_store c') = take_last max_ops (map snd L)"
    "\<forall>i < length demo_device_clients. own i L = packets [] (cs_inbox (snd (demo_device_clients ! i)))"
    using demo_device_state(2) by auto
  have "own 0 L = [[97, newline], [98, newline]]" "own 1 L = [[99, newline]]"
    using L(2) by (auto simp: demo_device_clients_def demo_device_client_def packets_def newline_def)
  then show ?thesis using c c'(1) L(1) by blast
qed

text \<open>What the calls give when none fails.\<close>

lemma device_write_gives:
  assumes "device_ok w" "no_faults w" "p \<noteq> []" "last p = newline" "length p < 2 ^ 31"
  shows "\<exists>w1. write_to_file device_sys fd p w = (int (length p), w1) \<and> device_ok w1 \<and>
    device_lines w1 = ring_push (device_lines w) p \<and> cs_locked w1 = cs_locked w"
proof -
  obtain n w1 where o: "device_write fd p w = (n, w1)" by (cases "device_write fd p w")
  have n: "n = int (length p)" using device_write_cases[OF assms(1,3-5) o] assms(2) by blast
  with device_write_cases[OF assms(1,3-5) o] assms(3,5) o show ?thesis
    by (auto simp: write_to_file_def device_sys_def to_c_int_short)
qed

lemma device_read_gives:
  assumes "device_ok w" "no_faults w" "length (drop (unat (dv_pos w)) (concat (device_lines w))) < 1024"
  defines "bs \<equiv> drop (unat (dv_pos w)) (concat (device_lines w))"
  shows "\<exists>w1. read_from_file device_sys fd SEND_BUFFER_SIZE w = ((int (length bs), bs), w1) \<and>
    dv w1 = dv w \<and> cs_locked w1 = cs_locked w"
proof -
  obtain f w1 where f: "next_fault w = (f, w1)" by (cases "next_fault w")
  note fs = next_fault_simps[OF f] and m = device_more[OF next_fault_simps(4)[OF f]]
  have "f = None" using fs(5)[OF assms(2)] by simp
  moreover have "dev_inv (dv w)" using assms(1) by (simp add: device_ok_def line_inv_def)
  moreover have "length bs = min 1023 (length (device_bytes (dv w)) - unat (dv_pos w))"
    using assms(3) by (simp add: bs_def device_lines_def)
  moreover have "to_c_int (int (length bs)) = int (length bs)" using assms(3) by (simp add: to_c_int_id bs_def)
  ultimately show ?thesis
    using device_read_handler[of "dv w" 1023 f "dv_pos w"] device_size[OF assms(1)] f fs m
    by (auto simp: read_from_file_def device_sys_def device_read_def SEND_BUFFER_SIZE_def to_c_int_short bs_def
        device_lines_def)
qed

text \<open>A thread at the next read of a reply and another one at its write.\<close>

definition reader_and_writer ::
  "driver \<Rightarrow> int \<Rightarrow> device_world thread \<Rightarrow> int \<Rightarrow> device_world thread \<Rightarrow> (driver, device_world member) crowd" where
  "reader_and_writer d fd t gd u = \<lparr>cr_store = d, cr_locked = False,
     cr_members = [Client (InSending True (AtRead fd)) t, Client (InSending True (AtWrite gd)) u]\<rparr>"


text \<open>A device that holds ten empty lines.\<close>

lemma empty_lines_device: "n \<le> max_ops \<Longrightarrow> \<exists>d. driver_ok d \<and> held_lines d = replicate n [newline]"
proof (induction n)
  case 0
  then show ?case using demo_driver_ok demo_device_state(2) by auto
next
  case (Suc n)
  then obtain d where d: "driver_ok d" "held_lines d = replicate n [newline]" by auto
  let ?w = "demo_device_client [] []\<lparr>dv := d\<rparr>"
  have "device_ok ?w" "no_faults ?w"
    using d(1) by (simp_all add: device_ok_driver demo_device_client_def no_faults_def)
  from device_write_gives[OF this, of "[newline]" 3] obtain w1 where
    "device_ok w1" "device_lines w1 = ring_push (held_lines d) [newline]" by (auto simp: device_lines_def)
  with Suc.prems d(2) show ?case
    by (intro exI[of _ "dv w1"])
      (simp add: device_ok_driver device_lines_def ring_push_def take_last_def replicate_append_same)
qed

definition demo_device_thread :: "nat \<Rightarrow> memory \<Rightarrow> device_world thread" where
  "demo_device_thread pos h =
     \<lparr>t_data = \<lparr>client_fd = 4, thread_state = SendingData, thread_complete_success = False\<rparr>,
      rb_data = \<lparr>bd_buffer = Some 0, bd_size = 3, bd_allocated = 1024\<rparr>,
      rb_new = \<lparr>bd_buffer = None, bd_size = 0, bd_allocated = 1024\<rparr>,
      heap = h, world = (demo_device_client [] [])\<lparr>dv_pos := word_of_nat pos\<rparr>\<rparr>"


end
