(* ===== verification/Main_Calls.thy ===== *)
theory Main_Calls
  imports Socket_Joins
begin

text \<open>
  What every call of the main thread does to the system's state, its functions do too: the locale
  \<open>call_relation\<close> lifts a reflexive and transitive relation from the single calls, \<open>accept\<close>, \<open>unlink\<close>
  and the creation of threads apart, and from a whole time stamp, to the functions that make none of the
  three, \<open>accept_relation\<close> to those that create no thread, and \<open>every_call\<close> to a pass of the loop. The theories of the
  live server use it for what goes on in the client threads meanwhile.
\<close>

section \<open>Time stamps\<close>

text \<open>A relation that holds for each call of a time stamp holds for the whole, if nothing has to hold meanwhile.\<close>

lemma write_time_stamp_relates:
  assumes refl: "\<And>w. R w w" and trans: "\<And>w w' w''. R w w' \<Longrightarrow> R w' w'' \<Longrightarrow> R w w''"
    and calls: "\<And>w. R w (snd (os_strftime os w))" "\<And>w. R w (snd (sys_open (os_file os) w))"
      "\<And>n bs w. R w (snd (sys_write (os_file os) n bs w))" "\<And>n w. R w (snd (sys_close (os_file os) n w))"
      "\<And>w. R w (snd (sys_lock (os_file os) w))" "\<And>w. R w (snd (sys_unlock (os_file os) w))"
  shows "R w (snd (write_time_stamp cfg os w))"
proof -
  note after = trans[OF _ calls(1)] trans[OF _ calls(2)] trans[OF _ calls(3)] trans[OF _ calls(4)]
    trans[OF _ calls(5)] trans[OF _ calls(6)]
  show ?thesis
    by (auto simp: write_time_stamp_def get_file_mutex_def release_file_mutex_def
        open_file_for_read_write_def write_to_file_def close_and_release_def Let_def split_beta
        intro!: refl after)
qed

section \<open>Calls other than accept, unlink and the creation of a thread\<close>

locale call_relation = thread_env os arg closed opened
  for os :: "'w os" and arg :: "'w \<Rightarrow> int \<Rightarrow> addr option" and closed :: "'w \<Rightarrow> int list"
    and opened :: "'w \<Rightarrow> int list" +
  fixes cfg :: build
    and R :: "'w \<Rightarrow> 'w \<Rightarrow> bool"
  assumes R_refl: "R w w"
    and R_trans: "R w w' \<Longrightarrow> R w' w'' \<Longrightarrow> R w w''"
    and R_call: "(\<And>fd. c \<noteq> Accept fd) \<Longrightarrow> c \<noteq> Unlink \<Longrightarrow> R w (snd (os_call os c w))"
    and R_tryjoin: "R w (snd (os_tryjoin os tid w))"
    and R_reads: "R w (snd (os_caught_signal os w))" "R w (snd (os_clock os w))" "R w (snd (os_eintr os w))"
      "R w (snd (os_client_ip os w))"
    and R_allocs: "R w (snd (os_alloc_item os m w))" "R w (snd (os_alloc_data os ds w))"
    and R_stamp: "\<not> use_aesd_char_device cfg \<Longrightarrow> R w (snd (write_time_stamp cfg os w))"
begin

abbreviation on :: "'w server \<Rightarrow> 'w server \<Rightarrow> bool" where
  "on s s' \<equiv> R (env s) (env s')"

lemmas after_call =
  R_trans[OF _ R_call] R_trans[OF _ R_tryjoin] R_trans[OF _ R_reads(1)] R_trans[OF _ R_reads(2)]
  R_trans[OF _ R_reads(3)] R_trans[OF _ R_reads(4)] R_trans[OF _ R_allocs(1)] R_trans[OF _ R_allocs(2)]
  R_trans[OF _ R_stamp]

lemma note_signal_R: "on s (snd (note_signal os v s))"
  by (auto simp: note_signal_def split_beta intro!: R_refl after_call)

lemma tick_R: "on s (snd (tick cfg os v s))"
  by (auto simp: tick_def split_beta intro!: R_refl after_call)

lemma join_effect_R:
  assumes "server_inv s (bef @ a # as)"
  shows "on s (join_effect s a)"
proof -
  obtain s' where e: "join_effect s a = s'" by blast
  note run = join_effect_cases(1)[OF assms, unfolded e]
  obtain item where i: "items s a = Some item" using assms by (auto simp: server_inv_def)
  obtain w1 rv ret where tj: "os_tryjoin os (thread_id item) (env s) = ((rv, ret), w1)" by (metis prod.exhaust)
  have w1: "R (env s) w1" using R_tryjoin[of "env s" "thread_id item"] tj by simp
  have "R w1 (env s')"
    using run i tj
    by (auto simp: join_body_def do_call_def Let_def split_beta bind_eq_Some_conv bindE_eq_Inr
        intro!: R_refl after_call split: if_splits option.splits)
  then show ?thesis using w1 e by (auto intro: R_trans)
qed

lemma join_fold_R: "server_inv s (bef @ as) \<Longrightarrow> on s (foldl join_effect s as)"
proof (induction as arbitrary: s bef)
  case Nil
  then show ?case by (simp add: R_refl)
next
  case (Cons a as)
  from join_effect_cases(2)[OF Cons.prems]
  have "server_inv (join_effect s a) ((bef @ [a]) @ as) \<or> server_inv (join_effect s a) (bef @ as)" by auto
  then have "on (join_effect s a) (foldl join_effect (join_effect s a) as)" using Cons.IH by blast
  with join_effect_R[OF Cons.prems] show ?case by (auto intro: R_trans)
qed

lemma join_threads_R:
  assumes "server_inv s xs" "join_threads os s = Some (Inr s')"
  shows "on s s'"
proof -
  have sl: "slist (links s) (linked_list s) xs" using assms(1) by (simp add: server_inv_def)
  have "join_todo xs s" using assms(1) unfolding join_todo_def by (metis append_Nil)
  from join.foreach_visits[OF this] slist_first[OF sl] assms(2)
  have "s' = foldl join_effect s xs" by (simp add: join_threads_def)
  then show ?thesis using join_fold_R[of s "[]" xs] assms(1) by simp
qed

end

section \<open>Calls other than the creation of a thread\<close>

locale accept_relation = call_relation os arg closed opened cfg R
  for os :: "'w os" and arg :: "'w \<Rightarrow> int \<Rightarrow> addr option" and closed :: "'w \<Rightarrow> int list"
    and opened :: "'w \<Rightarrow> int list" and cfg :: build and R :: "'w \<Rightarrow> 'w \<Rightarrow> bool" +
  assumes R_accept: "R w (snd (os_call os (Accept fd) w))"
begin

lemma any_call_R: "c \<noteq> Unlink \<Longrightarrow> R w (snd (os_call os c w))"
  using R_accept R_call[of c w] by (cases c) auto

lemma check_for_client_connection_R:
  "on s (snd (snd (snd (check_for_client_connection os ip s))))"
  by (auto simp: check_for_client_connection_def do_call_def split_beta Let_def
      intro!: R_refl after_call R_trans[OF _ R_accept] R_accept split: if_splits)

lemma waiting_pass_R:
  assumes "server_inv s xs" "waiting_pass os v s = Some (Inr (v', s'))"
  shows "on s s'"
proof -
  obtain s1 where j: "join_threads os s = Some (Inr s1)"
    using assms(2) by (auto simp: waiting_pass_def bind_eq_Some_conv bindE_eq_Inr)
  define s2 where "s2 = (if all_threads_closed s1
      then let (caught, w1) = os_caught_signal os (env s1)
           in s1\<lparr>env := w1, keep_looping := keep_looping s1 \<and> \<not> caught\<rparr>
      else s1)"
  obtain b w2 where b: "os_caught_signal os (env s2) = (b, w2)" by (cases "os_caught_signal os (env s2)")
  have "on s s1" using join_threads_R[OF assms(1) j] .
  moreover have "on s1 s2" using R_reads(1)[of "env s1"] by (auto simp: s2_def R_refl split_beta)
  moreover have "R (env s2) w2" using R_reads(1)[of "env s2"] b by simp
  moreover have "R w2 (env s')"
    using assms(2) j b check_for_client_connection_R[of "s2\<lparr>env := w2\<rparr>" "lv_ip_string v"]
    by (auto simp: waiting_pass_def s2_def[symmetric] Let_def split_beta R_refl split: if_splits)
  ultimately show ?thesis by (meson R_trans)
qed

end

section \<open>All calls\<close>

text \<open>A thread is created on data whose state is \<open>WaitingForData\<close>.\<close>

locale every_call = accept_relation os arg closed opened cfg R
  for os :: "'w os" and arg :: "'w \<Rightarrow> int \<Rightarrow> addr option" and closed :: "'w \<Rightarrow> int list"
    and opened :: "'w \<Rightarrow> int list" and cfg :: build and R :: "'w \<Rightarrow> 'w \<Rightarrow> bool" +
  assumes R_create: "thread_state d = WaitingForData \<Longrightarrow> R w (snd (os_pthread_create os p d w))"
begin

lemma create_thread_R: "create_thread os fd ip s = Inr (rv, s') \<Longrightarrow> on s s'"
  by (auto simp: create_thread_def Let_def split_beta bindE_eq_Inr
      intro!: R_refl after_call R_trans[OF _ R_create] split: option.splits if_splits)

lemma after_tick_R:
  assumes "loop_inv w0 s xs" "main_loop_pass cfg os v s = Some (Inr (v', s'))" "note_signal os v s = (v1, s1)"
  shows "on (snd (tick cfg os v1 s1)) s'"
proof -
  obtain w1 where n: "s1 = s\<lparr>env := w1\<rparr>" "calm (env s) w1" using note_signal_ok[of v s] assms(3) by auto
  obtain v2 w2 where t: "tick cfg os v1 (s\<lparr>env := w1\<rparr>) = (v2, s\<lparr>env := w2\<rparr>)" "calm w1 w2"
    using tick_ok[of cfg v1 "s\<lparr>env := w1\<rparr>"] by auto
  have inv: "server_inv (s\<lparr>env := w2\<rparr>) xs"
    using calm_kept[OF calm_trans[OF n(2) t(2)], of w0 xs] assms(1) by (simp add: loop_inv_def kept_def)
  have "R w2 (env s')"
    using assms(2,3) n(1) t(1) waiting_pass_R[OF inv, of v2]
    by (auto simp: main_loop_pass_def bindE_eq_Inr R_refl split: if_splits dest!: create_thread_R)
  with n(1) t(1) show ?thesis by simp
qed

lemma main_loop_pass_R:
  assumes "loop_inv w0 s xs" "main_loop_pass cfg os v s = Some (Inr (v', s'))"
  shows "on (snd (note_signal os v s)) s'"
proof -
  obtain v1 s1 where n: "note_signal os v s = (v1, s1)" by fastforce
  show ?thesis using R_trans[OF tick_R after_tick_R[OF assms n]] n by simp
qed

end

section \<open>The calls around the loop\<close>

text \<open>
  Start-up, shut-down and the daemon's calls keep what single calls other than \<open>accept\<close> keep; at
  the end the file is removed, in the build for the file.
\<close>

lemma do_call_simps:
  "env (snd (do_call os c s)) = snd (os_call os c (env s))"
  "linked_list (snd (do_call os c s)) = linked_list s" "links (snd (do_call os c s)) = links s"
  "items (snd (do_call os c s)) = items s" "datas (snd (do_call os c s)) = datas s"
  "keep_looping (snd (do_call os c s)) = keep_looping s"
  by (simp_all add: do_call_def split_beta)

lemma startup_keeps:
  assumes "\<And>w c. P w \<Longrightarrow> (\<And>fd. c \<noteq> Accept fd) \<Longrightarrow> c \<noteq> Unlink \<Longrightarrow> P (snd (os_call os c w))" and "P (env s)"
  shows "P (env (snd (startup cfg os s)))"
  using assms(2) by (simp add: startup_def Let_def split_beta do_call_simps assms(1))

lemma startup_frame:
  "linked_list (snd (startup cfg os s)) = None" "links (snd (startup cfg os s)) = links s"
  "items (snd (startup cfg os s)) = items s" "datas (snd (startup cfg os s)) = datas s"
  "keep_looping (snd (startup cfg os s)) = keep_looping s"
  by (simp_all add: startup_def Let_def split_beta do_call_simps SLIST_INIT_def)

lemma shutting_down_keeps:
  assumes "\<And>w c. P w \<Longrightarrow> (\<And>fd. c \<noteq> Accept fd) \<Longrightarrow> c \<noteq> Unlink \<Longrightarrow> P (snd (os_call os c w))" and "P (env s)"
  obtains w where "P w" "linked_list (snd (shutting_down cfg os s)) = linked_list s"
    "env (snd (shutting_down cfg os s)) = (if use_aesd_char_device cfg then w else snd (os_call os Unlink w))"
proof -
  define s1 where "s1 = s\<lparr>current_state := ShuttingDown\<rparr>"
  define s2 where "s2 = (if res_allocated s1 then (snd (do_call os Freeaddrinfo s1))\<lparr>res_allocated := False\<rparr> else s1)"
  define s3 where "s3 = (if socket_fd s2 \<noteq> -1
      then (snd (do_call os (Close (socket_fd s2)) s2))\<lparr>socket_fd := -1\<rparr> else s2)"
  have "P (env s2)" "linked_list s2 = linked_list s"
    using assms(2) by (simp_all add: s1_def s2_def do_call_simps assms(1))
  then have "P (env s3)" "linked_list s3 = linked_list s" by (simp_all add: s3_def do_call_simps assms(1))
  moreover have "snd (shutting_down cfg os s) = (if use_aesd_char_device cfg then s3 else snd (do_call os Unlink s3))"
    unfolding shutting_down_def Let_def s1_def[symmetric] s2_def[symmetric] s3_def[symmetric] by simp
  ultimately show thesis using that[of "env s3"] by (simp add: do_call_simps)
qed

lemma do_call_env_only:
  assumes "\<And>w c. P w \<Longrightarrow> (\<And>fd. c \<noteq> Accept fd) \<Longrightarrow> c \<noteq> Unlink \<Longrightarrow> P (snd (os_call os c w))" and "P w" "\<And>fd. c \<noteq> Accept fd" "c \<noteq> Unlink"
  obtains r w' where "do_call os c (s\<lparr>env := w\<rparr>) = (r, s\<lparr>env := w'\<rparr>)" "P w'"
  using assms by (simp add: do_call_def split_beta)

lemma main_loop_fork_keeps:
  assumes step: "\<And>w c. P w \<Longrightarrow> (\<And>fd. c \<noteq> Accept fd) \<Longrightarrow> c \<noteq> Unlink \<Longrightarrow> P (snd (os_call os c w))" and "P (env s)"
  obtains (early) e w where "main_loop_fork cfg os s = Some (Inr e)" "P w"
      "e = Return (-1) (s\<lparr>env := w\<rparr>) \<or> e = Exited 0 (s\<lparr>env := w\<rparr>)"
    | (child) w where "P w" "main_loop_fork cfg os s =
        Option.bind (main_loop cfg os (s\<lparr>env := w\<rparr>)) (\<lambda>r. Some (bindE r (\<lambda>(rv, s9). Inr (Return 0 s9))))"
proof -
  have P0: "P (env s)" by fact
  obtain r0 w0 where 0: "do_call os Fork s = (r0, s\<lparr>env := w0\<rparr>)" "P w0"
    using do_call_env_only[of P os "env s" Fork s] step P0 by auto
  obtain rx wx where x: "do_call os (Exit 0) (s\<lparr>env := w0\<rparr>) = (rx, s\<lparr>env := wx\<rparr>)" "P wx"
    by (rule do_call_env_only[where P = P and os = os and c = "Exit 0" and s = s, OF step 0(2)]) auto
  obtain r1 w1 where 1: "do_call os Setsid (s\<lparr>env := w0\<rparr>) = (r1, s\<lparr>env := w1\<rparr>)" "P w1"
    by (rule do_call_env_only[where P = P and os = os and c = "Setsid" and s = s, OF step 0(2)]) auto
  obtain r2 w2 where 2: "do_call os Chdir (s\<lparr>env := w1\<rparr>) = (r2, s\<lparr>env := w2\<rparr>)" "P w2"
    by (rule do_call_env_only[where P = P and os = os and c = "Chdir" and s = s, OF step 1(2)]) auto
  obtain fd w3 where 3: "do_call os Open_dev_null (s\<lparr>env := w2\<rparr>) = (fd, s\<lparr>env := w3\<rparr>)" "P w3"
    by (rule do_call_env_only[where P = P and os = os and c = "Open_dev_null" and s = s, OF step 2(2)]) auto
  obtain r4 w4 where 4: "do_call os (Dup2 fd 0) (s\<lparr>env := w3\<rparr>) = (r4, s\<lparr>env := w4\<rparr>)" "P w4"
    by (rule do_call_env_only[where P = P and os = os and c = "Dup2 fd 0" and s = s, OF step 3(2)]) auto
  obtain r5 w5 where 5: "do_call os (Dup2 fd 1) (s\<lparr>env := w4\<rparr>) = (r5, s\<lparr>env := w5\<rparr>)" "P w5"
    by (rule do_call_env_only[where P = P and os = os and c = "Dup2 fd 1" and s = s, OF step 4(2)]) auto
  obtain r6 w6 where 6: "do_call os (Dup2 fd 2) (s\<lparr>env := w5\<rparr>) = (r6, s\<lparr>env := w6\<rparr>)" "P w6"
    by (rule do_call_env_only[where P = P and os = os and c = "Dup2 fd 2" and s = s, OF step 5(2)]) auto
  obtain r7 w7 where 7: "do_call os (Close fd) (s\<lparr>env := w6\<rparr>) = (r7, s\<lparr>env := w7\<rparr>)" "P w7"
    by (rule do_call_env_only[where P = P and os = os and c = "Close fd" and s = s, OF step 6(2)]) auto
  note calls = 0(1) x(1) 1(1) 2(1) 3(1) 4(1) 5(1) 6(1) 7(1)
  note ps = 0(2) x(2) 1(2) 2(2) 3(2) 4(2) 5(2) 6(2) 7(2)
  show thesis
  proof (cases "r0 = 0 \<and> -1 \<notin> {r1, r2, fd, r4, r5, r6}")
    case True
    then show ?thesis using child[OF ps(9)] calls by (simp add: main_loop_fork_def Let_def)
  next
    case False
    let ?X = "main_loop_fork cfg os s"
    have "\<exists>w \<in> {w0, wx, w1, w2, w3, w4, w5, w6}. ?X = Some (Inr (Return (-1) (s\<lparr>env := w\<rparr>))) \<or>
        ?X = Some (Inr (Exited 0 (s\<lparr>env := w\<rparr>)))"
      using False unfolding main_loop_fork_def Let_def calls prod.case snd_conv by simp metis
    then show ?thesis using ps early by blast
  qed
qed

section \<open>What a pass keeps\<close>

lemma main_loop_from_keeps:
  assumes "main_loop_from cfg os v s = Some r" "r = Inr s'" "P v s"
    "\<And>v s v' s'. P v s \<Longrightarrow> keep_looping s \<Longrightarrow> main_loop_pass cfg os v s = Some (Inr (v', s')) \<Longrightarrow> P v' s'"
  shows "\<exists>v'. P v' s' \<and> \<not> keep_looping s'"
proof -
  let ?Q = "\<lambda>cfg' os' v s r. cfg' = cfg \<longrightarrow> os' = os \<longrightarrow> r = Inr s' \<longrightarrow> P v s \<longrightarrow> (\<exists>v'. P v' s' \<and> \<not> keep_looping s')"
  have "?Q cfg os v s r"
  proof (rule main_loop_from.raw_induct[where P = ?Q, OF _ assms(1)], intro impI)
    fix f cfg' os' v s r
    assume IH: "\<And>cfg' os' v s r. f cfg' os' v s = Some r \<Longrightarrow> ?Q cfg' os' v s r"
      and step: "(if keep_looping s
        then Option.bind (main_loop_pass cfg' os' v s)
               (\<lambda>r. case r of Inl f \<Rightarrow> Some (Inl f) | Inr (v1, s1) \<Rightarrow> f cfg' os' v1 s1)
        else Some (Inr s)) = Some r"
      and eq: "cfg' = cfg" "os' = os" "r = Inr s'" and P: "P v s"
    show "\<exists>v'. P v' s' \<and> \<not> keep_looping s'"
    proof (cases "keep_looping s")
      case False
      then show ?thesis using step eq(3) P by auto
    next
      case True
      with step eq obtain y where y: "main_loop_pass cfg os v s = Some y"
        "(case y of Inl f \<Rightarrow> Some (Inl f) | Inr (v1, s1) \<Rightarrow> f cfg os v1 s1) = Some (Inr s')"
        by (auto simp: bind_eq_Some_conv)
      then obtain v1 s1 where "y = Inr (v1, s1)" by (cases y) auto
      with y have "main_loop_pass cfg os v s = Some (Inr (v1, s1))" "f cfg os v1 s1 = Some (Inr s')" by simp_all
      with IH[of cfg os v1 s1 "Inr s'"] assms(4)[OF P True] show ?thesis by blast
    qed
  qed
  then show ?thesis using assms(2,3) by blast
qed

end
