(* ===== verification/Live_Server.thy ===== *)
theory Live_Server
  imports Main_Calls Server_Crowd
begin

text \<open>
  The whole server with all its threads at work at the same time, over any file. The main
  thread is the model of \<open>Socket_Server\<close> as it stands; its system holds the client threads as a
  crowd, and before each call that the main thread makes these take turns: as many and in whichever
  order the schedule says. So everything that the client threads do may fall between any two calls
  of the main thread, also while it writes a time stamp, and the main thread polls them with
  \<open>pthread_tryjoin_np\<close> as they are then.
\<close>

section \<open>The system\<close>

text \<open>
  What the server runs on: the build, the calls of a thread as a function of its own world, what of
  a world the threads share, and what removing the file leaves of it.
\<close>

record ('s, 'w) kit =
  kt_build :: build
  kt_sys :: "'w sys"
  kt_sharing :: "('s, 'w) sharing"
  kt_unlink :: "'s \<Rightarrow> 's"

text \<open>Where there is no mutex nobody waits for it.\<close>

definition kit_turns ::
  "('s, 'w) kit \<Rightarrow> nat list \<Rightarrow> ('s, 'w member) crowd \<Rightarrow> (fault + ('s, 'w member) crowd) option" where
  "kit_turns k =
     run_schedule (member_move (kt_build k) (kt_sys k) (kt_sharing k))
       (if disable_locking (kt_build k) then (\<lambda>_. False) else member_waits)"

text \<open>A client that wants to connect: the four bytes of its address and what its thread will meet.\<close>

record 'w live_client =
  lc_ip :: "byte list"
  lc_world :: 'w

text \<open>
  What is not up to the server, by the number of the main thread's call: its answer (a refusing
  \<open>accept\<close> answers \<open>-1\<close>, any other answer is the new
  descriptor), whether an allocation or the creation of a thread fails, the clock, whether
  \<open>errno\<close> is \<open>EINTR\<close>, and the text of the local time, if the C library has one. \<open>SIGTERM\<close> arrives
  before the call \<open>ft_signal\<close>. The turns that the client threads take before a call are those
  of \<open>ft_held\<close> while the main thread has the mutex, and otherwise the next batch of \<open>ft_turns\<close>.
\<close>

record fate =
  ft_turns :: "nat \<Rightarrow> nat list"
  ft_held :: "nat \<Rightarrow> nat list"
  ft_answer :: "nat \<Rightarrow> syscall \<Rightarrow> int"
  ft_fail :: "nat \<Rightarrow> bool"
  ft_clock :: "nat \<Rightarrow> int"
  ft_eintr :: "nat \<Rightarrow> bool"
  ft_time :: "nat \<Rightarrow> byte list option"
  ft_signal :: nat

text \<open>
  \<open>lv_own\<close> is the main thread's own world. \<open>lv_now\<close> counts its calls and \<open>lv_round\<close> the batches of
  turns, \<open>lv_crashed\<close> tells whether a client thread had a
  fault, \<open>lv_accepted\<close> are the clients whose connections were accepted, with their descriptors, and
  \<open>lv_current\<close> is the last of them as long as it has no thread; \<open>lv_started\<close> are the clients that got
  a thread, with their descriptors, where the thread of the \<open>i\<close>-th is member \<open>i\<close> of the crowd and \<open>i\<close>
  is its identifier; \<open>lv_args\<close> are the threads not yet joined with the addresses of their data.
  \<open>lv_stamps\<close> are the time stamps that were formatted and \<open>lv_unlinked\<close> is what the file held whenever
  it was removed.
\<close>

record ('s, 'w) live =
  lv_crowd :: "('s, 'w member) crowd"
  lv_own :: 'w
  lv_crashed :: bool
  lv_now :: nat
  lv_round :: nat
  lv_clients :: "'w live_client list"
  lv_accepted :: "(int \<times> 'w) list"
  lv_current :: "'w live_client option"
  lv_started :: "(int \<times> 'w) list"
  lv_args :: "int \<rightharpoonup> addr"
  lv_closed :: "int list"
  lv_stamps :: "byte list list"
  lv_unlinked :: "'s list"

text \<open>The main thread has the mutex when it is locked and none of the others is in its section.\<close>

definition main_holds :: "('s, 'w) live \<Rightarrow> bool" where
  "main_holds w \<longleftrightarrow> cr_locked (lv_crowd w) \<and> (\<forall>m \<in> set (cr_members (lv_crowd w)). \<not> member_holds m)"

definition enter :: "('s, 'w) kit \<Rightarrow> fate \<Rightarrow> ('s, 'w) live \<Rightarrow> ('s, 'w) live" where
  "enter k q w =
     (let held = main_holds w;
          is = (if held then ft_held q (lv_now w) else ft_turns q (lv_round w));
          w1 = w\<lparr>lv_now := Suc (lv_now w), lv_round := (if held then lv_round w else Suc (lv_round w))\<rparr>
      in case kit_turns k is (lv_crowd w) of
           Some (Inr c) \<Rightarrow> w1\<lparr>lv_crowd := c\<rparr>
         | _ \<Rightarrow> w1\<lparr>lv_crashed := True\<rparr>)"

definition live_call :: "('s, 'w) kit \<Rightarrow> fate \<Rightarrow> syscall \<Rightarrow> ('s, 'w) live \<Rightarrow> int \<times> ('s, 'w) live" where
  "live_call k q c w =
     (let r = ft_answer q (lv_now w) c; w1 = enter k q w
      in case c of
           Accept fd \<Rightarrow>
             (case lv_clients w1 of
                [] \<Rightarrow> (-1, w1)
              | cl # cls \<Rightarrow>
                  if r = -1 then (-1, w1) else
                    (r, w1\<lparr>lv_clients := cls, lv_current := Some cl,
                           lv_accepted := lv_accepted w1 @ [(r, lc_world cl)]\<rparr>))
         | Close fd \<Rightarrow> (r, w1\<lparr>lv_closed := lv_closed w1 @ [fd]\<rparr>)
         | Unlink \<Rightarrow>
             if r = -1 then (-1, w1) else
               (r, w1\<lparr>lv_crowd := (lv_crowd w1)\<lparr>cr_store := kt_unlink k (cr_store (lv_crowd w1))\<rparr>,
                      lv_unlinked := lv_unlinked w1 @ [cr_store (lv_crowd w1)]\<rparr>)
         | _ \<Rightarrow> (r, w1))"

definition live_alloc ::
  "('s, 'w) kit \<Rightarrow> fate \<Rightarrow> (addr \<rightharpoonup> 'b) \<Rightarrow> ('s, 'w) live \<Rightarrow> addr option \<times> ('s, 'w) live" where
  "live_alloc k q m w = (if ft_fail q (lv_now w) then None else first_free m 0, enter k q w)"

text \<open>A new thread makes its first allocations at once; without memory for its buffers it crashes.\<close>

definition live_create ::
  "('s, 'w) kit \<Rightarrow> fate \<Rightarrow> addr \<Rightarrow> ThreadData \<Rightarrow> ('s, 'w) live \<Rightarrow> (int \<times> int) \<times> ('s, 'w) live" where
  "live_create k q p d w =
     (let w1 = enter k q w; c = lv_crowd w1; tid = int (length (cr_members c))
      in if ft_fail q (lv_now w) \<or> lv_args w1 tid \<noteq> None then ((11, 0), w1)
         else
           (case lv_current w1 of
              None \<Rightarrow> ((11, 0), w1)
            | Some cl \<Rightarrow>
                (case begin_thread (kt_sys k) d Map.empty
                        (sh_adopt (kt_sharing k) (cr_store c) False (lc_world cl)) of
                   Inl _ \<Rightarrow> ((11, 0), w1\<lparr>lv_crashed := True\<rparr>)
                 | Inr t \<Rightarrow>
                     ((0, tid),
                      w1\<lparr>lv_crowd := c\<lparr>cr_members := cr_members c @ [Client AtTop t]\<rparr>,
                         lv_args := (lv_args w1)(tid \<mapsto> p), lv_current := None,
                         lv_started := lv_started w1 @ [(client_fd d, lc_world cl)]\<rparr>))))"

definition thread_over :: "int \<Rightarrow> ('s, 'w) live \<Rightarrow> bool" where
  "thread_over tid w \<longleftrightarrow> 0 \<le> tid \<and> nat tid < length (cr_members (lv_crowd w)) \<and>
     member_ended (cr_members (lv_crowd w) ! nat tid)"

definition live_tryjoin ::
  "('s, 'w) kit \<Rightarrow> fate \<Rightarrow> int \<Rightarrow> ('s, 'w) live \<Rightarrow> (int \<times> ptr) \<times> ('s, 'w) live" where
  "live_tryjoin k q tid w =
     (let w1 = enter k q w
      in case lv_args w1 tid of
           None \<Rightarrow> ((3, None), w1)
         | Some p \<Rightarrow>
             if thread_over tid w1 then ((0, Some p), w1\<lparr>lv_args := (lv_args w1)(tid := None)\<rparr>)
             else ((16, None), w1))"

section \<open>The main thread's calls on the file\<close>

text \<open>The main thread finds the file and the mutex as the others left them.\<close>

definition main_op :: "('s, 'w) kit \<Rightarrow> ('w \<Rightarrow> 'r \<times> 'w) \<Rightarrow> ('s, 'w) live \<Rightarrow> 'r \<times> ('s, 'w) live" where
  "main_op k f w =
     (let (r, x) = f (sh_adopt (kt_sharing k) (cr_store (lv_crowd w)) (cr_locked (lv_crowd w)) (lv_own w))
      in (r, w\<lparr>lv_own := x,
               lv_crowd := (lv_crowd w)\<lparr>cr_store := sh_store (kt_sharing k) x, cr_locked := sh_locked (kt_sharing k) x\<rparr>\<rparr>))"

text \<open>
  \<open>pthread_mutex_lock\<close> returns when the mutex is free. The turns before the call may have been those
  up to that point; if they were not, the thread that has the mutex goes on until it lets it go.
\<close>

definition holders :: "('s, 'w member) crowd \<Rightarrow> nat list" where
  "holders c = filter (\<lambda>i. member_holds (cr_members c ! i)) [0..<length (cr_members c)]"

partial_function (option) let_go ::
  "('s, 'w) kit \<Rightarrow> ('s, 'w member) crowd \<Rightarrow> (fault + ('s, 'w member) crowd) option" where
  "let_go k c =
     (if cr_locked c
      then Option.bind (kit_turns k (holders c) c) (\<lambda>r.
             case r of Inl f \<Rightarrow> Some (Inl f) | Inr c1 \<Rightarrow> let_go k c1)
      else Some (Inr c))"

definition main_waits :: "('s, 'w) kit \<Rightarrow> ('s, 'w) live \<Rightarrow> ('s, 'w) live" where
  "main_waits k w =
     (case let_go k (lv_crowd w) of Some (Inr c) \<Rightarrow> w\<lparr>lv_crowd := c\<rparr> | _ \<Rightarrow> w\<lparr>lv_crashed := True\<rparr>)"

definition live_file :: "('s, 'w) kit \<Rightarrow> fate \<Rightarrow> ('s, 'w) live sys" where
  "live_file k q =
     \<lparr>sys_recv = (\<lambda>fd n w. main_op k (sys_recv (kt_sys k) fd n) (enter k q w)),
      sys_send = (\<lambda>fd bs w. main_op k (sys_send (kt_sys k) fd bs) (enter k q w)),
      sys_open = (\<lambda>w. main_op k (sys_open (kt_sys k)) (enter k q w)),
      sys_write = (\<lambda>fd bs w. main_op k (sys_write (kt_sys k) fd bs) (enter k q w)),
      sys_lseek = (\<lambda>fd w. snd (main_op k (\<lambda>x. ((), sys_lseek (kt_sys k) fd x)) (enter k q w))),
      sys_read = (\<lambda>fd n w. main_op k (sys_read (kt_sys k) fd n) (enter k q w)),
      sys_close = (\<lambda>fd w. main_op k (sys_close (kt_sys k) fd) (enter k q w)),
      sys_lock = (\<lambda>w. main_op k (sys_lock (kt_sys k)) (main_waits k (enter k q w))),
      sys_unlock = (\<lambda>w. main_op k (sys_unlock (kt_sys k)) (enter k q w)),
      sys_alloc = (\<lambda>h n w. main_op k (sys_alloc (kt_sys k) h n) (enter k q w)),
      sys_alloc_struct = (\<lambda>w. main_op k (sys_alloc_struct (kt_sys k)) (enter k q w)),
      sys_signal = (\<lambda>w. (ft_signal q \<le> lv_now w, enter k q w))\<rparr>"

text \<open>
  \<open>strftime\<close> with \<open>TIME_FORMAT\<close> gives characters other than NUL and a newline at the end, and stores at most
  \<open>TIME_BUFFER_SIZE\<close> of them, with the NUL.
\<close>

definition time_text :: "byte list option \<Rightarrow> byte list" where
  "time_text t = (case t of None \<Rightarrow> [] | Some cs \<Rightarrow> filter (\<lambda>c. c \<noteq> 0) (take 254 cs) @ [newline])"

definition live_strftime :: "('s, 'w) kit \<Rightarrow> fate \<Rightarrow> ('s, 'w) live \<Rightarrow> byte list \<times> ('s, 'w) live" where
  "live_strftime k q w =
     (let p = time_text (ft_time q (lv_now w)); w1 = enter k q w
      in (p, if p = [] then w1 else w1\<lparr>lv_stamps := lv_stamps w1 @ [p]\<rparr>))"

definition live_os :: "('s, 'w) kit \<Rightarrow> fate \<Rightarrow> ('s, 'w) live os" where
  "live_os k q =
     \<lparr>os_call = live_call k q, os_caught_signal = (\<lambda>w. (ft_signal q \<le> lv_now w, enter k q w)),
      os_clock = (\<lambda>w. (ft_clock q (lv_now w), enter k q w)), os_eintr = (\<lambda>w. (ft_eintr q (lv_now w), enter k q w)),
      os_client_ip = (\<lambda>w. (case lv_current w of None \<Rightarrow> [] | Some cl \<Rightarrow> lc_ip cl, enter k q w)),
      os_strftime = live_strftime k q, os_alloc_item = live_alloc k q, os_alloc_data = live_alloc k q,
      os_pthread_create = live_create k q, os_tryjoin = live_tryjoin k q, os_file = live_file k q\<rparr>"

text \<open>The file as it is when the server starts, with the clients that will connect.\<close>

definition live_start :: "'s \<Rightarrow> 'w \<Rightarrow> 'w live_client list \<Rightarrow> ('s, 'w) live" where
  "live_start d x cls =
     \<lparr>lv_crowd = \<lparr>cr_store = d, cr_locked = False, cr_members = []\<rparr>, lv_own = x, lv_crashed = False,
      lv_now = 0, lv_round = 0, lv_clients = cls, lv_accepted = [], lv_current = None, lv_started = [],
      lv_args = Map.empty, lv_closed = [], lv_stamps = [], lv_unlinked = []\<rparr>"

section \<open>The laws\<close>

definition lv_opened :: "('s, 'w) live \<Rightarrow> int list" where
  "lv_opened w = map fst (lv_started w)"

lemma enter_cases:
  obtains (ok) c where "kit_turns k (if main_holds w then ft_held q (lv_now w) else ft_turns q (lv_round w)) (lv_crowd w) =
      Some (Inr c)" "enter k q w = w\<lparr>lv_now := Suc (lv_now w),
        lv_round := (if main_holds w then lv_round w else Suc (lv_round w)), lv_crowd := c\<rparr>"
  | (crash) "enter k q w = w\<lparr>lv_now := Suc (lv_now w),
        lv_round := (if main_holds w then lv_round w else Suc (lv_round w)), lv_crashed := True\<rparr>"
proof -
  define r where "r = kit_turns k (if main_holds w then ft_held q (lv_now w) else ft_turns q (lv_round w)) (lv_crowd w)"
  define w1 where "w1 = w\<lparr>lv_now := Suc (lv_now w), lv_round := (if main_holds w then lv_round w else Suc (lv_round w))\<rparr>"
  have e: "enter k q w = (case r of Some (Inr c) \<Rightarrow> w1\<lparr>lv_crowd := c\<rparr> | _ \<Rightarrow> w1\<lparr>lv_crashed := True\<rparr>)"
    unfolding enter_def Let_def r_def w1_def ..
  show thesis
  proof (cases "\<exists>c. r = Some (Inr c)")
    case True
    with e ok show thesis unfolding r_def w1_def by auto
  next
    case False
    with e have "enter k q w = w1\<lparr>lv_crashed := True\<rparr>" by (auto split: option.split sum.split)
    with crash show thesis unfolding w1_def .
  qed
qed

lemma enter_simps [simp]:
  "lv_now (enter k q w) = Suc (lv_now w)" "lv_clients (enter k q w) = lv_clients w"
  "lv_own (enter k q w) = lv_own w" "lv_accepted (enter k q w) = lv_accepted w"
  "lv_current (enter k q w) = lv_current w" "lv_started (enter k q w) = lv_started w"
  "lv_args (enter k q w) = lv_args w" "lv_closed (enter k q w) = lv_closed w" "lv_opened (enter k q w) = lv_opened w"
  "lv_stamps (enter k q w) = lv_stamps w" "lv_unlinked (enter k q w) = lv_unlinked w"
  by (rule enter_cases[of k w q]; simp add: lv_opened_def)+

text \<open>What the main thread does to the file and what it waits for leaves the books alone.\<close>

definition booked :: "('s, 'w) live \<Rightarrow> ('s, 'w) live \<Rightarrow> bool" where
  "booked w w' \<longleftrightarrow> lv_now w' = lv_now w \<and> lv_round w' = lv_round w \<and> lv_clients w' = lv_clients w \<and>
     lv_accepted w' = lv_accepted w \<and> lv_current w' = lv_current w \<and> lv_started w' = lv_started w \<and>
     lv_args w' = lv_args w \<and> lv_closed w' = lv_closed w \<and> lv_stamps w' = lv_stamps w \<and>
     lv_unlinked w' = lv_unlinked w"

lemma main_op_booked: "booked w (snd (main_op k f w))"
  by (simp add: booked_def main_op_def split_beta)

lemma main_waits_booked: "booked w (main_waits k w)"
  by (simp add: booked_def main_waits_def split: option.split sum.split)

lemma live_alloc_cases:
  "live_alloc k q m w = (ans, w') \<Longrightarrow> w' = enter k q w \<and> (\<forall>a. ans = Some a \<longrightarrow> m a = None)"
  using first_free_Some[of m 0] by (simp add: live_alloc_def split: if_splits)

lemma live_tryjoin_cases:
  assumes "live_tryjoin k q tid w = ((rv, ret), w')"
  obtains "rv \<noteq> 0" "w' = enter k q w" | p where "lv_args w tid = Some p" "thread_over tid (enter k q w)" "rv = 0"
    "ret = Some p" "w' = (enter k q w)\<lparr>lv_args := (lv_args w)(tid := None)\<rparr>"
proof (cases "lv_args w tid")
  case None
  then show ?thesis using assms that(1) by (simp add: live_tryjoin_def Let_def)
next
  case (Some p)
  then show ?thesis using assms that by (simp add: live_tryjoin_def Let_def split: if_splits)
qed

lemma live_create_cases:
  assumes "live_create k q p d w = ((rv, tid), w')"
  obtains (failed) "rv \<noteq> 0" "w' = enter k q w"
  | (crashed) cl f where "rv \<noteq> 0" "lv_current w = Some cl" "w' = (enter k q w)\<lparr>lv_crashed := True\<rparr>"
      "begin_thread (kt_sys k) d Map.empty (sh_adopt (kt_sharing k) (cr_store (lv_crowd (enter k q w))) False (lc_world cl)) = Inl f"
  | (created) cl t where "rv = 0" "lv_current w = Some cl" "lv_args w tid = None"
      "tid = int (length (cr_members (lv_crowd (enter k q w))))"
      "begin_thread (kt_sys k) d Map.empty (sh_adopt (kt_sharing k) (cr_store (lv_crowd (enter k q w))) False (lc_world cl)) = Inr t"
      "w' = (enter k q w)\<lparr>lv_crowd := (lv_crowd (enter k q w))
                \<lparr>cr_members := cr_members (lv_crowd (enter k q w)) @ [Client AtTop t]\<rparr>,
              lv_args := (lv_args w)(tid \<mapsto> p), lv_current := None,
              lv_started := lv_started w @ [(client_fd d, lc_world cl)]\<rparr>"
proof (cases "ft_fail q (lv_now w) \<or> lv_args w (int (length (cr_members (lv_crowd (enter k q w))))) \<noteq> None")
  case True
  then show ?thesis using assms failed by (simp only: live_create_def Let_def enter_simps if_True) simp
next
  case ok: False
  show ?thesis
  proof (cases "lv_current w")
    case None
    with ok have "live_create k q p d w = ((11, 0), enter k q w)" by (simp add: live_create_def Let_def)
    then show ?thesis using assms failed by simp
  next
    case (Some cl)
    let ?b = "begin_thread (kt_sys k) d Map.empty (sh_adopt (kt_sharing k) (cr_store (lv_crowd (enter k q w))) False (lc_world cl))"
    show ?thesis
    proof (cases ?b)
      case (Inl f)
      with ok Some have "live_create k q p d w = ((11, 0), (enter k q w)\<lparr>lv_crashed := True\<rparr>)"
        by (simp add: live_create_def Let_def)
      then show ?thesis using assms crashed[OF _ Some _ Inl] by simp
    next
      case (Inr t)
      let ?tid = "int (length (cr_members (lv_crowd (enter k q w))))"
      have "live_create k q p d w = ((0, ?tid), (enter k q w)\<lparr>lv_crowd := (lv_crowd (enter k q w))
                \<lparr>cr_members := cr_members (lv_crowd (enter k q w)) @ [Client AtTop t]\<rparr>,
              lv_args := (lv_args w)(?tid \<mapsto> p), lv_current := None,
              lv_started := lv_started w @ [(client_fd d, lc_world cl)]\<rparr>)"
        using ok Some Inr by (simp add: live_create_def Let_def)
      then show ?thesis using assms created[OF _ Some _ _ Inr] ok by simp
    qed
  qed
qed

lemma live_call_cases:
  obtains (same) "snd (live_call k q c w) = enter k q w" "\<And>fd. c \<noteq> Close fd"
    "\<And>fd. c = Accept fd \<Longrightarrow> fst (live_call k q c w) = -1"
  | (accept) cl cls fd where "lv_clients w = cl # cls" "c = Accept fd" "fst (live_call k q c w) \<noteq> -1"
      "snd (live_call k q c w) = (enter k q w)\<lparr>lv_clients := cls, lv_current := Some cl,
         lv_accepted := lv_accepted w @ [(fst (live_call k q c w), lc_world cl)]\<rparr>"
  | (close) fd where "c = Close fd" "snd (live_call k q c w) = (enter k q w)\<lparr>lv_closed := lv_closed w @ [fd]\<rparr>"
  | (unlink) "c = Unlink" "snd (live_call k q c w) = (enter k q w)
       \<lparr>lv_crowd := (lv_crowd (enter k q w))\<lparr>cr_store := kt_unlink k (cr_store (lv_crowd (enter k q w)))\<rparr>,
         lv_unlinked := lv_unlinked w @ [cr_store (lv_crowd (enter k q w))]\<rparr>"
proof (cases c)
  case (Accept fd)
  show thesis
  proof (cases "lv_clients w")
    case Nil
    with same Accept show thesis by (simp add: live_call_def)
  next
    case (Cons cl cls)
    have "live_call k q c w = (let r = ft_answer q (lv_now w) c in
        if r = -1 then (-1, enter k q w)
        else (r, (enter k q w)\<lparr>lv_clients := cls, lv_current := Some cl,
                   lv_accepted := lv_accepted w @ [(r, lc_world cl)]\<rparr>))"
      by (simp add: live_call_def Accept Cons Let_def)
    then show thesis
      using same Accept accept[OF Cons Accept] by (cases "ft_answer q (lv_now w) c = -1") (simp_all add: Let_def)
  qed
next
  case (Close fd)
  with close show thesis by (simp add: live_call_def Let_def)
next
  case Unlink
  with same unlink show thesis
    by (cases "ft_answer q (lv_now w) Unlink = -1") (simp_all add: live_call_def Let_def)
qed (use same in \<open>simp_all add: live_call_def Let_def\<close>)

lemma live_strftime_cases:
  obtains "live_strftime k q w = ([], enter k q w)"
  | p where "p = time_text (ft_time q (lv_now w))" "p \<noteq> []"
      "live_strftime k q w = (p, (enter k q w)\<lparr>lv_stamps := lv_stamps w @ [p]\<rparr>)"
  by (cases "time_text (ft_time q (lv_now w)) = []") (simp_all add: live_strftime_def Let_def)

text \<open>None of the main thread's calls on the file touches the books.\<close>

lemma live_file_books:
  "booked (enter k q w) (snd (sys_open (live_file k q) w))" "booked (enter k q w) (snd (sys_write (live_file k q) fd bs w))"
  "booked (enter k q w) (snd (sys_close (live_file k q) fd w))" "booked (enter k q w) (snd (sys_lock (live_file k q) w))"
  "booked (enter k q w) (snd (sys_unlock (live_file k q) w))"
  using main_op_booked[of "enter k q w" k] main_op_booked[of "main_waits k (enter k q w)" k "sys_lock (kt_sys k)"]
    main_waits_booked[of "enter k q w" k]
  by (simp_all add: live_file_def booked_def)

lemma booked_env: "booked (enter k q w) w' \<Longrightarrow> lv_args w' = lv_args w \<and> lv_closed w' = lv_closed w \<and> lv_opened w' = lv_opened w"
  by (simp add: booked_def lv_opened_def)

interpretation live: thread_env "live_os k q" lv_args lv_closed lv_opened for k :: "('s, 'w) kit" and q
proof (unfold_locales, goal_cases)
  case (1 w tid p rv ret w')
  then have "live_tryjoin k q tid w = ((rv, ret), w')" by (simp add: live_os_def)
  then show ?case by (rule live_tryjoin_cases) (use 1(1) in \<open>simp_all add: lv_opened_def\<close>)
next
  case (2 p d w rv tid w')
  then have "live_create k q p d w = ((rv, tid), w')" by (simp add: live_os_def)
  then show ?case by (rule live_create_cases) (simp_all add: lv_opened_def)
next
  case (3 fd w r w')
  then show ?case by (auto simp: live_os_def live_call_def Let_def lv_opened_def)
next
  case (4 m w ans w')
  then show ?case using live_alloc_cases[of k q m w ans w'] by (auto simp: live_os_def)
next
  case (5 ds w ans w')
  then show ?case using live_alloc_cases[of k q ds w ans w'] by (auto simp: live_os_def)
next
  case (6 c w)
  show ?case
    by (cases rule: live_call_cases[of k q c w]) (use 6 in \<open>auto simp: live_os_def lv_opened_def\<close>)
next
  case (11 w)
  show ?case by (rule live_strftime_cases[of k q w]) (simp_all add: live_os_def lv_opened_def)
qed (use live_file_books[THEN booked_env] in \<open>simp_all add: live_os_def\<close>)

end
