(* ===== verification/Live_Turns.thy ===== *)
theory Live_Turns
  imports Live_Server "HOL-Library.Sublist"
begin

text \<open>
  What goes on in the system of \<open>Live_Server\<close> from one call of the main thread to the next. The locale
  \<open>live_threads\<close> states what is asked of the client threads when the main thread is not at the file: an
  invariant that their turns keep and a new thread joins, a measure that a turn lowers unless its
  thread cannot move, and a log of what they store. \<open>live_kit\<close> adds that a whole time stamp of the main
  thread keeps all this too. The lemmas say what every call of the main thread keeps.
\<close>

section \<open>What is asked of the threads\<close>

abbreviation work_order :: "((nat \<times> nat) \<times> nat \<times> nat) set" where
  "work_order \<equiv> less_than <*lex*> less_than"

locale live_threads =
  fixes k :: "('s, 'w) kit"
    and sound :: "('s, 'w member) crowd \<Rightarrow> bool"
    and can_go :: "nat \<Rightarrow> ('s, 'w member) crowd \<Rightarrow> bool"
    and work :: "('s, 'w member) crowd \<Rightarrow> nat \<times> nat"
    and fit :: "'w \<Rightarrow> bool"
    and reliable :: "'w \<Rightarrow> bool"
    and own_good :: "'w \<Rightarrow> bool"
    and logged :: "'v \<Rightarrow> byte list list \<Rightarrow> 'w list \<Rightarrow> ('s, 'w member) crowd \<Rightarrow> bool"
  assumes turns_law: "sound c \<Longrightarrow> \<exists>c'. kit_turns k is c = Some (Inr c') \<and> sound c' \<and>
      length (cr_members c') = length (cr_members c) \<and>
      (\<forall>i < length (cr_members c). member_ended (cr_members c ! i) \<longrightarrow> member_ended (cr_members c' ! i)) \<and>
      ((work c', work c) \<in> work_order \<or> c' = c \<and> (\<forall>i \<in> set is. \<not> can_go i c))"
    and mutex_law: "sound c \<Longrightarrow> cr_locked c \<Longrightarrow> \<exists>m \<in> set (cr_members c). member_holds m"
    and go_law: "sound c \<Longrightarrow> \<exists>m \<in> set (cr_members c). \<not> member_ended m \<Longrightarrow> \<exists>i. can_go i c"
    and begin_law: "sound c \<Longrightarrow> fit x \<Longrightarrow> thread_state d = WaitingForData \<Longrightarrow>
      \<exists>t. begin_thread (kt_sys k) d Map.empty (sh_adopt (kt_sharing k) (cr_store c) False x) = Inr t \<and>
        sound (c\<lparr>cr_members := cr_members c @ [Client AtTop t]\<rparr>) \<and>
        (\<forall>v st xs. logged v st xs c \<longrightarrow> reliable x \<longrightarrow>
           logged v st (xs @ [x]) (c\<lparr>cr_members := cr_members c @ [Client AtTop t]\<rparr>))"
    and log_law: "sound c \<Longrightarrow> logged v st xs c \<Longrightarrow> kit_turns k is c = Some (Inr c') \<Longrightarrow> logged v st xs c'"

section \<open>The invariant, the log and the order of the clients\<close>

definition lv_members :: "('s, 'w) live \<Rightarrow> 'w member list" where
  "lv_members w = cr_members (lv_crowd w)"

text \<open>
  Of the clients \<open>all\<close> the first ones have been accepted and the others still wait; those that got
  threads and the one about to get one are among the accepted, in this order.
\<close>

definition live_order :: "'w live_client list \<Rightarrow> ('s, 'w) live \<Rightarrow> bool" where
  "live_order all w \<longleftrightarrow> map snd (lv_accepted w) @ map lc_world (lv_clients w) = map lc_world all \<and>
     subseq (map snd (lv_started w) @ map lc_world (case lv_current w of None \<Rightarrow> [] | Some cl \<Rightarrow> [cl]))
       (map snd (lv_accepted w))"

lemma subseq_left: "subseq (xs @ zs) ys \<Longrightarrow> subseq xs ys"
  using subseq_order.order_trans[of xs "xs @ zs" ys] subseq_rev_drop_many[of xs xs zs] by simp

context live_threads
begin

definition live_ok :: "('s, 'w) live \<Rightarrow> bool" where
  "live_ok w \<longleftrightarrow> \<not> lv_crashed w \<and> sound (lv_crowd w) \<and> length (lv_started w) = length (lv_members w) \<and>
     (\<forall>i < length (lv_members w). member_ended (lv_members w ! i) \<or> lv_args w (int i) \<noteq> None) \<and>
     (\<forall>tid. lv_args w tid \<noteq> None \<longrightarrow> 0 \<le> tid \<and> nat tid < length (lv_members w)) \<and>
     (\<forall>cl \<in> set (lv_clients w). fit (lc_world cl)) \<and> (\<forall>cl. lv_current w = Some cl \<longrightarrow> fit (lc_world cl))"

text \<open>The log, as long as no call of the client threads fails, nor the main thread's on the file.\<close>

definition live_log :: "'v \<Rightarrow> ('s, 'w) live \<Rightarrow> bool" where
  "live_log v w \<longleftrightarrow> logged v (lv_stamps w) (map snd (lv_started w)) (lv_crowd w) \<and> own_good (lv_own w) \<and>
     (\<forall>cl \<in> set (lv_clients w). reliable (lc_world cl)) \<and> (\<forall>cl. lv_current w = Some cl \<longrightarrow> reliable (lc_world cl))"

definition goes_on :: "('s, 'w) live \<Rightarrow> ('s, 'w) live \<Rightarrow> bool" where
  "goes_on w w' \<longleftrightarrow> lv_now w \<le> lv_now w' \<and> prefix (lv_started w) (lv_started w') \<and>
     prefix (lv_stamps w) (lv_stamps w') \<and> lv_unlinked w' = lv_unlinked w \<and>
     (live_ok w \<longrightarrow> live_ok w' \<and> (\<forall>v. live_log v w \<longrightarrow> live_log v w') \<and> (\<forall>all. live_order all w \<longrightarrow> live_order all w'))"

text \<open>
  Either the threads have less work left, or none of them could move in the batches of turns that
  there were, and it is still the same threads that can move.
\<close>

definition all_over :: "('s, 'w) live \<Rightarrow> bool" where
  "all_over w \<longleftrightarrow> live_ok w \<and> (\<forall>m \<in> set (lv_members w). member_ended m)"

definition nearer :: "fate \<Rightarrow> ('s, 'w) live \<Rightarrow> ('s, 'w) live \<Rightarrow> bool" where
  "nearer q w w' \<longleftrightarrow> (live_ok w \<longrightarrow> live_ok w' \<and> lv_round w \<le> lv_round w' \<and> (all_over w \<longrightarrow> all_over w') \<and>
     ((work (lv_crowd w'), work (lv_crowd w)) \<in> work_order \<or>
      work (lv_crowd w') = work (lv_crowd w) \<and> (\<forall>i. can_go i (lv_crowd w') = can_go i (lv_crowd w)) \<and>
      (\<forall>j \<ge> lv_round w. j < lv_round w' \<longrightarrow> (\<forall>i \<in> set (ft_turns q j). \<not> can_go i (lv_crowd w)))))"

lemma goes_on_refl: "goes_on w w"
  by (simp add: goes_on_def)

lemma goes_on_trans: "goes_on w w' \<Longrightarrow> goes_on w' w'' \<Longrightarrow> goes_on w w''"
  by (auto simp: goes_on_def intro: prefix_order.order_trans)

lemma nearer_refl: "nearer q w w"
  by (simp add: nearer_def)

lemma nearer_trans:
  assumes "nearer q w w'" "nearer q w' w''"
  shows "nearer q w w''"
proof (cases "live_ok w")
  case True
  with assms(1) have 1: "live_ok w'" "lv_round w \<le> lv_round w'" "all_over w \<Longrightarrow> all_over w'"
    "(work (lv_crowd w'), work (lv_crowd w)) \<in> work_order \<or>
      work (lv_crowd w') = work (lv_crowd w) \<and> (\<forall>i. can_go i (lv_crowd w') = can_go i (lv_crowd w)) \<and>
      (\<forall>j \<ge> lv_round w. j < lv_round w' \<longrightarrow> (\<forall>i \<in> set (ft_turns q j). \<not> can_go i (lv_crowd w)))"
    by (simp_all add: nearer_def)
  with assms(2) have 2: "live_ok w''" "lv_round w' \<le> lv_round w''" "all_over w' \<Longrightarrow> all_over w''"
    "(work (lv_crowd w''), work (lv_crowd w')) \<in> work_order \<or>
      work (lv_crowd w'') = work (lv_crowd w') \<and> (\<forall>i. can_go i (lv_crowd w'') = can_go i (lv_crowd w')) \<and>
      (\<forall>j \<ge> lv_round w'. j < lv_round w'' \<longrightarrow> (\<forall>i \<in> set (ft_turns q j). \<not> can_go i (lv_crowd w')))"
    by (simp_all add: nearer_def)
  have "trans work_order" by (intro trans_lex_prod) simp_all
  then have less: "(work (lv_crowd w''), work (lv_crowd w)) \<in> work_order"
    if "(work (lv_crowd w''), work (lv_crowd w')) \<in> work_order" "(work (lv_crowd w'), work (lv_crowd w)) \<in> work_order"
    using that by (rule transD)
  have batches: "\<not> can_go i (lv_crowd w)"
    if "lv_round w \<le> j" "j < lv_round w''" "i \<in> set (ft_turns q j)"
      "\<forall>i. can_go i (lv_crowd w') = can_go i (lv_crowd w)"
      "\<forall>j \<ge> lv_round w. j < lv_round w' \<longrightarrow> (\<forall>i \<in> set (ft_turns q j). \<not> can_go i (lv_crowd w))"
      "\<forall>j \<ge> lv_round w'. j < lv_round w'' \<longrightarrow> (\<forall>i \<in> set (ft_turns q j). \<not> can_go i (lv_crowd w'))" for i j
    using that by (cases "j < lv_round w'") (simp, metis not_less)
  show ?thesis
  proof (cases "(work (lv_crowd w''), work (lv_crowd w)) \<in> work_order")
    case True
    with 1 2 show ?thesis by (simp add: nearer_def)
  next
    case False
    with 1(4) 2(4) less have "(work (lv_crowd w') = work (lv_crowd w) \<and> (\<forall>i. can_go i (lv_crowd w') = can_go i (lv_crowd w)) \<and>
      (\<forall>j \<ge> lv_round w. j < lv_round w' \<longrightarrow> (\<forall>i \<in> set (ft_turns q j). \<not> can_go i (lv_crowd w))))"
      "work (lv_crowd w'') = work (lv_crowd w') \<and> (\<forall>i. can_go i (lv_crowd w'') = can_go i (lv_crowd w')) \<and>
      (\<forall>j \<ge> lv_round w'. j < lv_round w'' \<longrightarrow> (\<forall>i \<in> set (ft_turns q j). \<not> can_go i (lv_crowd w')))"
      by metis+
    with 1(1-3) 2(1-3) batches show ?thesis by (simp add: nearer_def)
  qed
qed (simp add: nearer_def)

section \<open>The calls\<close>

lemma main_free: "live_ok w \<Longrightarrow> \<not> main_holds w"
  using mutex_law by (auto simp: live_ok_def main_holds_def)

lemma enter_ok:
  assumes "live_ok w"
  obtains c where "kit_turns k (ft_turns q (lv_round w)) (lv_crowd w) = Some (Inr c)"
    "enter k q w = w\<lparr>lv_crowd := c, lv_now := Suc (lv_now w), lv_round := Suc (lv_round w)\<rparr>"
    "length (cr_members c) = length (lv_members w)" "live_ok (enter k q w)" "all_over w \<Longrightarrow> all_over (enter k q w)"
    "(work c, work (lv_crowd w)) \<in> work_order \<or>
      c = lv_crowd w \<and> (\<forall>i \<in> set (ft_turns q (lv_round w)). \<not> can_go i (lv_crowd w))"
proof -
  have s: "sound (lv_crowd w)" using assms by (simp add: live_ok_def)
  obtain c where c: "kit_turns k (ft_turns q (lv_round w)) (lv_crowd w) = Some (Inr c)" "sound c"
    "length (cr_members c) = length (lv_members w)"
    "\<forall>i < length (lv_members w). member_ended (lv_members w ! i) \<longrightarrow> member_ended (cr_members c ! i)"
    "(work c, work (lv_crowd w)) \<in> work_order \<or>
      c = lv_crowd w \<and> (\<forall>i \<in> set (ft_turns q (lv_round w)). \<not> can_go i (lv_crowd w))"
    using turns_law[OF s, of "ft_turns q (lv_round w)"] unfolding lv_members_def by blast
  have e: "enter k q w = w\<lparr>lv_crowd := c, lv_now := Suc (lv_now w), lv_round := Suc (lv_round w)\<rparr>"
    using c(1) main_free[OF assms] by (simp add: enter_def)
  have "live_ok (enter k q w)" using assms c(2-4) unfolding live_ok_def e by (auto simp: lv_members_def)
  moreover from this have "all_over (enter k q w)" if "all_over w"
    using that c(3,4) unfolding e by (simp add: all_over_def lv_members_def all_set_conv_all_nth)
  ultimately show thesis using that[OF c(1) e c(3)] c(5) by blast
qed

lemma enter_goes_on: "goes_on w (enter k q w)"
proof -
  have "live_log v (enter k q w)" if ok: "live_ok w" and log: "live_log v w" for v
  proof -
    obtain c where c: "kit_turns k (ft_turns q (lv_round w)) (lv_crowd w) = Some (Inr c)"
      "enter k q w = w\<lparr>lv_crowd := c, lv_now := Suc (lv_now w), lv_round := Suc (lv_round w)\<rparr>" by (rule enter_ok[OF ok])
    have "sound (lv_crowd w)" using ok by (simp add: live_ok_def)
    from log_law[OF this _ c(1)] log show ?thesis unfolding c(2) by (simp add: live_log_def)
  qed
  moreover have "live_ok (enter k q w)" if "live_ok w" using enter_ok[OF that] by blast
  ultimately show ?thesis by (simp add: goes_on_def live_order_def)
qed

lemma enter_nearer: "nearer q w (enter k q w)"
proof (cases "live_ok w")
  case True
  then obtain c where c: "enter k q w = w\<lparr>lv_crowd := c, lv_now := Suc (lv_now w), lv_round := Suc (lv_round w)\<rparr>"
      "live_ok (enter k q w)" "all_over w \<Longrightarrow> all_over (enter k q w)" "(work c, work (lv_crowd w)) \<in> work_order \<or>
        c = lv_crowd w \<and> (\<forall>i \<in> set (ft_turns q (lv_round w)). \<not> can_go i (lv_crowd w))" by (rule enter_ok[of w q]) blast
  have "(work (lv_crowd (enter k q w)), work (lv_crowd w)) \<in> work_order \<or>
      work (lv_crowd (enter k q w)) = work (lv_crowd w) \<and> (\<forall>i. can_go i (lv_crowd (enter k q w)) = can_go i (lv_crowd w)) \<and>
      (\<forall>j \<ge> lv_round w. j < lv_round (enter k q w) \<longrightarrow> (\<forall>i \<in> set (ft_turns q j). \<not> can_go i (lv_crowd w)))"
    using c(4) unfolding c(1) by (auto simp: less_Suc_eq)
  moreover have "lv_round w \<le> lv_round (enter k q w)" unfolding c(1) by simp
  ultimately show ?thesis using c(2,3) by (simp add: nearer_def)
qed (simp add: nearer_def)

text \<open>A change of the system that leaves the threads alone.\<close>

lemma nearer_same:
  assumes "goes_on w w'" "lv_round w' = lv_round w" "lv_crowd w' = lv_crowd w"
  shows "nearer q w w'"
  using assms by (auto simp: nearer_def goes_on_def all_over_def lv_members_def)

lemma close_goes_on: "goes_on w (w\<lparr>lv_closed := x\<rparr>)"
  by (simp add: goes_on_def live_ok_def live_log_def live_order_def lv_members_def)

lemma accept_goes_on:
  assumes "lv_clients w = cl # cls"
  shows "goes_on w (w\<lparr>lv_clients := cls, lv_current := Some cl, lv_accepted := lv_accepted w @ [(fd, lc_world cl)]\<rparr>)"
  using assms
  by (auto simp: goes_on_def live_ok_def live_log_def live_order_def lv_members_def dest: subseq_left)

lemma join_goes_on:
  assumes "thread_over tid w"
  shows "goes_on w (w\<lparr>lv_args := (lv_args w)(tid := None)\<rparr>)"
proof -
  have "member_ended (lv_members w ! i)" if "int i = tid" for i
    using assms that by (auto simp: thread_over_def lv_members_def)
  then show ?thesis
    by (auto simp: goes_on_def live_ok_def live_log_def live_order_def lv_members_def)
qed

text \<open>A new thread: the last member, with the packets of its client to store.\<close>

lemma create_goes_on:
  assumes "lv_current w = Some cl" "thread_state d = WaitingForData"
    "begin_thread (kt_sys k) d Map.empty (sh_adopt (kt_sharing k) (cr_store (lv_crowd w)) False (lc_world cl)) = Inr t"
  shows "goes_on w (w\<lparr>lv_crowd := (lv_crowd w)\<lparr>cr_members := cr_members (lv_crowd w) @ [Client AtTop t]\<rparr>,
    lv_args := (lv_args w)(int (length (cr_members (lv_crowd w))) \<mapsto> p), lv_current := None,
    lv_started := lv_started w @ [(fd, lc_world cl)]\<rparr>)" (is "goes_on w ?w")
proof -
  have "live_ok ?w \<and> (\<forall>v. live_log v w \<longrightarrow> live_log v ?w)" if ok: "live_ok w"
  proof -
    have "fit (lc_world cl)" "sound (lv_crowd w)" using ok assms(1) by (simp_all add: live_ok_def)
    from begin_law[OF this(2,1) assms(2)] assms(3) have
      "sound (lv_crowd ?w)" "\<And>v st xs. logged v st xs (lv_crowd w) \<Longrightarrow> reliable (lc_world cl) \<Longrightarrow>
        logged v st (xs @ [lc_world cl]) (lv_crowd ?w)" by auto
    with ok assms(1) show ?thesis by (auto simp: live_ok_def live_log_def lv_members_def nth_append less_Suc_eq)
  qed
  then show ?thesis using assms(1) by (simp add: goes_on_def live_order_def)
qed

lemma live_create_goes_on:
  assumes "thread_state d = WaitingForData"
  shows "goes_on w (snd (live_create k q p d w))"
proof -
  obtain rv tid w' where c: "live_create k q p d w = ((rv, tid), w')" by (metis prod.exhaust)
  then show ?thesis
  proof (cases rule: live_create_cases)
    case failed
    then show ?thesis using c enter_goes_on by simp
  next
    case (crashed cl f)
    have "\<not> live_ok w"
    proof
      assume ok: "live_ok w"
      then have "live_ok (enter k q w)" using enter_ok by blast
      then have "fit (lc_world cl)" "sound (lv_crowd (enter k q w))" using ok crashed(2) by (simp_all add: live_ok_def)
      from begin_law[OF this(2,1) assms] crashed(4) show False by simp
    qed
    then show ?thesis using c crashed(3) by (simp add: goes_on_def)
  next
    case (created cl t)
    have "goes_on (enter k q w) w'"
      unfolding created(6) created(4)
      using create_goes_on[OF _ assms created(5), where p = p and fd = "client_fd d"] created(2) by simp
    then show ?thesis using c goes_on_trans[OF enter_goes_on] by simp
  qed
qed

text \<open>Each of the other calls keeps both relations.\<close>

definition near :: "fate \<Rightarrow> ('s, 'w) live \<Rightarrow> ('s, 'w) live \<Rightarrow> bool" where
  "near q w w' \<longleftrightarrow> goes_on w w' \<and> nearer q w w'"

lemma near_trans: "near q w w' \<Longrightarrow> near q w' w'' \<Longrightarrow> near q w w''"
  using goes_on_trans nearer_trans by (auto simp: near_def)

lemma enter_near: "near q w (enter k q w)"
  by (simp add: near_def enter_goes_on enter_nearer)

lemma near_enter: "near q (enter k q w) w' \<Longrightarrow> near q w w'"
  using enter_near near_trans by blast

lemma live_call_near:
  assumes "c \<noteq> Unlink"
  shows "near q w (snd (live_call k q c w))"
proof (cases rule: live_call_cases[of k q c w])
  case same
  then show ?thesis using enter_near by simp
next
  case (accept cl cls fd)
  define r where "r = fst (live_call k q c w)"
  have e: "snd (live_call k q c w) = (enter k q w)\<lparr>lv_clients := cls, lv_current := Some cl,
      lv_accepted := lv_accepted (enter k q w) @ [(r, lc_world cl)]\<rparr>" (is "_ = ?w'")
    using accept(4) by (simp only: r_def enter_simps)
  have "goes_on (enter k q w) ?w'" by (rule accept_goes_on) (simp add: accept(1))
  then have "near q (enter k q w) ?w'" by (simp add: near_def nearer_same)
  then show ?thesis unfolding e by (rule near_enter)
next
  case (close fd)
  have "near q (enter k q w) ((enter k q w)\<lparr>lv_closed := lv_closed w @ [fd]\<rparr>)"
    by (simp add: near_def nearer_same close_goes_on)
  then show ?thesis unfolding close(2) by (rule near_enter)
next
  case unlink
  with assms show ?thesis by simp
qed

lemma live_tryjoin_near: "near q w (snd (live_tryjoin k q tid w))"
proof -
  obtain rv ret w' where t: "live_tryjoin k q tid w = ((rv, ret), w')" by (metis prod.exhaust)
  then show ?thesis
  proof (rule live_tryjoin_cases)
    assume "w' = enter k q w"
    then show ?thesis using t enter_near by simp
  next
    fix p assume "thread_over tid (enter k q w)" "w' = (enter k q w)\<lparr>lv_args := (lv_args w)(tid := None)\<rparr>"
    with join_goes_on[OF this(1)] have "near q (enter k q w) w'" by (simp add: near_def nearer_same)
    then show ?thesis using t near_enter by simp
  qed
qed

lemma live_reads_near:
  "near q w (snd (os_caught_signal (live_os k q) w))" "near q w (snd (os_clock (live_os k q) w))"
  "near q w (snd (os_eintr (live_os k q) w))" "near q w (snd (os_client_ip (live_os k q) w))"
  "near q w (snd (os_alloc_item (live_os k q) m w))" "near q w (snd (os_alloc_data (live_os k q) ds w))"
  by (simp_all add: live_os_def live_alloc_def enter_near)

lemma nearly: "near q w w' \<Longrightarrow> goes_on w w'" "near q w w' \<Longrightarrow> nearer q w w'"
  by (simp_all add: near_def)

end

section \<open>With the time stamps\<close>

text \<open>A whole time stamp of the main thread is as good as one of its other calls.\<close>

locale live_kit = live_threads k sound can_go work fit reliable own_good logged
  for k :: "('s, 'w) kit" and sound can_go work and fit reliable own_good :: "'w \<Rightarrow> bool"
    and logged :: "'v \<Rightarrow> byte list list \<Rightarrow> 'w list \<Rightarrow> ('s, 'w member) crowd \<Rightarrow> bool" +
  assumes stamp_law: "\<not> use_aesd_char_device (kt_build k) \<Longrightarrow>
    near q w (snd (write_time_stamp (kt_build k) (live_os k q) w))"
begin

abbreviation cfg :: build where
  "cfg \<equiv> kt_build k"

sublocale live: every_call "live_os k q" lv_args lv_closed lv_opened "kt_build k" goes_on for q
proof (intro every_call.intro accept_relation.intro call_relation.intro call_relation_axioms.intro
    accept_relation_axioms.intro every_call_axioms.intro live.thread_env_axioms)
  show "goes_on w w" for w by (rule goes_on_refl)
  show "goes_on w w''" if "goes_on w w'" "goes_on w' w''" for w w' w'' using that by (rule goes_on_trans)
  show call: "goes_on w (snd (os_call (live_os k q) c w))" if "c \<noteq> Unlink" for c w
    using nearly(1)[OF live_call_near[OF that]] by (simp add: live_os_def)
  show "goes_on w (snd (os_call (live_os k q) (Accept fd) w))" for w fd by (rule call) simp
  show "goes_on w (snd (os_tryjoin (live_os k q) tid w))" for w tid
    using nearly(1)[OF live_tryjoin_near] by (simp add: live_os_def)
  show "goes_on w (snd (os_pthread_create (live_os k q) p d w))" if "thread_state d = WaitingForData" for d w p
    using live_create_goes_on[OF that] by (simp add: live_os_def)
  show "goes_on w (snd (write_time_stamp (kt_build k) (live_os k q) w))" if "\<not> use_aesd_char_device (kt_build k)" for w
    by (rule nearly(1)[OF stamp_law[OF that]])
qed (rule nearly(1)[OF live_reads_near(1)] nearly(1)[OF live_reads_near(2)] nearly(1)[OF live_reads_near(3)]
    nearly(1)[OF live_reads_near(4)] nearly(1)[OF live_reads_near(5)] nearly(1)[OF live_reads_near(6)])+

end

end
