(* ===== verification/Live_Loop.thy ===== *)
theory Live_Loop
  imports Live_Turns
begin

text \<open>
  The end of the whole server: once \<open>SIGTERM\<close> has been caught the main loop accepts no client, the
  schedule ends the threads that there are, and the first traversal after that joins the last of
  them.
\<close>

text \<open>A fair schedule comes back to every thread when the main thread does not have the mutex.\<close>

definition fair_turns :: "fate \<Rightarrow> bool" where
  "fair_turns q \<longleftrightarrow> (\<forall>i k. \<exists>j\<ge>k. i \<in> set (ft_turns q j))"

lemma caught_signal_live [simp]: "os_caught_signal (live_os k q) w = (ft_signal q \<le> lv_now w, enter k q w)"
  by (simp add: live_os_def)

lemma note_signal_now: "lv_now (env s) < lv_now (env (snd (note_signal (live_os k q) v s)))"
  by (simp add: note_signal_def)

context live_kit
begin

section \<open>What the threads have left\<close>

sublocale still: accept_relation "live_os k q" lv_args lv_closed lv_opened "kt_build k" "nearer q" for q
proof (intro accept_relation.intro call_relation.intro call_relation_axioms.intro
    accept_relation_axioms.intro live.thread_env_axioms)
  show "nearer q w w" for w by (rule nearer_refl)
  show "nearer q w w''" if "nearer q w w'" "nearer q w' w''" for w w' w'' using that by (rule nearer_trans)
  show call: "nearer q w (snd (os_call (live_os k q) c w))" if "c \<noteq> Unlink" for c w
    using nearly(2)[OF live_call_near[OF that]] by (simp add: live_os_def)
  show "nearer q w (snd (os_call (live_os k q) (Accept fd) w))" for w fd by (rule call) simp
  show "nearer q w (snd (os_tryjoin (live_os k q) tid w))" for w tid
    using nearly(2)[OF live_tryjoin_near] by (simp add: live_os_def)
  show "nearer q w (snd (write_time_stamp (kt_build k) (live_os k q) w))" if "\<not> use_aesd_char_device (kt_build k)" for w
    by (rule nearly(2)[OF stamp_law[OF that]])
qed (rule nearly(2)[OF live_reads_near(1)] nearly(2)[OF live_reads_near(2)] nearly(2)[OF live_reads_near(3)]
    nearly(2)[OF live_reads_near(4)] nearly(2)[OF live_reads_near(5)] nearly(2)[OF live_reads_near(6)])+

lemma still_over: "nearer q w w' \<Longrightarrow> all_over w \<Longrightarrow> all_over w'"
  by (auto simp: nearer_def all_over_def[of w])

sublocale ended: prompt_threads "live_os k q" lv_args lv_closed lv_opened all_over for q
proof unfold_locales
  show "all_over (snd (os_tryjoin (live_os k q) tid w))" if "all_over w" for w tid
    using still_over[OF still.R_tryjoin that] .
  show "all_over (snd (os_call (live_os k q) (Close fd) w))" if "all_over w" for w fd
    using still_over[OF still.any_call_R that] by simp
  show "fst (fst (os_tryjoin (live_os k q) tid w)) = 0" if "all_over w" "lv_args w tid = Some p" for w tid p
  proof -
    have "all_over (enter k q w)" using still_over[OF enter_nearer that(1)] .
    then have "live_ok (enter k q w)" "\<forall>m \<in> set (lv_members (enter k q w)). member_ended m"
      by (simp_all add: all_over_def)
    moreover have "0 \<le> tid \<and> nat tid < length (lv_members (enter k q w))"
      using \<open>live_ok (enter k q w)\<close> that(2) by (simp add: live_ok_def)
    ultimately have "thread_over tid (enter k q w)" by (simp add: thread_over_def lv_members_def)
    then show ?thesis using that(2) by (simp add: live_os_def live_tryjoin_def Let_def)
  qed
qed

lemma note_signal_round:
  assumes "live_ok (env s)"
  shows "lv_round (env s) < lv_round (env (snd (note_signal (live_os k q) v s)))"
proof -
  have e: "lv_round (enter k q w) = Suc (lv_round w)" if "live_ok w" for w
    using main_free[OF that] by (rule_tac enter_cases[of k w q]) simp_all
  have "live_ok (enter k q (env s))" using enter_goes_on[of "env s"] assms by (simp add: goes_on_def)
  with e assms show ?thesis by (simp add: note_signal_def)
qed

section \<open>A pass\<close>

lemma live_pass:
  assumes "live.loop_inv w0 s xs" "keep_looping s"
  obtains v' s' xs' where "main_loop_pass cfg (live_os k q) v s = Some (Inr (v', s'))" "live.loop_inv w0 s' xs'"
    "goes_on (env s) (env s')" "lv_now (env s) < lv_now (env s')"
proof -
  obtain v' s' xs' where p: "main_loop_pass cfg (live_os k q) v s = Some (Inr (v', s'))" "live.loop_inv w0 s' xs'"
    using live.main_loop_pass_ok[OF assms] by blast
  let ?s1 = "snd (note_signal (live_os k q) v s)"
  have g: "goes_on (env s) (env ?s1)" by (rule live.note_signal_R)
  have r: "goes_on (env ?s1) (env s')" by (rule live.main_loop_pass_R[OF assms(1) p(1)])
  then have "lv_now (env s) < lv_now (env s')" using note_signal_now[of s k q v] by (simp add: goes_on_def)
  then show thesis by (rule that[OF p goes_on_trans[OF g r]])
qed

text \<open>Once the signal has been caught a pass accepts nobody, and it is the last if all threads have ended.\<close>

lemma stopping_pass:
  assumes inv: "live.kept w0 s xs" "keep_looping s" "current_state s = Waiting" "ft_signal q \<le> lv_now (env s)"
    and pass: "waiting_pass (live_os k q) v s = Some (Inr (v', s'))"
  shows "current_state s' = Waiting" "all_over (env s) \<Longrightarrow> \<not> keep_looping s'"
proof -
  have i: "live.server_inv s xs" using inv(1) by (simp add: live.kept_def)
  obtain s1 gone where j: "join_threads (live_os k q) s = Some (Inr s1)" "live.joined_all s gone s1"
    using live.join_threads_ok[OF i, of q] by blast
  have s1: "current_state s1 = Waiting" "keep_looping s1" using j(2) inv(2,3) by (simp_all add: live.joined_all_def)
  have "goes_on (env s) (env s1)" by (rule live.join_threads_R[OF i j(1)])
  then have now: "ft_signal q \<le> lv_now (env s1)" using inv(4) by (simp add: goes_on_def)
  define s2 where "s2 = (if all_threads_closed s1
      then s1\<lparr>env := enter k q (env s1), keep_looping := False\<rparr> else s1)"
  have "ft_signal q \<le> lv_now (env s2)" using now by (simp add: s2_def)
  then have s': "s' = s2\<lparr>env := enter k q (env s2)\<rparr>"
    using pass j(1) now by (simp add: waiting_pass_def s2_def Let_def split: if_splits)
  then show "current_state s' = Waiting" using s1 by (simp add: s2_def)
  show "\<not> keep_looping s'" if over: "all_over (env s)"
  proof -
    from ended.join_threads_prompt[OF i over, of q] j(1) have "live.server_inv s1 []" by auto
    then have "all_threads_closed s1"
      by (simp add: live.server_inv_def all_threads_closed_def SLIST_EMPTY_def)
    then show ?thesis by (simp add: s' s2_def)
  qed
qed

lemma stopping_loop_pass:
  assumes inv: "live.loop_inv w0 s xs" "keep_looping s" "current_state s = Waiting" "ft_signal q \<le> lv_now (env s)"
    "live_ok (env s)"
    and pass: "main_loop_pass cfg (live_os k q) v s = Some (Inr (v', s'))"
  shows "current_state s' = Waiting" "nearer q (env s) (env s')" "lv_round (env s) < lv_round (env s')"
    "all_over (env s) \<Longrightarrow> \<not> keep_looping s'"
proof -
  obtain v1 w1 where n: "note_signal (live_os k q) v s = (v1, s\<lparr>env := w1\<rparr>)" "live.calm (env s) w1"
    using live.note_signal_ok by blast
  obtain v2 w2 where t: "tick cfg (live_os k q) v1 (s\<lparr>env := w1\<rparr>) = (v2, s\<lparr>env := w2\<rparr>)" "live.calm w1 w2"
    using live.tick_ok[of cfg q v1 "s\<lparr>env := w1\<rparr>"] by auto
  let ?s = "s\<lparr>env := w2\<rparr>"
  have q: "nearer q (env s) w1" "nearer q w1 w2"
    using still.note_signal_R[of q s v] still.tick_R[of q "s\<lparr>env := w1\<rparr>" v1] n(1) t(1) by simp_all
  have "goes_on (env s) w2"
    using live.note_signal_R[of s q v] live.tick_R[of "s\<lparr>env := w1\<rparr>" q v1] n(1) t(1)
    by (auto intro: goes_on_trans)
  then have now: "ft_signal q \<le> lv_now (env ?s)" using inv(4) by (simp add: goes_on_def)
  have kept: "live.kept w0 ?s xs"
    using live.calm_kept[OF live.calm_trans[OF n(2) t(2)]] inv(1) by (simp add: live.loop_inv_def)
  have w: "waiting_pass (live_os k q) v2 ?s = Some (Inr (v', s'))"
    using pass n(1) t(1) inv(3) by (simp add: main_loop_pass_def)
  have s: "keep_looping ?s" "current_state ?s = Waiting" using inv(2,3) by simp_all
  note st = stopping_pass[OF kept s now w]
  show "current_state s' = Waiting" by (rule st(1))
  show "\<not> keep_looping s'" if "all_over (env s)"
    using st(2) still_over[OF q(2) still_over[OF q(1) that]] by simp
  have "nearer q w2 (env s')" using still.waiting_pass_R[OF _ w] kept by (auto simp: live.kept_def)
  with q(2) have q': "nearer q w1 (env s')" by (rule nearer_trans)
  with q(1) show "nearer q (env s) (env s')" by (rule nearer_trans)
  have "live_ok w1" using q(1) inv(5) by (simp add: nearer_def)
  with q' have "lv_round w1 \<le> lv_round (env s')" by (simp add: nearer_def)
  then show "lv_round (env s) < lv_round (env s')" using note_signal_round[OF inv(5), of q v] n(1) by simp
qed

section \<open>The loop\<close>

definition loop_returns :: "fate \<Rightarrow> ('s, 'w) live \<Rightarrow> loop_vars \<Rightarrow> ('s, 'w) live server \<Rightarrow> bool" where
  "loop_returns q w0 v s \<longleftrightarrow> (\<exists>s'. main_loop_from cfg (live_os k q) v s = Some (Inr s') \<and> live.kept w0 s' [] \<and>
     goes_on (env s) (env s'))"

lemma loop_returns_stop: "live.loop_inv w0 s xs \<Longrightarrow> \<not> keep_looping s \<Longrightarrow> loop_returns q w0 v s"
  by (subst loop_returns_def, subst main_loop_from.simps) (auto simp: live.loop_inv_def goes_on_refl)

lemma loop_returns_pass:
  assumes "keep_looping s" "main_loop_pass cfg (live_os k q) v s = Some (Inr (v', s'))" "goes_on (env s) (env s')"
    "loop_returns q w0 v' s'"
  shows "loop_returns q w0 v s"
proof -
  have "main_loop_from cfg (live_os k q) v s = main_loop_from cfg (live_os k q) v' s'"
    using assms(1,2) by (subst main_loop_from.simps) simp
  with assms(3,4) show ?thesis unfolding loop_returns_def by (auto intro: goes_on_trans)
qed

text \<open>
  While the loop waits for its threads, the schedule brings their end nearer: the work that they have
  left becomes less, or else the batch of turns in which one of them can move, which a fair schedule has.
\<close>

definition due :: "fate \<Rightarrow> ('s, 'w) live \<Rightarrow> nat \<Rightarrow> bool" where
  "due q w d \<longleftrightarrow> (\<exists>i \<in> set (ft_turns q (lv_round w + d)). can_go i (lv_crowd w))"

definition togo_work :: "fate \<Rightarrow> ('s, 'w) live \<Rightarrow> (nat \<times> nat) \<times> nat" where
  "togo_work q w = (work (lv_crowd w), LEAST d. due q w d)"

lemma nearer_togo:
  assumes "fair_turns q" "live_ok w" "\<not> all_over w" "nearer q w w'" "lv_round w < lv_round w'"
  shows "(togo_work q w', togo_work q w) \<in> work_order <*lex*> less_than"
proof (cases "(work (lv_crowd w'), work (lv_crowd w)) \<in> work_order")
  case True
  then show ?thesis by (simp add: togo_work_def)
next
  case False
  with assms(2,4) have same: "work (lv_crowd w') = work (lv_crowd w)" "\<forall>i. can_go i (lv_crowd w') = can_go i (lv_crowd w)"
    "\<forall>j \<ge> lv_round w. j < lv_round w' \<longrightarrow> (\<forall>i \<in> set (ft_turns q j). \<not> can_go i (lv_crowd w))"
    by (auto simp: nearer_def)
  obtain i where i: "can_go i (lv_crowd w)"
    using go_law[of "lv_crowd w"] assms(2,3) by (auto simp: all_over_def live_ok_def lv_members_def)
  obtain j where j: "j \<ge> lv_round w" "i \<in> set (ft_turns q j)" using assms(1) by (auto simp: fair_turns_def)
  define m n where "m = (LEAST d. due q w d)" and "n = lv_round w' - lv_round w"
  have "due q w (j - lv_round w)" using i j by (auto simp: due_def)
  then have d: "due q w m" unfolding m_def by (rule LeastI)
  have "\<not> due q w d" if "d < n" for d
    using same(3)[rule_format, of "lv_round w + d"] that by (auto simp: due_def n_def)
  with d have "n \<le> m" using not_less by blast
  then have r: "lv_round w' + (m - n) = lv_round w + m" using assms(5) by (simp add: n_def)
  have "due q w' (m - n)" using d same(2) unfolding due_def r by simp
  then have "(LEAST d. due q w' d) \<le> m - n" by (rule Least_le)
  moreover have "0 < n" using assms(5) by (simp add: n_def)
  ultimately have "(LEAST d. due q w' d) < m" using \<open>n \<le> m\<close> by linarith
  then show ?thesis using same(1) by (simp add: togo_work_def m_def)
qed

lemma waiting_loop_returns:
  assumes "fair_turns q" and "live.loop_inv w0 s xs" "current_state s = Waiting" "ft_signal q \<le> lv_now (env s)" "live_ok (env s)"
  shows "loop_returns q w0 v s"
proof -
  have wf: "wf (work_order <*lex*> less_than)" by (intro wf_lex_prod wf_less_than)
  show ?thesis
    using assms(2-5)
  proof (induction "togo_work q (env s)" arbitrary: v s xs rule: wf_induct_rule[OF wf])
    case (1 s v xs)
    show ?case
    proof (cases "keep_looping s")
      case False
      with 1(2) show ?thesis by (rule loop_returns_stop)
    next
      case True
      obtain v' s' xs' where p: "main_loop_pass cfg (live_os k q) v s = Some (Inr (v', s'))" "live.loop_inv w0 s' xs'"
        "goes_on (env s) (env s')" "lv_now (env s) < lv_now (env s')" by (rule live_pass[OF 1(2) True])
      note st = stopping_loop_pass[OF 1(2) True 1(3-5) p(1)]
      have "loop_returns q w0 v' s'"
      proof (cases "all_over (env s)")
        case True
        from loop_returns_stop[OF p(2) st(4)[OF this]] show ?thesis .
      next
        case False
        have "live_ok (env s')" "ft_signal q \<le> lv_now (env s')"
          using p(3,4) 1(4,5) by (simp_all add: goes_on_def)
        with 1(1)[OF nearer_togo[OF assms(1) 1(5) False st(2,3)] p(2) st(1)] show ?thesis by blast
      qed
      then show ?thesis by (rule loop_returns_pass[OF True p(1,3)])
    qed
  qed
qed

text \<open>From a pass that begins after the signal there is at most one thread to create.\<close>

lemma stopping_loop_returns:
  assumes "live.loop_inv w0 s xs" "ft_signal q \<le> lv_now (env s)" "live_ok (env s)" "fair_turns q"
  shows "loop_returns q w0 v s"
proof (cases "keep_looping s \<and> current_state s = CreatingThread")
  case False
  from False assms(1) consider "\<not> keep_looping s" | "current_state s = Waiting" by (auto simp: live.loop_inv_def)
  then show ?thesis
    by cases (rule loop_returns_stop[OF assms(1)], assumption, rule waiting_loop_returns[OF assms(4,1) _ assms(2,3)])
next
  case True
  then obtain v' s' xs' where p: "main_loop_pass cfg (live_os k q) v s = Some (Inr (v', s'))" "live.loop_inv w0 s' xs'"
    "goes_on (env s) (env s')" "lv_now (env s) < lv_now (env s')" using live_pass[OF assms(1)] by blast
  have "current_state s' = Waiting"
  proof -
    obtain v1 w1 where n: "note_signal (live_os k q) v s = (v1, s\<lparr>env := w1\<rparr>)"
      using live.note_signal_ok by blast
    obtain v2 w2 where t: "tick cfg (live_os k q) v1 (s\<lparr>env := w1\<rparr>) = (v2, s\<lparr>env := w2\<rparr>)"
      using live.tick_ok[of cfg q v1 "s\<lparr>env := w1\<rparr>"] by auto
    show ?thesis using p(1) True n t by (auto simp: main_loop_pass_def bindE_eq_Inr)
  qed
  moreover have "live_ok (env s')" using p(3) assms(3) by (simp add: goes_on_def)
  ultimately have "loop_returns q w0 v' s'" using waiting_loop_returns[OF assms(4) p(2)] p(4) assms(2) by simp
  then show ?thesis using loop_returns_pass True p(1,3) by blast
qed

lemma live_loop_returns:
  assumes "live.loop_inv w0 s xs" "live_ok (env s)" "fair_turns q"
  shows "loop_returns q w0 v s"
  using assms(1,2)
proof (induction "ft_signal q - lv_now (env s)" arbitrary: v s xs rule: less_induct)
  case less
  show ?case
  proof (cases "keep_looping s \<and> lv_now (env s) < ft_signal q")
    case False
    then show ?thesis
      using stopping_loop_returns[OF less.prems(1) _ less.prems(2) assms(3)] loop_returns_stop[OF less.prems(1)]
      by (cases "keep_looping s") simp_all
  next
    case True
    then obtain v' s' xs' where p: "main_loop_pass cfg (live_os k q) v s = Some (Inr (v', s'))" "live.loop_inv w0 s' xs'"
      "goes_on (env s) (env s')" "lv_now (env s) < lv_now (env s')" using live_pass[OF less.prems(1)] by blast
    have "live_ok (env s')" using p(3) less.prems(2) by (simp add: goes_on_def)
    moreover have "ft_signal q - lv_now (env s') < ft_signal q - lv_now (env s)" using True p(4) by (auto intro: diff_less_mono2)
    ultimately have "loop_returns q w0 v' s'" using less.hyps[OF _ p(2)] by blast
    then show ?thesis using loop_returns_pass True p(1,3) by blast
  qed
qed

end

end
