(* ===== verification/Live_Books.thy ===== *)
theory Live_Books
  imports Live_Loop
begin

text \<open>
  Which clients get threads: when the main thread's allocations and thread creations do not fail,
  every client whose connection was accepted gets one, also when the signal arrives in between.
\<close>

section \<open>Calls that accept nobody\<close>

definition same_books :: "('s, 'w) live \<Rightarrow> ('s, 'w) live \<Rightarrow> bool" where
  "same_books w w' \<longleftrightarrow> lv_now w \<le> lv_now w' \<and> lv_accepted w' = lv_accepted w \<and>
     lv_current w' = lv_current w \<and> lv_started w' = lv_started w \<and> prefix (lv_stamps w) (lv_stamps w') \<and>
     lv_unlinked w' = lv_unlinked w"

lemma same_books_trans: "same_books w w' \<Longrightarrow> same_books w' w'' \<Longrightarrow> same_books w w''"
  using prefix_order.order_trans by (auto simp: same_books_def)

lemma enter_books: "same_books w (enter k q w)"
  by (simp add: same_books_def)

lemma live_call_books: "(\<And>fd. c \<noteq> Accept fd) \<Longrightarrow> c \<noteq> Unlink \<Longrightarrow> same_books w (snd (live_call k q c w))"
  by (cases rule: live_call_cases[of k q c w]) (auto simp: same_books_def)

lemma live_tryjoin_books: "same_books w (snd (live_tryjoin k q tid w))"
proof -
  obtain rv ret w' where "live_tryjoin k q tid w = ((rv, ret), w')" by (metis prod.exhaust)
  then show ?thesis
    by (rule live_tryjoin_cases) (use \<open>live_tryjoin k q tid w = _\<close> in \<open>simp_all add: same_books_def\<close>)
qed

lemma live_reads_books:
  "same_books w (snd (os_caught_signal (live_os k q) w))" "same_books w (snd (os_clock (live_os k q) w))"
  "same_books w (snd (os_eintr (live_os k q) w))" "same_books w (snd (os_client_ip (live_os k q) w))"
  "same_books w (snd (os_alloc_item (live_os k q) m w))" "same_books w (snd (os_alloc_data (live_os k q) ds w))"
  by (simp_all add: live_os_def live_alloc_def enter_books)

lemma booked_books: "booked (enter k q w) w' \<Longrightarrow> same_books w w'"
  by (simp add: booked_def same_books_def)

lemma live_stamp_books:
  fixes w :: "('s, 'w) live"
  shows "same_books w (snd (write_time_stamp cfg (live_os k q) w))"
proof (rule write_time_stamp_relates[where R = same_books])
  show "same_books w w''" if "same_books w w'" "same_books w' w''" for w w' w'' :: "('s, 'w) live" using that by (rule same_books_trans)
  show "same_books w (snd (os_strftime (live_os k q) w))" for w
    by (rule live_strftime_cases[of k q w]) (simp_all add: live_os_def same_books_def)
qed (use live_file_books[THEN booked_books] in \<open>simp_all add: live_os_def same_books_def\<close>)

text \<open>A time stamp that \<open>strftime\<close> has formatted is noted.\<close>

lemma stamp_run_stamps: "lv_stamps (snd (stamp_run cfg (live_file k q) p pc w)) = lv_stamps w"
proof (induction "stamp_left pc" arbitrary: pc w rule: less_induct)
  case less
  show ?case
  proof (cases "stamp_left pc = 0")
    case True
    then obtain rc where "pc = SReturned rc" by (cases pc) auto
    then show ?thesis by simp
  next
    case False
    obtain pc1 w1 where s: "stamp_step cfg (live_file k q) p pc w = (pc1, w1)" by fastforce
    have "lv_stamps w1 = lv_stamps w"
      using arg_cong[OF s, of snd] live_file_books[of k q w, unfolded booked_def]
      by (cases pc) (auto simp: split_beta get_file_mutex_def release_file_mutex_def open_file_for_read_write_def
          write_to_file_def Let_def)
    moreover have "stamp_left pc1 < stamp_left pc" using s False by (cases pc) (auto split: prod.splits)
    ultimately show ?thesis using less.hyps s False by (simp add: stamp_run_step)
  qed
qed

lemma write_time_stamp_adds:
  assumes "p = time_text (ft_time q (lv_now w))" "p \<noteq> []"
  shows "lv_stamps (snd (write_time_stamp cfg (live_os k q) w)) = lv_stamps w @ [p]"
  using assms by (simp add: stamp_steps_are_the_function live_os_def live_strftime_def Let_def stamp_run_stamps)

interpretation books: call_relation "live_os k q" lv_args lv_closed lv_opened "kt_build k" same_books for k q
proof (intro call_relation.intro call_relation_axioms.intro live.thread_env_axioms)
  show "same_books w w" for w by (simp add: same_books_def)
  show "same_books w w''" if "same_books w w'" "same_books w' w''" for w w' w'' using that by (rule same_books_trans)
  show "same_books w (snd (os_call (live_os k q) c w))" if "\<And>fd. c \<noteq> Accept fd" "c \<noteq> Unlink" for c w
    using live_call_books[OF that] by (simp add: live_os_def)
  show "same_books w (snd (os_tryjoin (live_os k q) tid w))" for w tid
    using live_tryjoin_books by (simp add: live_os_def)
qed (rule live_reads_books live_stamp_books)+

section \<open>The books\<close>

text \<open>
  Waiting for a client, the loop has created a thread for each client accepted; before it creates
  one, the client accepted last is the only one without a thread.
\<close>

definition books_ok :: "loop_vars \<Rightarrow> ('s, 'w) live server \<Rightarrow> bool" where
  "books_ok v s \<longleftrightarrow> finite (dom (items s)) \<and> finite (dom (datas s)) \<and>
     (current_state s = Waiting \<and> lv_current (env s) = None \<and> lv_started (env s) = lv_accepted (env s) \<or>
      current_state s = CreatingThread \<and> keep_looping s \<and>
        (\<exists>cl. lv_current (env s) = Some cl \<and> lv_accepted (env s) = lv_started (env s) @ [(lv_client_fd v, lc_world cl)]))"

lemma books_same:
  assumes "books_ok v s" "same_books (env s) w"
  shows "books_ok v (s\<lparr>env := w\<rparr>)"
  using assms by (simp add: books_ok_def same_books_def)

lemma check_books:
  assumes "books_ok v s" "current_state s = Waiting" "keep_looping s"
    "check_for_client_connection (live_os k q) ip s = (rv, fd, ip', s')"
  shows "books_ok (v\<lparr>lv_client_fd := fd, lv_ip_string := ip'\<rparr>) s'"
proof -
  obtain r w where a: "live_call k q (Accept (socket_fd s)) (env s) = (r, w)"
    by (cases "live_call k q (Accept (socket_fd s)) (env s)")
  have b: "lv_current (env s) = None" "lv_started (env s) = lv_accepted (env s)"
    "finite (dom (items s))" "finite (dom (datas s))"
    using assms(1,2) by (simp_all add: books_ok_def)
  show ?thesis
  proof (cases "r = -1")
    case True
    have "same_books (env s) w"
      by (rule live_call_cases[of k q "Accept (socket_fd s)" "env s"]) (use a True enter_books in auto)
    then have w: "lv_current w = None" "lv_started w = lv_accepted w" using b(1,2) by (simp_all add: same_books_def)
    have "\<exists>w'. s' = s\<lparr>env := w'\<rparr> \<and> same_books w w'"
      using assms(4) a True
      by (auto simp: check_for_client_connection_def do_call_def live_os_def Let_def same_books_def split: if_splits)
    then show ?thesis using w b(3,4) assms(2) by (auto simp: books_ok_def same_books_def)
  next
    case False
    obtain cl where cl: "lv_current w = Some cl" "lv_started w = lv_started (env s)"
      "lv_accepted w = lv_accepted (env s) @ [(r, lc_world cl)]"
      by (rule live_call_cases[of k q "Accept (socket_fd s)" "env s"]) (use a False in auto)
    have "s' = s\<lparr>env := enter k q w, current_state := CreatingThread\<rparr>" "fd = r"
      using assms(4) a False by (auto simp: check_for_client_connection_def do_call_def live_os_def Let_def)
    then show ?thesis using cl b assms(3) by (simp add: books_ok_def)
  qed
qed

context live_kit
begin

lemma waiting_pass_books:
  assumes "live.server_inv s xs" "books_ok v s" "current_state s = Waiting" "keep_looping s"
    "waiting_pass (live_os k q) v s = Some (Inr (v', s'))"
  shows "books_ok v' s'"
proof -
  obtain s1 gone where j: "join_threads (live_os k q) s = Some (Inr s1)" "live.joined_all s gone s1"
    using live.join_threads_ok[OF assms(1), of q] by blast
  have "same_books (env s) (env s1)" by (rule books.join_threads_R[OF assms(1) j(1)])
  then have s1: "books_ok v s1" "current_state s1 = Waiting" "keep_looping s1"
    using j(2) assms(2-4) by (auto simp: live.joined_all_def books_ok_def same_books_def intro: finite_subset)
  define s2 where "s2 = (if all_threads_closed s1
      then s1\<lparr>env := enter k q (env s1), keep_looping := \<not> ft_signal q \<le> lv_now (env s1)\<rparr> else s1)"
  define s3 where "s3 = s2\<lparr>env := enter k q (env s2)\<rparr>"
  have s3: "books_ok v s3" "current_state s3 = Waiting"
    using s1 by (simp_all add: s3_def s2_def books_ok_def)
  have k: "keep_looping s3" if "\<not> ft_signal q \<le> lv_now (env s2)"
    using that s1(3) by (auto simp: s3_def s2_def)
  have run: "waiting_pass (live_os k q) v s = Some (Inr
      (if \<not> ft_signal q \<le> lv_now (env s2)
       then let (rv, fd, ip, s4) = check_for_client_connection (live_os k q) (lv_ip_string v) s3
            in (v\<lparr>lv_client_fd := fd, lv_ip_string := ip\<rparr>, s4)
       else (v, s3)))"
    using j(1) s1(3) by (simp add: waiting_pass_def s3_def s2_def Let_def split_beta)
  show ?thesis
  proof (cases "ft_signal q \<le> lv_now (env s2)")
    case True
    then show ?thesis using run assms(5) s3(1) by simp
  next
    case False
    obtain rv fd ip s4 where c: "check_for_client_connection (live_os k q) (lv_ip_string v) s3 = (rv, fd, ip, s4)"
      by (metis prod.exhaust)
    from check_books[OF s3 k[OF False] c] run False c assms(5) show ?thesis by simp
  qed
qed

section \<open>No failing creation\<close>

lemma live_alloc_succeeds:
  assumes "\<not> ft_fail q (lv_now w)" "finite (dom m)"
  shows "\<exists>a. live_alloc k q m w = (Some a, enter k q w)"
  using assms first_free_finite[of m] by (auto simp: live_alloc_def)

lemma live_create_succeeds:
  assumes "live_ok w" "\<not> ft_fail q (lv_now w)" "lv_current w = Some cl" "thread_state d = WaitingForData"
  shows "\<exists>tid w'. live_create k q p d w = ((0, tid), w') \<and> lv_current w' = None \<and> lv_accepted w' = lv_accepted w \<and>
    lv_started w' = lv_started w @ [(client_fd d, lc_world cl)]"
proof -
  let ?c = "lv_crowd (enter k q w)"
  have ok: "live_ok (enter k q w)" using enter_ok[OF assms(1)] by blast
  have none: "lv_args w (int (length (cr_members ?c))) = None"
  proof (rule ccontr)
    assume "lv_args w (int (length (cr_members ?c))) \<noteq> None"
    then have "lv_args (enter k q w) (int (length (lv_members (enter k q w)))) \<noteq> None" by (simp add: lv_members_def)
    with ok have "nat (int (length (lv_members (enter k q w)))) < length (lv_members (enter k q w))"
      unfolding live_ok_def by blast
    then show False by simp
  qed
  have "fit (lc_world cl)" "sound ?c" using ok assms(3) by (simp_all add: live_ok_def)
  from begin_law[OF this(2,1) assms(4)] obtain t where
    "begin_thread (kt_sys k) d Map.empty (sh_adopt (kt_sharing k) (cr_store ?c) False (lc_world cl)) = Inr t" by blast
  then show ?thesis using assms(2,3) none by (simp add: live_create_def Let_def)
qed

lemma create_thread_books:
  assumes inv: "live.server_inv s xs" "live_ok (env s)" and books: "finite (dom (items s))" "finite (dom (datas s))"
    "lv_current (env s) = Some cl" "lv_accepted (env s) = lv_started (env s) @ [(fd, lc_world cl)]"
    and fail: "\<forall>k. \<not> ft_fail q k" and run: "create_thread (live_os k q) fd ip s = Inr (rv, s')"
  shows "finite (dom (items s'))" "finite (dom (datas s'))" "lv_current (env s') = None"
    "lv_started (env s') = lv_accepted (env s')"
proof -
  let ?d = "\<lparr>client_fd = fd, thread_state = WaitingForData, thread_complete_success = False\<rparr>"
  have "dom (links s) = dom (items s)" using inv(1) by (simp add: live.server_inv_def)
  with books(1) have l: "finite (dom (links s))" by simp
  obtain a where a: "live_alloc k q (links s) (env s) = (Some a, enter k q (env s))"
    using live_alloc_succeeds[OF _ l, of q "env s"] fail by blast
  let ?w1 = "enter k q (env s)"
  obtain p where p: "live_alloc k q (datas s) ?w1 = (Some p, enter k q ?w1)"
    using live_alloc_succeeds[OF _ books(2), of q ?w1] fail by blast
  let ?w2 = "enter k q ?w1"
  have "goes_on (env s) ?w2" using enter_goes_on goes_on_trans by blast
  then have "live_ok ?w2" using inv(2) by (simp add: goes_on_def)
  then obtain tid w3 where w3: "live_create k q p ?d ?w2 = ((0, tid), w3)" "lv_current w3 = None"
    "lv_accepted w3 = lv_accepted (env s)" "lv_started w3 = lv_started (env s) @ [(fd, lc_world cl)]"
    using live_create_succeeds[of ?w2 q cl ?d p] fail books(3) by auto
  obtain first m where ins: "SLIST_INSERT_HEAD ((links s)(a \<mapsto> None)) (linked_list s) (Some a) = Inr (first, m)"
    by (simp add: SLIST_INSERT_HEAD_def)
  have "s' = s\<lparr>env := w3, links := m, linked_list := first, datas := (datas s)(p \<mapsto> ?d),
      items := (items s)(a \<mapsto> \<lparr>thread_id = tid, client_ip_string = ip\<rparr>)\<rparr>"
    using run a p w3(1) ins by (auto simp: create_thread_def live_os_def Let_def)
  then show "finite (dom (items s'))" "finite (dom (datas s'))" "lv_current (env s') = None"
    "lv_started (env s') = lv_accepted (env s')" using books w3 by simp_all
qed

section \<open>The loop\<close>

lemma main_loop_pass_books:
  assumes inv: "live.loop_inv w0 s xs" "live_ok (env s)" "books_ok v s" "keep_looping s" and fail: "\<forall>k. \<not> ft_fail q k"
    and pass: "main_loop_pass cfg (live_os k q) v s = Some (Inr (v', s'))"
  shows "books_ok v' s'"
proof -
  obtain v1 w1 where n: "note_signal (live_os k q) v s = (v1, s\<lparr>env := w1\<rparr>)" "live.calm (env s) w1"
    using live.note_signal_ok by blast
  obtain v2 w2 where t: "tick cfg (live_os k q) v1 (s\<lparr>env := w1\<rparr>) = (v2, s\<lparr>env := w2\<rparr>)" "live.calm w1 w2"
    using live.tick_ok[of cfg q v1 "s\<lparr>env := w1\<rparr>"] by auto
  let ?s = "s\<lparr>env := w2\<rparr>"
  have fd: "lv_client_fd v2 = lv_client_fd v"
    using n(1) t(1) by (auto simp: note_signal_def tick_def split: if_splits prod.splits)
  have "same_books (env s) w1" "same_books w1 w2"
    using books.note_signal_R[of s k q v] books.tick_R[of "s\<lparr>env := w1\<rparr>" k q v1] n(1) t(1) by simp_all
  then have "same_books (env s) w2" by (rule same_books_trans)
  from books_same[OF inv(3) this] have b: "books_ok v2 ?s" using fd by (simp add: books_ok_def)
  have "goes_on (env s) w2"
    using live.note_signal_R[of s q v] live.tick_R[of "s\<lparr>env := w1\<rparr>" q v1] n(1) t(1)
    by (auto intro: goes_on_trans)
  then have ok: "live_ok (env ?s)" using inv(2) by (simp add: goes_on_def)
  have k: "live.server_inv ?s xs"
    using live.calm_kept[OF live.calm_trans[OF n(2) t(2)], of w0 xs] inv(1)
    by (simp add: live.loop_inv_def live.kept_def)
  show ?thesis
  proof (cases "current_state s = Waiting")
    case True
    then have "waiting_pass (live_os k q) v2 ?s = Some (Inr (v', s'))"
      using pass n(1) t(1) by (simp add: main_loop_pass_def)
    from waiting_pass_books[OF k b _ _ this] True inv(4) show ?thesis by simp
  next
    case False
    then have c: "current_state s = CreatingThread" using inv(1) by (auto simp: live.loop_inv_def)
    then obtain cl where cl: "lv_current w2 = Some cl"
      "lv_accepted w2 = lv_started w2 @ [(lv_client_fd v2, lc_world cl)]" "finite (dom (items s))" "finite (dom (datas s))"
      using b by (auto simp: books_ok_def)
    obtain rv s3 where s3: "create_thread (live_os k q) (lv_client_fd v2) (lv_ip_string v2) ?s = Inr (rv, s3)"
      "s' = s3\<lparr>current_state := Waiting\<rparr>" "v' = v2"
      using pass n(1) t(1) c by (auto simp: main_loop_pass_def bindE_eq_Inr)
    from create_thread_books[OF k ok _ _ _ _ fail s3(1)] cl s3(2) show ?thesis by (simp add: books_ok_def)
  qed
qed

text \<open>So at the end of the loop every accepted client has got its thread.\<close>

lemma loop_serves_accepted:
  assumes "main_loop_from cfg (live_os k q) v s = Some (Inr s')" "live.loop_inv w0 s xs" "live_ok (env s)"
    "books_ok v s" "\<forall>k. \<not> ft_fail q k"
  shows "lv_started (env s') = lv_accepted (env s')"
proof -
  let ?P = "\<lambda>v s. (\<exists>xs. live.loop_inv w0 s xs) \<and> live_ok (env s) \<and> books_ok v s"
  have "\<exists>v'. ?P v' s' \<and> \<not> keep_looping s'"
  proof (rule main_loop_from_keeps[where P = ?P, OF assms(1) refl])
    show "?P v s" using assms(2-4) by blast
    show "?P v' s'" if P: "?P v s" and k: "keep_looping s"
      and pass: "main_loop_pass cfg (live_os k q) v s = Some (Inr (v', s'))" for v s v' s'
    proof -
      obtain xs where i: "live.loop_inv w0 s xs" "live_ok (env s)" "books_ok v s" using P by blast
      from live_pass[OF i(1) k, of q v] pass have "\<exists>xs'. live.loop_inv w0 s' xs'" "goes_on (env s) (env s')" by auto
      with i(2) main_loop_pass_books[OF i k assms(5) pass] show ?thesis by (simp add: goes_on_def)
    qed
  qed
  then show ?thesis by (auto simp: books_ok_def)
qed

end

end
