(* ===== verification/Live_Main.thy ===== *)
theory Live_Main
  imports Live_Books
begin

text \<open>
  From the start of the program to its end, over any file and threads that satisfy the laws of \<open>live_kit\<close>:
  \<open>main\<close> returns, and what it leaves.
\<close>

text \<open>A server that has made no list yet.\<close>

definition blank :: "'w server \<Rightarrow> bool" where
  "blank s \<longleftrightarrow> linked_list s = None \<and> links s = Map.empty \<and> items s = Map.empty \<and> datas s = Map.empty \<and> keep_looping s"

text \<open>The file removed, and what it held.\<close>

definition removed :: "('s, 'w) kit \<Rightarrow> ('s, 'w) live \<Rightarrow> ('s, 'w) live" where
  "removed k w = w\<lparr>lv_crowd := (lv_crowd w)\<lparr>cr_store := kt_unlink k (cr_store (lv_crowd w))\<rparr>,
     lv_unlinked := lv_unlinked w @ [cr_store (lv_crowd w)]\<rparr>"

lemma live_unlink: "snd (live_call k q Unlink w) \<in> {enter k q w, removed k (enter k q w)}"
  by (simp add: live_call_def removed_def Let_def)

context live_kit
begin

text \<open>Before the loop no client was accepted; after it no thread is left.\<close>

definition unstarted :: "('s, 'w) live \<Rightarrow> ('s, 'w) live \<Rightarrow> bool" where
  "unstarted w0 w \<longleftrightarrow> goes_on w0 w \<and> lv_args w = Map.empty \<and> lv_started w = [] \<and> lv_accepted w = [] \<and>
     lv_current w = None"

definition finished :: "fate \<Rightarrow> ('s, 'w) live \<Rightarrow> ('s, 'w) live \<Rightarrow> bool" where
  "finished q w0 w \<longleftrightarrow> goes_on w0 w \<and> lv_args w = Map.empty \<and> mset (lv_opened w) \<subseteq># mset (lv_closed w) \<and>
     ((\<forall>j. \<not> ft_fail q j) \<longrightarrow> lv_started w = lv_accepted w)"

lemma unstarted_finished: "unstarted w0 w \<Longrightarrow> finished q w0 w"
  by (simp add: unstarted_def finished_def lv_opened_def)

lemma enter_finished: "finished q w0 w \<Longrightarrow> finished q w0 (enter k q' w)"
  using goes_on_trans[OF _ enter_goes_on] by (auto simp: finished_def)

lemma call_unstarted:
  "unstarted w0 w \<Longrightarrow> (\<And>fd. c \<noteq> Accept fd) \<Longrightarrow> c \<noteq> Unlink \<Longrightarrow> unstarted w0 (snd (os_call (live_os k q) c w))"
  using goes_on_trans[OF _ nearly(1)[OF live_call_near[of c q w]]]
  by (cases rule: live_call_cases[of k q c w]) (auto simp: unstarted_def live_os_def)

lemma call_finished:
  "finished q w0 w \<Longrightarrow> (\<And>fd. c \<noteq> Accept fd) \<Longrightarrow> c \<noteq> Unlink \<Longrightarrow> finished q w0 (snd (os_call (live_os k q) c w))"
  using goes_on_trans[OF _ nearly(1)[OF live_call_near[of c q w]]]
  by (cases rule: live_call_cases[of k q c w])
    (auto simp: finished_def live_os_def lv_opened_def intro: subset_mset.order_trans)

lemma live_main_loop:
  assumes "blank s" "live_ok (env s)" "fair_turns q"
  shows "\<exists>s'. main_loop cfg (live_os k q) s = Some (Inr (0, s')) \<and> live.kept (env s) s' [] \<and> goes_on (env s) (env s') \<and>
    (lv_current (env s) = None \<and> lv_started (env s) = lv_accepted (env s) \<and> (\<forall>j. \<not> ft_fail q j) \<longrightarrow>
       lv_started (env s') = lv_accepted (env s'))"
proof -
  obtain n w1 where n: "os_clock (live_os k q) (env s) = (n, w1)" by (cases "os_clock (live_os k q) (env s)")
  let ?s = "s\<lparr>current_state := Waiting, env := w1\<rparr>"
  have i: "live.server_inv s []" "keep_looping s" using assms(1) by (simp_all add: live.server_inv_def blank_def)
  note inv = live.loop_start[OF i n]
  have g: "goes_on (env s) w1" "same_books (env s) w1"
    using live.R_reads(2)[of "env s" q] books.R_reads(2)[of "env s" k q] n by simp_all
  have ok: "live_ok (env ?s)" using assms(2) g(1) by (simp add: goes_on_def)
  let ?v = "\<lparr>lv_client_fd = 0, lv_ip_string = [], caught_signal_prev = False, next_timestamp = n + 10\<rparr>"
  from live_loop_returns[OF inv ok assms(3), of ?v] obtain s' where
    s': "main_loop_from cfg (live_os k q) ?v ?s = Some (Inr s')" "live.kept (env s) s' []" "goes_on w1 (env s')"
    by (auto simp: loop_returns_def)
  have "lv_started (env s') = lv_accepted (env s')"
    if "lv_current (env s) = None \<and> lv_started (env s) = lv_accepted (env s) \<and> (\<forall>j. \<not> ft_fail q j)"
  proof -
    have "books_ok ?v ?s" using that assms(1) g(2) by (simp add: books_ok_def blank_def same_books_def)
    with loop_serves_accepted[OF s'(1) inv ok] that show ?thesis by blast
  qed
  with s' g(1) n show ?thesis by (auto simp: main_loop_def intro: goes_on_trans)
qed

lemma loop_finished:
  assumes "blank s" "unstarted w0 (env s)" "live_ok w0" "fair_turns q"
  shows "\<exists>s'. main_loop cfg (live_os k q) s = Some (Inr (0, s')) \<and> linked_list s' = None \<and> finished q w0 (env s')"
proof -
  have "live_ok (env s)" using assms(2,3) by (simp add: unstarted_def goes_on_def)
  from live_main_loop[OF assms(1) this assms(4)] obtain s' where s':
    "main_loop cfg (live_os k q) s = Some (Inr (0, s'))" "live.kept (env s) s' []" "goes_on (env s) (env s')"
    "(\<forall>j. \<not> ft_fail q j) \<Longrightarrow> lv_started (env s') = lv_accepted (env s')"
    using assms(2) by (auto simp: unstarted_def)
  have "dom (lv_args (env s')) \<subseteq> {}" "mset (lv_closed (env s')) = mset (lv_closed (env s)) + mset (lv_opened (env s'))"
    using s'(2) assms(2) by (simp_all add: live.kept_def live.accounted_def unstarted_def lv_opened_def)
  then have "finished q w0 (env s')"
    using s'(3,4) assms(2) goes_on_trans by (auto simp: finished_def unstarted_def)
  moreover have "linked_list s' = None" using s'(2) by (simp add: live.kept_def live.server_inv_def)
  ultimately show ?thesis using s'(1) by blast
qed

lemma fork_finished:
  assumes "blank s" "unstarted w0 (env s)" "live_ok w0" "fair_turns q"
  shows "\<exists>e s'. main_loop_fork cfg (live_os k q) s = Some (Inr e) \<and> ((\<exists>n. e = Return n s') \<or> e = Exited 0 s') \<and>
    linked_list s' = None \<and> finished q w0 (env s')"
proof (rule main_loop_fork_keeps[of "unstarted w0" "live_os k q" s cfg, OF call_unstarted assms(2)])
  fix e w assume early: "main_loop_fork cfg (live_os k q) s = Some (Inr e)" "unstarted w0 w"
    "e = Return (-1) (s\<lparr>env := w\<rparr>) \<or> e = Exited 0 (s\<lparr>env := w\<rparr>)"
  have "linked_list (s\<lparr>env := w\<rparr>) = None" "finished q w0 (env (s\<lparr>env := w\<rparr>))"
    using assms(1) unstarted_finished[OF early(2)] by (simp_all add: blank_def)
  with early(1,3) show ?thesis by blast
next
  fix w assume child: "unstarted w0 w" "main_loop_fork cfg (live_os k q) s =
    Option.bind (main_loop cfg (live_os k q) (s\<lparr>env := w\<rparr>)) (\<lambda>r. Some (bindE r (\<lambda>(rv, s9). Inr (Return 0 s9))))"
  have "blank (s\<lparr>env := w\<rparr>)" using assms(1) by (simp add: blank_def)
  then obtain s3 where "main_loop cfg (live_os k q) (s\<lparr>env := w\<rparr>) = Some (Inr (0, s3))" "linked_list s3 = None"
    "finished q w0 (env s3)" using loop_finished[of "s\<lparr>env := w\<rparr>" w0 q] child(1) assms(3,4) by auto
  with child(2) show ?thesis by auto
qed

text \<open>At the end the file is removed, in the build for the file; the parent of a daemon only exits.\<close>

lemma shut_down:
  assumes "linked_list s = None" "finished q w0 (env s)"
  shows "\<exists>w. linked_list (snd (shutting_down cfg (live_os k q) s)) = None \<and> finished q w0 w \<and>
    (env (snd (shutting_down cfg (live_os k q) s)) = w \<or>
     \<not> use_aesd_char_device cfg \<and> env (snd (shutting_down cfg (live_os k q) s)) = removed k w)"
proof (rule shutting_down_keeps[of "finished q w0" "live_os k q" s cfg, OF call_finished assms(2)])
  fix w assume w: "finished q w0 w" "linked_list (snd (shutting_down cfg (live_os k q) s)) = linked_list s"
    "env (snd (shutting_down cfg (live_os k q) s)) = (if use_aesd_char_device cfg then w else snd (os_call (live_os k q) Unlink w))"
  then show ?thesis
    using assms(1) enter_finished[OF w(1), of q] live_unlink[of k q w] by (auto simp: live_os_def)
qed

definition main_ends :: "fate \<Rightarrow> ('s, 'w) live \<Rightarrow> ('s, 'w) live ending \<Rightarrow> bool" where
  "main_ends q w0 e \<longleftrightarrow> (\<exists>s w. linked_list s = None \<and> finished q w0 w \<and>
     (e = Return 0 s \<and> (env s = w \<or> \<not> use_aesd_char_device cfg \<and> env s = removed k w) \<or> e = Exited 0 s \<and> env s = w))"

lemma main_finished:
  assumes "live_ok w0" "unstarted w0 w0" "fair_turns q"
  shows "\<exists>e. main cfg (live_os k q) argv (initial_server w0) = Some (Inr e) \<and> main_ends q w0 e"
proof -
  let ?os = "live_os k q"
  define s1 where "s1 = (if length argv \<ge> 2 \<and> argv ! 1 = daemon_flag then (initial_server w0)\<lparr>daemon_enabled := True\<rparr>
    else initial_server w0)"
  have s1: "env s1 = w0" "links s1 = Map.empty" "items s1 = Map.empty" "datas s1 = Map.empty" "keep_looping s1"
    by (simp_all add: s1_def initial_server_def)
  obtain rv s2 where st: "startup cfg ?os s1 = (rv, s2)" by (cases "startup cfg ?os s1")
  have u: "unstarted w0 (env s2)"
    using startup_keeps[of "unstarted w0" ?os s1 cfg] call_unstarted assms(2) st by (simp add: s1)
  have b: "blank s2" using startup_frame[of cfg ?os s1] st by (simp add: blank_def s1)
  have fin: "main_ends q w0 (Return 0 (snd (shutting_down cfg ?os s)))" if "linked_list s = None" "finished q w0 (env s)" for s
    using shut_down[OF that] unfolding main_ends_def by blast
  have main: "main cfg ?os argv (initial_server w0) =
      (if rv \<noteq> -1
       then if daemon_enabled s2
            then Option.bind (main_loop_fork cfg ?os s2) (\<lambda>r. Some (bindE r (\<lambda>e.
                   case e of Return _ s3 \<Rightarrow> Inr (Return 0 (snd (shutting_down cfg ?os s3)))
                   | Exited n s3 \<Rightarrow> Inr (Exited n s3))))
            else Option.bind (main_loop cfg ?os s2) (\<lambda>r. Some (bindE r (\<lambda>(_, s3).
                   Inr (Return 0 (snd (shutting_down cfg ?os s3))))))
       else Some (Inr (Return 0 (snd (shutting_down cfg ?os s2)))))"
    unfolding main_def s1_def[symmetric] Let_def st by simp
  consider "rv = -1" | "rv \<noteq> -1" "daemon_enabled s2" | "rv \<noteq> -1" "\<not> daemon_enabled s2" by blast
  then show ?thesis
  proof cases
    case 1
    have "linked_list s2 = None" "finished q w0 (env s2)" using b unstarted_finished[OF u] by (simp_all add: blank_def)
    with fin 1 main show ?thesis by simp
  next
    case 2
    obtain e s' where e: "main_loop_fork cfg ?os s2 = Some (Inr e)" "(\<exists>n. e = Return n s') \<or> e = Exited 0 s'"
      "linked_list s' = None" "finished q w0 (env s')" using fork_finished[OF b u assms(1,3)] by blast
    then have "main_ends q w0 (Exited 0 s')" by (auto simp: main_ends_def)
    with e fin[OF e(3,4)] main 2 show ?thesis by auto
  next
    case 3
    obtain s' where "main_loop cfg ?os s2 = Some (Inr (0, s'))" "linked_list s' = None" "finished q w0 (env s')"
      using loop_finished[OF b u assms(1,3)] by blast
    with fin main 3 show ?thesis by simp
  qed
qed

lemma live_start_ok:
  assumes "sound \<lparr>cr_store = d, cr_locked = False, cr_members = []\<rparr>" "\<forall>cl \<in> set cls. fit (lc_world cl)"
  shows "live_ok (live_start d x cls)" "unstarted (live_start d x cls) (live_start d x cls)"
    "live_order cls (live_start d x cls)"
    "\<forall>cl \<in> set cls. reliable (lc_world cl) \<Longrightarrow> own_good x \<Longrightarrow>
      logged v [] [] \<lparr>cr_store = d, cr_locked = False, cr_members = []\<rparr> \<Longrightarrow> live_log v (live_start d x cls)"
  using assms
  by (simp_all add: live_ok_def live_start_def lv_members_def live_log_def live_order_def unstarted_def goes_on_refl)

text \<open>When all threads are joined all have ended.\<close>

lemma joined_over: "live_ok w \<Longrightarrow> lv_args w = Map.empty \<Longrightarrow> \<forall>m \<in> set (lv_members w). member_ended m"
  by (auto simp: live_ok_def in_set_conv_nth)

text \<open>Who was accepted and who got a thread.\<close>

lemma served:
  assumes "finished q w0 w" "live_ok w0" "live_order cls w0"
  shows "map snd (lv_accepted w) = take (length (lv_accepted w)) (map lc_world cls)"
    "subseq (map snd (lv_started w)) (map snd (lv_accepted w))"
    "(\<forall>j. \<not> ft_fail q j) \<longrightarrow> lv_started w = lv_accepted w"
proof -
  have o: "live_order cls w" using assms by (simp add: finished_def goes_on_def)
  then show "map snd (lv_accepted w) = take (length (lv_accepted w)) (map lc_world cls)"
    unfolding live_order_def by (metis append_eq_conv_conj length_map)
  show "subseq (map snd (lv_started w)) (map snd (lv_accepted w))"
    using o subseq_left unfolding live_order_def by blast
  show "(\<forall>j. \<not> ft_fail q j) \<longrightarrow> lv_started w = lv_accepted w" using assms(1) by (simp add: finished_def)
qed

end

end
