(* ===== verification/Live_Demo.thy ===== *)
theory Live_Demo
  imports Live_Main
begin

text \<open>
  One run of the program over any file, for the witnesses of the properties: one client connects, its
  thread is created, the server on a file writes a time stamp while that thread runs, and \<open>SIGTERM\<close>
  arrives some calls later.
\<close>

section \<open>The fate\<close>

text \<open>
  The batches of turns get longer and longer and come back to every thread. Ten seconds pass before the
  twentieth call.
\<close>

definition demo_fate :: fate where
  "demo_fate = \<lparr>ft_turns = (\<lambda>j. [0..<Suc j]), ft_held = (\<lambda>j. [0]),
     ft_answer = (\<lambda>j c. if c = Socket then 3 else if c = Accept 3 then 4 else 0),
     ft_fail = (\<lambda>j. False), ft_clock = (\<lambda>j. if j < 20 then 0 else 10), ft_eintr = (\<lambda>j. False),
     ft_time = (\<lambda>j. Some [116]), ft_signal = 30\<rparr>"

lemma demo_fate_simps [simp]:
  "ft_answer demo_fate j c = (if c = Socket then 3 else if c = Accept 3 then 4 else 0)" "\<not> ft_fail demo_fate j"
  "ft_clock demo_fate j = (if j < 20 then 0 else 10)" "\<not> ft_eintr demo_fate j" "ft_time demo_fate j = Some [116]"
  "ft_signal demo_fate = 30"
  by (simp_all add: demo_fate_def)

lemma demo_fair: "fair_turns demo_fate"
proof -
  have "i + j \<ge> j \<and> i \<in> set (ft_turns demo_fate (i + j))" for i j
    by (simp add: demo_fate_def del: upt_Suc)
  then show ?thesis unfolding fair_turns_def by blast
qed

text \<open>Nobody takes turns before the first thread is there: only the calls are counted.\<close>

definition idle :: "('s, 'w) live \<Rightarrow> bool" where
  "idle w \<longleftrightarrow> cr_members (lv_crowd w) = [] \<and> \<not> cr_locked (lv_crowd w)"

definition at_call :: "nat \<Rightarrow> ('s, 'w) live \<Rightarrow> ('s, 'w) live" where
  "at_call n w = w\<lparr>lv_now := n, lv_round := n\<rparr>"

lemma at_call_simps [simp]:
  "idle (at_call n w) = idle w" "at_call n (at_call m w) = at_call n w" "lv_now (at_call n w) = n"
  "lv_clients (at_call n w) = lv_clients w" "lv_accepted (at_call n w) = lv_accepted w"
  "lv_started (at_call n w) = lv_started w" "lv_current (at_call n w) = lv_current w"
  "lv_args (at_call n w) = lv_args w" "lv_crowd (at_call n w) = lv_crowd w"
  by (simp_all add: idle_def at_call_def)

lemma turns_of_nobody: "cr_members c = [] \<Longrightarrow> kit_turns k is c = Some (Inr c)"
  unfolding kit_turns_def by (induction "is") (simp_all add: turn_def)

lemma enter_idle [simp]: "idle w \<Longrightarrow> enter k q (at_call n w) = at_call (Suc n) w"
  by (simp add: idle_def at_call_def enter_def turns_of_nobody main_holds_def)

lemma live_os_simps:
  "os_call (live_os k q) = live_call k q" "os_clock (live_os k q) w = (ft_clock q (lv_now w), enter k q w)"
  "os_eintr (live_os k q) w = (ft_eintr q (lv_now w), enter k q w)"
  "os_client_ip (live_os k q) w = (case lv_current w of None \<Rightarrow> [] | Some cl \<Rightarrow> lc_ip cl, enter k q w)"
  "os_alloc_item (live_os k q) = live_alloc k q" "os_alloc_data (live_os k q) = live_alloc k q"
  "os_pthread_create (live_os k q) = live_create k q"
  by (simp_all add: live_os_def)

section \<open>Start-up\<close>

lemma demo_call:
  assumes "idle w" "c \<notin> range Accept" "c \<notin> range Close" "c \<noteq> Unlink"
  shows "live_call k demo_fate c (at_call n w) = (if c = Socket then 3 else 0, at_call (Suc n) w)"
proof -
  have "live_call k demo_fate c (at_call n w) = (ft_answer demo_fate n c, enter k demo_fate (at_call n w))"
    using assms(2-4) by (cases c) (simp_all add: live_call_def Let_def del: enter_idle)
  then show ?thesis using assms by auto
qed

text \<open>Eight calls, and one more for the mutex.\<close>

definition start_calls :: "build \<Rightarrow> nat" where
  "start_calls cfg = (if disable_locking cfg then 8 else 9)"

definition demo_ready :: "nat \<Rightarrow> ('s, 'w) live \<Rightarrow> ('s, 'w) live server" where
  "demo_ready n w = (initial_server (at_call n w))\<lparr>current_state := Startup, socket_fd := 3, res_allocated := True\<rparr>"

lemma demo_ready_simps [simp]:
  "current_state (demo_ready n w) = Startup" "linked_list (demo_ready n w) = None" "links (demo_ready n w) = Map.empty"
  "items (demo_ready n w) = Map.empty" "datas (demo_ready n w) = Map.empty" "keep_looping (demo_ready n w)"
  "socket_fd (demo_ready n w) = 3" "env (demo_ready n w) = at_call n w" "\<not> daemon_enabled (demo_ready n w)"
  by (simp_all add: demo_ready_def initial_server_def)

lemma demo_startup:
  assumes "idle w"
  shows "startup cfg (live_os k demo_fate) (initial_server (at_call 0 w)) = (0, demo_ready (start_calls cfg) w)"
  using assms
  by (simp add: startup_def demo_ready_def start_calls_def initial_server_def SLIST_INIT_def Let_def
      do_call_def live_os_simps demo_call image_iff eval_nat_numeral)

section \<open>Two passes of the loop\<close>

definition demo_vars :: "int \<Rightarrow> byte list \<Rightarrow> loop_vars" where
  "demo_vars fd ip = \<lparr>lv_client_fd = fd, lv_ip_string = ip, caught_signal_prev = False, next_timestamp = 10\<rparr>"

definition demo_waiting :: "nat \<Rightarrow> ('s, 'w) live \<Rightarrow> ('s, 'w) live server" where
  "demo_waiting n w = (demo_ready n w)\<lparr>current_state := Waiting, env := at_call (Suc n) w\<rparr>"

abbreviation demo_ip :: "'w live_client \<Rightarrow> byte list" where
  "demo_ip cl \<equiv> get_client_ip_address (lc_ip cl) [] INET_ADDRSTRLEN"

definition demo_taken :: "'w live_client \<Rightarrow> ('s, 'w) live \<Rightarrow> ('s, 'w) live" where
  "demo_taken cl w = w\<lparr>lv_clients := [], lv_current := Some cl, lv_accepted := [(4, lc_world cl)]\<rparr>"

definition demo_accepted :: "nat \<Rightarrow> 'w live_client \<Rightarrow> ('s, 'w) live \<Rightarrow> ('s, 'w) live server" where
  "demo_accepted n cl w = (demo_waiting n w)\<lparr>current_state := CreatingThread, env := at_call (n + 7) (demo_taken cl w)\<rparr>"

lemma demo_taken_simps [simp]:
  "idle (demo_taken cl w) = idle w" "lv_args (demo_taken cl w) = lv_args w" "lv_started (demo_taken cl w) = lv_started w"
  "lv_current (demo_taken cl w) = Some cl" "lv_crowd (demo_taken cl w) = lv_crowd w"
  by (simp_all add: demo_taken_def idle_def)

lemma demo_states [simp]:
  "current_state (demo_waiting n w) = Waiting" "current_state (demo_accepted n cl w) = CreatingThread"
  "env (demo_waiting n w) = at_call (Suc n) w" "env (demo_accepted n cl w) = at_call (n + 7) (demo_taken cl w)"
  "keep_looping (demo_waiting n w)" "keep_looping (demo_accepted n cl w)"
  by (simp_all add: demo_waiting_def demo_accepted_def)

lemma demo_note_tick:
  assumes "idle w" "n < 20"
  shows "note_signal (live_os k demo_fate) (demo_vars fd ip) (s\<lparr>env := at_call n w\<rparr>) =
      (demo_vars fd ip, s\<lparr>env := at_call (Suc n) w\<rparr>)"
    "tick cfg (live_os k demo_fate) (demo_vars fd ip) (s\<lparr>env := at_call n w\<rparr>) =
      (demo_vars fd ip, s\<lparr>env := at_call (Suc n) w\<rparr>)"
  using assms by (simp_all add: note_signal_def tick_def live_os_simps demo_vars_def)

lemma demo_take:
  assumes "idle w" "lv_clients w = [cl]" "lv_accepted w = []"
  shows "live_call k demo_fate (Accept 3) (at_call n w) = (4, at_call (Suc n) (demo_taken cl w))"
  using assms by (simp add: live_call_def Let_def) (simp add: at_call_def demo_taken_def)

text \<open>The first pass accepts the client.\<close>

lemma demo_accept:
  assumes "idle w" "lv_clients w = [cl]" "lv_accepted w = []" "n < 10"
  shows "main_loop_pass cfg (live_os k demo_fate) (demo_vars 0 []) (demo_waiting n w) =
     Some (Inr (demo_vars 4 (demo_ip cl), demo_accepted n cl w))"
proof -
  let ?s = "\<lambda>m. (demo_waiting n w)\<lparr>env := at_call m w\<rparr>"
  have w: "demo_waiting n w = ?s (Suc n)" by (simp add: demo_waiting_def)
  have "note_signal (live_os k demo_fate) (demo_vars 0 []) (?s (Suc n)) = (demo_vars 0 [], ?s (Suc (Suc n)))"
    "tick cfg (live_os k demo_fate) (demo_vars 0 []) (?s (Suc (Suc n))) = (demo_vars 0 [], ?s (Suc (Suc (Suc n))))"
    using assms(1,4) by (simp_all only: demo_note_tick)
  moreover have "waiting_pass (live_os k demo_fate) (demo_vars 0 []) (?s (Suc (Suc (Suc n)))) =
      Some (Inr (demo_vars 4 (demo_ip cl), demo_accepted n cl w))"
    using assms by (simp add: waiting_pass_def demo_waiting_def join_threads_def all_threads_closed_def SLIST_EMPTY_def
      check_for_client_connection_def do_call_def live_os_simps Let_def demo_take)
      (simp add: demo_vars_def demo_accepted_def demo_waiting_def eval_nat_numeral)
  ultimately show ?thesis by (subst w) (simp add: main_loop_pass_def)
qed

lemma demo_alloc:
  "idle w \<Longrightarrow> live_alloc k demo_fate Map.empty (at_call n w) = (Some 0, at_call (Suc n) w)"
  by (simp add: live_alloc_def first_free.simps)

text \<open>The second creates its thread.\<close>

lemma demo_create:
  assumes "idle w" "lv_args w = Map.empty" "lv_started w = []" "n < 10"
    and t: "begin_thread (kt_sys k) \<lparr>client_fd = 4, thread_state = WaitingForData, thread_complete_success = False\<rparr>
      Map.empty (sh_adopt (kt_sharing k) (cr_store (lv_crowd w)) False (lc_world cl)) = Inr t"
  shows "\<exists>s. main_loop_pass cfg (live_os k demo_fate) (demo_vars 4 ip) (demo_accepted n cl w) = Some (Inr (demo_vars 4 ip, s)) \<and>
     lv_started (env s) = [(4, lc_world cl)] \<and> lv_now (env s) = n + 12 \<and> current_state s = Waiting \<and> keep_looping s"
proof -
  let ?s = "\<lambda>m. (demo_accepted n cl w)\<lparr>env := at_call m (demo_taken cl w)\<rparr>"
  let ?d = "\<lparr>client_fd = 4, thread_state = WaitingForData, thread_complete_success = False\<rparr>"
  have a: "demo_accepted n cl w = ?s (n + 7)" "current_state (demo_accepted n cl w) = CreatingThread"
    "links (demo_accepted n cl w) = Map.empty" "datas (demo_accepted n cl w) = Map.empty"
    "items (demo_accepted n cl w) = Map.empty" "linked_list (demo_accepted n cl w) = None" "keep_looping (demo_accepted n cl w)"
    by (simp_all add: demo_accepted_def demo_waiting_def)
  have i: "idle (demo_taken cl w)" using assms(1) by simp
  have nt: "note_signal (live_os k demo_fate) (demo_vars 4 ip) (?s (n + 7)) = (demo_vars 4 ip, ?s (n + 8))"
    "tick cfg (live_os k demo_fate) (demo_vars 4 ip) (?s (n + 8)) = (demo_vars 4 ip, ?s (n + 9))"
    using demo_note_tick[OF i, of "n + 7"] demo_note_tick[OF i, of "n + 8"] assms(4) by (simp_all add: add.commute)
  have "\<exists>w'. live_create k demo_fate 0 ?d (at_call (11 + n) (demo_taken cl w)) = ((0, 0), w') \<and>
      lv_started w' = [(4, lc_world cl)] \<and> lv_now w' = n + 12"
    using t assms(1-3) by (simp add: live_create_def Let_def) (simp add: idle_def)
  then have "\<exists>s. create_thread (live_os k demo_fate) 4 ip (?s (n + 9)) = Inr (0, s) \<and>
      lv_started (env s) = [(4, lc_world cl)] \<and> lv_now (env s) = n + 12 \<and> keep_looping s"
    using a(3-7) i by (auto simp: create_thread_def live_os_simps Let_def demo_alloc SLIST_INSERT_HEAD_def)
  then show ?thesis using nt a(2) by (subst a(1)) (auto simp: main_loop_pass_def demo_vars_def)
qed

lemma next_pass:
  assumes "keep_looping s" "main_loop_pass cfg os v s = Some (Inr (v1, s1))"
  shows "main_loop_from cfg os v s = main_loop_from cfg os v1 s1"
  using assms by (subst main_loop_from.simps) simp

context live_kit
begin

section \<open>The time stamp and the end\<close>

text \<open>In the third pass the time has come; the new thread takes turns meanwhile.\<close>

lemma demo_stamp:
  assumes inv: "live.loop_inv w0 s xs" and now: "19 \<le> lv_now (env s)" "lv_now (env s) < 30"
    and plain: "\<not> use_aesd_char_device cfg"
    and pass: "main_loop_pass cfg (live_os k demo_fate) (demo_vars fd ip) s = Some (Inr (v', s'))"
  shows "[116, newline] \<in> set (lv_stamps (env s'))"
proof -
  let ?os = "live_os k demo_fate"
  define w2 where "w2 = enter k demo_fate (enter k demo_fate (env s))"
  have n: "note_signal ?os (demo_vars fd ip) s = (demo_vars fd ip, s\<lparr>env := enter k demo_fate (env s)\<rparr>)"
    using now(2) by (simp add: note_signal_def)
  have "snd (tick cfg ?os (demo_vars fd ip) (s\<lparr>env := enter k demo_fate (env s)\<rparr>)) =
      s\<lparr>env := snd (write_time_stamp cfg ?os w2)\<rparr>"
    using now(1) plain by (simp add: tick_def live_os_simps demo_vars_def w2_def)
  with live.after_tick_R[OF inv pass n] have
    "prefix (lv_stamps (snd (write_time_stamp cfg ?os w2))) (lv_stamps (env s'))" by (simp add: goes_on_def)
  moreover have "lv_stamps (snd (write_time_stamp cfg ?os w2)) = lv_stamps w2 @ [[116, newline]]"
    by (rule write_time_stamp_adds) (simp_all add: time_text_def)
  ultimately show ?thesis by (auto simp: prefix_def)
qed

lemma demo_loop:
  assumes d: "sound \<lparr>cr_store = d, cr_locked = False, cr_members = []\<rparr>" "fit (lc_world cl)" and n: "n \<in> {8, 9}"
    and start: "w = live_start d x [cl]"
  shows "\<exists>s. main_loop cfg (live_os k demo_fate) (demo_ready n w) = Some (Inr (0, s)) \<and>
     prefix [(4, lc_world cl)] (lv_started (env s)) \<and>
     (\<not> use_aesd_char_device cfg \<longrightarrow> [116, newline] \<in> set (lv_stamps (env s)))"
proof -
  let ?os = "live_os k demo_fate"
  have w: "idle w" "lv_clients w = [cl]" "lv_accepted w = []" "lv_args w = Map.empty" "lv_started w = []" "cr_store (lv_crowd w) = d"
    by (simp_all add: start live_start_def idle_def)
  have ok: "live_ok (at_call (Suc n) w)"
    using d by (simp add: start at_call_def live_ok_def live_start_def lv_members_def)
  have c: "os_clock ?os (env (demo_ready n w)) = (0, at_call (Suc n) w)" using w(1) n by (auto simp: live_os_simps)
  have "live.server_inv (demo_ready n w) []" by (simp add: live.server_inv_def)
  from live.loop_start[OF this _ c] have i0: "live.loop_inv (at_call n w) (demo_waiting n w) []"
    by (simp add: demo_waiting_def)
  have n10: "n < 10" using n by auto
  note p1 = demo_accept[OF w(1-3) n10, of cfg k]
  obtain t where "begin_thread (kt_sys k) \<lparr>client_fd = 4, thread_state = WaitingForData, thread_complete_success = False\<rparr>
      Map.empty (sh_adopt (kt_sharing k) (cr_store (lv_crowd w)) False (lc_world cl)) = Inr t"
    using begin_law[OF d, of "\<lparr>client_fd = 4, thread_state = WaitingForData, thread_complete_success = False\<rparr>"] w(6) by auto
  from demo_create[OF w(1,4,5) n10 this, of cfg "demo_ip cl"] obtain s3 where
    p2: "main_loop_pass cfg ?os (demo_vars 4 (demo_ip cl)) (demo_accepted n cl w) = Some (Inr (demo_vars 4 (demo_ip cl), s3))"
    "lv_started (env s3) = [(4, lc_world cl)]" "lv_now (env s3) = n + 12" "keep_looping s3" by blast
  obtain xs1 where i1: "live.loop_inv (at_call n w) (demo_accepted n cl w) xs1" "goes_on (at_call (Suc n) w) (env (demo_accepted n cl w))"
    using live_pass[OF i0, of demo_fate "demo_vars 0 []"] p1 by auto
  obtain xs3 where i3: "live.loop_inv (at_call n w) s3 xs3" "goes_on (env (demo_accepted n cl w)) (env s3)"
    using live_pass[OF i1(1), of demo_fate "demo_vars 4 (demo_ip cl)"] p2(1) by auto
  obtain v4 s4 xs4 where p3: "main_loop_pass cfg ?os (demo_vars 4 (demo_ip cl)) s3 = Some (Inr (v4, s4))"
    "live.loop_inv (at_call n w) s4 xs4" "goes_on (env s3) (env s4)" by (rule live_pass[OF i3(1) p2(4)])
  have "live_ok (env s4)" using ok i1(2) i3(2) p3(3) by (simp add: goes_on_def)
  from live_loop_returns[OF p3(2) this demo_fair, of v4] obtain s5 where
    s5: "main_loop_from cfg ?os v4 s4 = Some (Inr s5)" "goes_on (env s4) (env s5)" by (auto simp: loop_returns_def)
  have "main_loop_from cfg ?os (demo_vars 0 []) (demo_waiting n w) = Some (Inr s5)"
    using next_pass[OF _ p1] next_pass[OF _ p2(1)] next_pass[OF p2(4) p3(1)] s5(1) by simp
  then have "main_loop cfg ?os (demo_ready n w) = Some (Inr (0, s5))"
    using c by (simp add: main_loop_def demo_waiting_def demo_vars_def)
  moreover have g: "goes_on (env s3) (env s5)" using p3(3) s5(2) by (rule goes_on_trans)
  moreover have "[116, newline] \<in> set (lv_stamps (env s5))" if "\<not> use_aesd_char_device cfg"
  proof -
    have "[116, newline] \<in> set (lv_stamps (env s4))"
      using demo_stamp[OF i3(1) _ _ that p3(1)] p2(3) n by auto
    then show ?thesis using s5(2) by (auto simp: goes_on_def prefix_def)
  qed
  ultimately show ?thesis using p2(2) by (auto simp: goes_on_def)
qed

text \<open>So a run of the program starts a thread for the client, and on a file it notes a time stamp.\<close>

lemma demo_run:
  assumes "sound \<lparr>cr_store = d, cr_locked = False, cr_members = []\<rparr>" "fit (lc_world cl)"
  shows "\<exists>s. main cfg (live_os k demo_fate) [] (initial_server (live_start d x [cl])) = Some (Inr (Return 0 s)) \<and>
     prefix [(4, lc_world cl)] (lv_started (env s)) \<and>
     (\<not> use_aesd_char_device cfg \<longrightarrow> [116, newline] \<in> set (lv_stamps (env s)))"
proof -
  let ?os = "live_os k demo_fate" and ?w = "live_start d x [cl]" and ?n = "start_calls cfg"
  let ?P = "\<lambda>w. prefix [(4, lc_world cl)] (lv_started w) \<and> (\<not> use_aesd_char_device cfg \<longrightarrow> [116, newline] \<in> set (lv_stamps w))"
  have "?n \<in> {8, 9}" by (simp add: start_calls_def)
  from demo_loop[OF assms this refl, of x] obtain s where
    s: "main_loop cfg ?os (demo_ready ?n ?w) = Some (Inr (0, s))" "?P (env s)" by blast
  have "?w = at_call 0 ?w" "idle ?w" by (simp_all add: at_call_def live_start_def idle_def)
  then have "startup cfg ?os (initial_server ?w) = (0, demo_ready ?n ?w)" using demo_startup by metis
  with s(1) have m: "main cfg ?os [] (initial_server ?w) = Some (Inr (Return 0 (snd (shutting_down cfg ?os s))))"
    by (simp add: main_def)
  have call: "?P (snd (os_call ?os c w))" if "?P w" "c \<noteq> Unlink" for c w
    using live.any_call_R[OF that(2), of w demo_fate] that(1)
    by (auto simp: goes_on_def prefix_def)
  from call s(2) obtain w where w: "?P w" "env (snd (shutting_down cfg ?os s)) =
      (if use_aesd_char_device cfg then w else snd (os_call ?os Unlink w))"
    by (rule shutting_down_keeps[of ?P ?os s cfg])
  have "?P (snd (os_call ?os Unlink w))"
    using w(1) live_unlink[of k demo_fate w] by (auto simp: live_os_def removed_def)
  with w m show ?thesis by auto
qed

end

end
