(* ===== verification/Live_Props.thy ===== *)
theory Live_Props
  imports Live_Demo Device_Crowd
begin

text \<open>
  The properties of the whole server on the character device with its main thread and its client
  threads at work at the same time: it ends, and what the device holds then.
\<close>

section \<open>The server on the device\<close>

text \<open>Removing the device's node would not touch the driver; this build does not do it.\<close>

definition device_kit :: "(driver, device_world) kit" where
  "device_kit = \<lparr>kt_build = demo_device_build, kt_sys = device_sys, kt_sharing = device_sharing, kt_unlink = (\<lambda>d. d)\<rparr>"

definition fit_live :: "device_world live_client \<Rightarrow> bool" where
  "fit_live cl \<longleftrightarrow> fit_world (lc_world cl)"

lemma device_kit_simps [simp]:
  "kt_build device_kit = demo_device_build" "kt_sys device_kit = device_sys" "kt_sharing device_kit = device_sharing"
  "kit_turns device_kit = device_turns" "sh_adopt device_sharing = device_adopt"
  "sh_store device_sharing = dv" "sh_locked device_sharing = cs_locked"
  by (simp_all add: device_kit_def kit_turns_def demo_device_build_def device_sharing_def)

text \<open>The thread of a fitting client starts, with the client's packets to store.\<close>

lemma live_begin:
  assumes "fit_world y" "driver_ok d" "thread_state x = WaitingForData"
  shows "\<exists>t. begin_thread device_sys x Map.empty (device_adopt d False y) = Inr t \<and>
    free.runner_ok (Client AtTop t) \<and> free.runner_plan (Client AtTop t) = packets [] (cs_inbox y) \<and>
    (no_faults y \<longrightarrow> free.runner_good (Client AtTop t))"
proof -
  let ?w = "device_adopt d False y"
  have w: "device_ok ?w" "\<not> cs_locked ?w" "length (cs_inbox ?w) < 2 ^ 31" "finite (dom (Map.empty :: memory))"
    using assms(1,2) by (simp_all add: device_ok_driver fit_world_def)
  have "fit_world ?w" using assms(1) by (simp add: fit_world_def device_adopt_def)
  from fit_world_allocs[OF this] obtain t where t: "begin_thread device_sys x Map.empty ?w = Inr t"
    by (auto simp: begin_thread_def device_sys_def split_beta Let_def)
  note b = device.begin_thread_ok[OF w(1,2) t assms(3) w(3,4)]
  have "free.runner_ok (Client AtTop t)" "free.runner_plan (Client AtTop t) = packets [] (cs_inbox y)"
    "no_faults y \<longrightarrow> free.runner_good (Client AtTop t)"
    using b by (auto simp: free.place_ok_def free.place_plan_def free.place_good_def)
  with t show ?thesis by blast
qed

text \<open>
  The log: the device holds what the entries make of the lines \<open>v\<close>, and for each thread the entries
  made and the packets left are its client's packets.
\<close>

definition device_logged ::
  "byte list list \<Rightarrow> byte list list \<Rightarrow> device_world list \<Rightarrow> (driver, device_world member) crowd \<Rightarrow> bool" where
  "device_logged v st xs c \<longleftrightarrow> (\<exists>L. free.runners.log_of v (map (\<lambda>x. packets [] (cs_inbox x)) xs) L c)"

interpretation device_live: live_kit device_kit free.runners.free_ok free.runners.free_can free.runners.free_work
  fit_world no_faults "\<lambda>_. True" device_logged
proof (unfold_locales, goal_cases)
  case (1 c "is")
  obtain c' where c': "device_turns is c = Some (Inr c')" "free.runners.free_ok c'"
    "length (cr_members c') = length (cr_members c)"
    "(c', c) \<in> free.runners.free_less\<^sup>+ \<or> c' = c \<and> (\<forall>i \<in> set is. \<not> free.runners.free_can i c)"
    by (rule free.runners.run_progress[OF 1, of "is"]) (auto simp: device_sharing_def)
  moreover have "\<forall>i < length (cr_members c). member_ended (cr_members c ! i) \<longrightarrow> member_ended (cr_members c' ! i)"
    using free.runners.ended_member[OF 1, of "is" c'] c'(1) by (simp add: device_sharing_def)
  ultimately show ?case by (auto simp: free.runners.trancl_free_less)
next
  case (2 c)
  then show ?case by (simp add: free.runners.free_ok_def)
next
  case (3 c)
  then show ?case using free.runners.go_law by blast
next
  case (4 c x d)
  have "driver_ok (cr_store c)" using 4(1) by (simp add: free.runners.free_ok_def)
  from live_begin[OF 4(2) this 4(3)] obtain t where t:
    "begin_thread device_sys d Map.empty (device_adopt (cr_store c) False x) = Inr t" "free.runner_ok (Client AtTop t)"
    "free.runner_plan (Client AtTop t) = packets [] (cs_inbox x)" "no_faults x \<longrightarrow> free.runner_good (Client AtTop t)"
    by blast
  have "device_logged v st (xs @ [x]) (c\<lparr>cr_members := cr_members c @ [Client AtTop t]\<rparr>)"
    if "device_logged v st xs c" "no_faults x" for v st xs
    using free.runners.log_join[of v _ _ c "Client AtTop t"] t(3,4) that unfolding device_logged_def by auto
  with t(1) free.runners.free_join[OF 4(1) t(2)] show ?case by auto
next
  case (5 c v st xs "is" c')
  from 5(2) obtain L where L: "free.runners.log_of v (map (\<lambda>x. packets [] (cs_inbox x)) xs) L c"
    by (auto simp: device_logged_def)
  have "run_schedule (member_move demo_device_build device_sys free.sh) (\<lambda>_. False) is c = Some (Inr c')"
    using 5(3) by (simp add: device_sharing_def)
  from free.runners.run_log[OF 5(1) L this] show ?case by (auto simp: device_logged_def)
next
  case (6 q w)
  then show ?case by (simp add: demo_device_build_def)
qed

section \<open>One client\<close>

text \<open>It sends two packets in pieces, as in the run of \<open>Live_Demo\<close>.\<close>

definition demo_live_client :: "device_world live_client" where
  "demo_live_client = \<lparr>lc_ip = [127, 0, 0, 1], lc_world = demo_device_client [97, newline, 98, newline] [1, 2]\<rparr>"

lemma demo_live_fits:
  "\<forall>cl \<in> set [demo_live_client]. fit_live cl" "\<forall>cl \<in> set [demo_live_client]. no_faults (lc_world cl)"
  by (simp_all add: fit_live_def fit_world_def no_faults_def demo_live_client_def demo_device_client_def)

abbreviation device_os :: "fate \<Rightarrow> (driver, device_world) live os" where
  "device_os \<equiv> live_os device_kit"

abbreviation demo_start :: "(driver, device_world) live" where
  "demo_start \<equiv> live_start demo_device (lc_world demo_live_client) [demo_live_client]"

lemma demo_device_run:
  "\<exists>s. main demo_device_build (device_os demo_fate) [] (initial_server demo_start) = Some (Inr (Return 0 s)) \<and>
     prefix [(4, lc_world demo_live_client)] (lv_started (env s))"
  using device_live.demo_run[of demo_device demo_live_client "lc_world demo_live_client"] demo_driver_ok demo_live_fits(1)
  by (auto simp: free.runners.free_ok_def fit_live_def)

section \<open>Properties\<close>

text \<open>How the program ends on the device.\<close>

lemma device_main:
  assumes "driver_ok d" "\<forall>cl \<in> set cls. fit_live cl" "fair_turns q"
  obtains e s where "main demo_device_build (device_os q) argv (initial_server (live_start d x cls)) = Some (Inr e)"
    "e = Return 0 s \<or> e = Exited 0 s" "linked_list s = None" "device_live.finished q (live_start d x cls) (env s)"
    "device_live.live_ok (live_start d x cls)" "live_order cls (live_start d x cls)"
    "\<forall>cl \<in> set cls. no_faults (lc_world cl) \<Longrightarrow> device_live.live_log (held_lines d) (live_start d x cls)"
proof -
  have s: "free.runners.free_ok \<lparr>cr_store = d, cr_locked = False, cr_members = []\<rparr>"
    using assms(1) by (simp add: free.runners.free_ok_def)
  have f: "\<forall>cl \<in> set cls. fit_world (lc_world cl)" using assms(2) by (simp add: fit_live_def)
  have "device_logged (held_lines d) [] [] \<lparr>cr_store = d, cr_locked = False, cr_members = []\<rparr>"
    using free.runners.log_start[of "\<lparr>cr_store = d, cr_locked = False, cr_members = []\<rparr>"] by (auto simp: device_logged_def)
  note st = device_live.live_start_ok[OF s f, where x = x]
  from device_live.main_finished[OF st(1,2) assms(3), of argv] obtain e s w where
    "main demo_device_build (device_os q) argv (initial_server (live_start d x cls)) = Some (Inr e)"
    "linked_list s = None" "device_live.finished q (live_start d x cls) w" "env s = w" "e = Return 0 s \<or> e = Exited 0 s"
    unfolding device_live.main_ends_def device_kit_simps by (auto simp: demo_device_build_def)
  then show thesis using that st(1,3) st(4) \<open>device_logged _ _ _ _\<close> by blast
qed





text \<open>
  C10. The main loop ends under every fair schedule, with any failures, and it closes the descriptors
  of the clients that got threads and no others, each exactly once.
\<close>

theorem live_loop_closes_each_client_once:
  assumes "driver_ok d" "\<forall>cl \<in> set cls. fit_live cl" "fair_turns q"
  shows "\<exists>s. main_loop demo_device_build (live_os device_kit q) (initial_server (live_start d x cls)) = Some (Inr (0, s)) \<and>
    mset (lv_closed (env s)) = mset (map fst (lv_started (env s))) \<and> linked_list s = None"
proof -
  let ?s = "initial_server (live_start d x cls)"
  have "free.runners.free_ok \<lparr>cr_store = d, cr_locked = False, cr_members = []\<rparr>"
    "\<forall>cl \<in> set cls. fit_world (lc_world cl)"
    using assms(1,2) by (simp_all add: free.runners.free_ok_def fit_live_def)
  from device_live.live_start_ok(1)[OF this, of x] have "blank ?s" "device_live.live_ok (env ?s)"
    by (simp_all add: blank_def initial_server_def)
  from device_live.live_main_loop[OF this assms(3)] obtain s where
    "main_loop demo_device_build (device_os q) ?s = Some (Inr (0, s))" "live.kept (env ?s) s []" by auto
  then show ?thesis
    by (auto simp: live.kept_def live.accounted_def live.server_inv_def lv_opened_def initial_server_def live_start_def)
qed

theorem live_loop_closes_each_client_once_witness:
  "\<exists>s. main_loop demo_device_build (live_os device_kit demo_fate) (initial_server demo_start) = Some (Inr (0, s)) \<and>
    mset (lv_closed (env s)) = mset (map fst (lv_started (env s)))"
  using live_loop_closes_each_client_once[OF demo_driver_ok demo_live_fits(1) demo_fair, of "lc_world demo_live_client"]
  by blast

end
