(* ===== verification/Live_File.thy ===== *)
theory Live_File
  imports Live_Main Crowd_Props
begin

text \<open>
  The whole server on a regular file, whose main thread writes time stamps into the file that the
  client threads write to, under the same mutex. While the main thread is at a time stamp the
  client threads go on; the proof puts the main thread in front of them as one more process of the
  crowd of \<open>Server_Crowd\<close>, whose turns are its calls.
\<close>

section \<open>The server on a file\<close>

definition file_kit :: "(byte list, plain) kit" where
  "file_kit = \<lparr>kt_build = plain_build, kt_sys = plain_sys, kt_sharing = plain_sharing, kt_unlink = (\<lambda>_. [])\<rparr>"

lemma file_kit_simps [simp]:
  "kt_build file_kit = plain_build" "kt_sys file_kit = plain_sys" "kt_sharing file_kit = plain_sharing"
  "kt_unlink file_kit f = []" "kit_turns file_kit = plain_turns" "\<not> disable_locking plain_build"
  "sh_adopt plain_sharing = plain_adopt" "sh_store plain_sharing = pl_file" "sh_locked plain_sharing = cs_locked"
  by (simp_all add: file_kit_def kit_turns_def plain_build_def plain_sharing_def)

text \<open>The theory of the crowd speaks of the same turns.\<close>

lemma file_turns: "run_schedule (member_move plain_build plain_sys crowd.sh) member_waits = plain_turns"
  by (simp add: plain_sharing_def)

text \<open>What a client's thread has to do, and the main thread's stamps in front of them.\<close>

definition client_past :: "plain \<Rightarrow> (byte list, byte list, byte) past" where
  "client_past x = \<lparr>pa_plan = packets [] (cs_inbox x), pa_sent = cs_outbox x, pa_reply = (\<lambda>f. f)\<rparr>"

definition stamps_past :: "byte list list \<Rightarrow> (byte list, byte list, byte) past" where
  "stamps_past st = \<lparr>pa_plan = st, pa_sent = [], pa_reply = (\<lambda>_. [])\<rparr>"

definition file_logged ::
  "byte list \<Rightarrow> byte list list \<Rightarrow> plain list \<Rightarrow> (byte list, plain member) crowd \<Rightarrow> bool" where
  "file_logged v st xs c \<longleftrightarrow> (\<exists>L p rc x. crowd.members.log_ok v (stamps_past st # map client_past xs) L
     (ahead (Stamper p (SReturned rc) x) c))"

lemma file_begin:
  assumes "fit_world y" "thread_state x = WaitingForData"
  shows "\<exists>t. begin_thread plain_sys x Map.empty (plain_adopt f False y) = Inr t \<and>
    crowd.member_ok s (Client AtTop t) \<and> crowd.members.past_of (Client AtTop t) = client_past y \<and>
    (no_faults y \<longrightarrow> crowd.member_good (Client AtTop t))"
proof -
  let ?w = "plain_adopt f False y"
  have w: "\<not> cs_locked ?w" "length (cs_inbox ?w) < 2 ^ 31" "finite (dom (Map.empty :: memory))"
    "cs_inbox ?w = cs_inbox y" "cs_outbox ?w = cs_outbox y" "no_faults ?w = no_faults y"
    using assms(1) by (simp_all add: plain_adopt_def fit_world_def no_faults_def)
  have "fit_world ?w" using assms(1) by (simp add: fit_world_def plain_adopt_def)
  from fit_world_allocs[OF this] obtain t where t: "begin_thread plain_sys x Map.empty ?w = Inr t"
    by (auto simp: begin_thread_def plain_sys_def split_beta Let_def)
  note b = plain.begin_thread_ok[OF TrueI w(1) t assms(2) w(2,3)]
  have "crowd.member_ok s (Client AtTop t)" using b by (simp add: crowd.member_ok_def crowd.client_ok_def)
  moreover have "crowd.members.past_of (Client AtTop t) = client_past y"
    using b w(4,5) by (simp add: crowd.members.past_of_def crowd.client_view crowd.client_plan_def settled_def client_past_def)
  moreover have "no_faults y \<longrightarrow> crowd.member_good (Client AtTop t)"
    using b w(6) by (auto simp: crowd.member_good_def crowd.client_good_def settled_def)
  ultimately show ?thesis using t by blast
qed

section \<open>The client threads\<close>

lemma log_behind:
  assumes "crowd.members.log_ok v hs L (ahead m c)" "plain_turns is c = Some (Inr c')"
  shows "\<exists>L'. crowd.members.log_ok v hs L' (ahead m c')"
  using crowd.members.log_run[OF assms(1), of "map Suc is"] assms(2) by (simp add: file_turns run_ahead)

lemma log_join_behind:
  assumes "crowd.members.log_ok v hs L (ahead m c)" "crowd.member_good x" "crowd.member_ok (cr_store c) x" "\<not> member_holds x"
  shows "crowd.members.log_ok v (hs @ [crowd.members.past_of x]) L (ahead m (c\<lparr>cr_members := cr_members c @ [x]\<rparr>))"
  using crowd.members.log_join[OF assms(1,2)] assms(3,4) by (simp add: ahead_def)

interpretation file_threads: live_threads file_kit crowd.members.crowd_ok crowd.members.can_move crowd.members.work
  fit_world no_faults no_faults file_logged
proof (unfold_locales, goal_cases)
  case (1 c "is")
  obtain c' where c': "plain_turns is c = Some (Inr c')" "crowd.members.crowd_ok c'"
    "length (cr_members c') = length (cr_members c)"
    "(c', c) \<in> crowd.members.less_work\<^sup>+ \<or> c' = c \<and> (\<forall>i \<in> set is. \<not> crowd.members.can_move i c)"
    by (rule crowd.members.run_progress[OF 1, of "is"]) (auto simp: file_turns)
  moreover have "\<forall>i < length (cr_members c). member_ended (cr_members c ! i) \<longrightarrow> member_ended (cr_members c' ! i)"
    using crowd.members.ended_member[OF 1, of "is" c'] c'(1) by (simp add: file_turns)
  ultimately show ?case by (auto simp: crowd.members.trancl_less_work)
next
  case (2 c)
  then show ?case by (auto simp: crowd.members.crowd_ok_def)
next
  case (3 c)
  then show ?case by (rule crowd.members.somebody_can_move)
next
  case (4 c x d)
  from file_begin[OF 4(2,3)] obtain t where t: "begin_thread plain_sys d Map.empty (plain_adopt (cr_store c) False x) = Inr t"
    "crowd.member_ok (cr_store c) (Client AtTop t)" "crowd.members.past_of (Client AtTop t) = client_past x"
    "no_faults x \<longrightarrow> crowd.member_good (Client AtTop t)" by blast
  have "file_logged v st (xs @ [x]) (c\<lparr>cr_members := cr_members c @ [Client AtTop t]\<rparr>)"
    if "file_logged v st xs c" "no_faults x" for v st xs
    using log_join_behind[OF _ t(4)[rule_format, OF that(2)] t(2)] that(1) t(3) by (fastforce simp: file_logged_def)
  with t(1) crowd.members.crowd_ok_join[OF 4(1) t(2)] show ?case by auto
next
  case (5 c v st xs "is" c')
  then have turns: "plain_turns is c = Some (Inr c')" by simp
  from 5(2) log_behind[OF _ turns] show ?case unfolding file_logged_def by blast
qed

section \<open>The main thread as a process\<close>

text \<open>The crowd with the main thread in front, at the place \<open>pc\<close> of its time stamp \<open>p\<close>.\<close>

definition whole :: "byte list \<Rightarrow> stamp_pc \<Rightarrow> (byte list, plain) live \<Rightarrow> (byte list, plain member) crowd" where
  "whole p pc w = ahead (Stamper p pc (lv_own w)) (lv_crowd w)"

text \<open>One call of the main thread is a turn of this process.\<close>

lemma stamp_step_live:
  assumes "stamp_left pc \<noteq> 0"
  shows "stamp_step plain_build (live_file file_kit q) p pc w =
    main_op file_kit (stamp_step plain_build plain_sys p pc)
      (if pc = SLock then main_waits file_kit (enter file_kit q w) else enter file_kit q w)"
  using assms
  by (cases pc) (simp_all add: live_file_def main_op_def get_file_mutex_def release_file_mutex_def
      open_file_for_read_write_def write_to_file_def Let_def split_beta)

lemma turn_main:
  assumes "stamp_left pc \<noteq> 0" "pc = SLock \<Longrightarrow> \<not> cr_locked (lv_crowd w)"
    "main_op file_kit (stamp_step plain_build plain_sys p pc) w = (pc', w')"
  shows "plain_turns [0] (whole p pc w) = Some (Inr (whole p pc' w'))"
    "cr_members (lv_crowd w') = cr_members (lv_crowd w)" "booked w w'" "lv_crashed w' = lv_crashed w"
proof -
  show "cr_members (lv_crowd w') = cr_members (lv_crowd w)" "lv_crashed w' = lv_crashed w"
    using assms(3) by (auto simp: main_op_def split_beta)
  show "booked w w'" using main_op_booked[of w file_kit "stamp_step plain_build plain_sys p pc"] assms(3) by simp
  obtain pc1 x1 where x: "stamp_step plain_build plain_sys p pc
      (plain_adopt (cr_store (lv_crowd w)) (cr_locked (lv_crowd w)) (lv_own w)) = (pc1, x1)" by fastforce
  have "\<not> (cr_locked (lv_crowd w) \<and> member_waits (Stamper p pc (lv_own w)))" using assms(2) by auto
  moreover have "plain_move (cr_store (lv_crowd w)) (cr_locked (lv_crowd w)) (Stamper p pc (lv_own w)) =
      Some (Inr (pl_file x1, cs_locked x1, Stamper p pc1 x1))"
    using assms(1) x by (simp add: member_move_def)
  moreover have "pc' = pc1" "w' = w\<lparr>lv_own := x1,
      lv_crowd := (lv_crowd w)\<lparr>cr_store := pl_file x1, cr_locked := cs_locked x1\<rparr>\<rparr>"
    using assms(3) x by (simp_all add: main_op_def)
  ultimately show "plain_turns [0] (whole p pc w) = Some (Inr (whole p pc' w'))"
    by (simp add: whole_def turn_def ahead_def)
qed

text \<open>It has the mutex as long as the process is in its section.\<close>

lemma main_holds_whole:
  assumes "crowd.members.crowd_ok (whole p pc w)"
  shows "main_holds w \<longleftrightarrow> pc \<noteq> SLock \<and> stamp_left pc \<noteq> 0"
proof (cases "pc \<noteq> SLock \<and> stamp_left pc \<noteq> 0")
  case True
  then have "member_holds (cr_members (whole p pc w) ! 0)" by (simp add: whole_def)
  note o = crowd.members.only_holder[OF assms this]
  have "\<not> member_holds m" if m: "m \<in> set (cr_members (lv_crowd w))" for m
  proof -
    obtain i where "i < length (cr_members (lv_crowd w))" "m = cr_members (lv_crowd w) ! i"
      using m by (auto simp: in_set_conv_nth)
    then show ?thesis using o(2)[of "Suc i"] by (simp add: whole_def)
  qed
  then show ?thesis using o(1) True by (auto simp: main_holds_def whole_def)
next
  case False
  then have "crowd.members.crowd_ok (lv_crowd w)" using assms crowd.members.crowd_ok_ahead by (auto simp: whole_def)
  then have "\<not> main_holds w" by (auto simp: main_holds_def crowd.members.crowd_ok_def)
  with False show ?thesis by blast
qed

text \<open>While nobody is at a time stamp, who can move and what is left to do is up to the processes alone.\<close>

lemma can_move_members:
  assumes "crowd.members.crowd_ok c" "crowd.members.crowd_ok c'" "cr_members c' = cr_members c"
  shows "crowd.members.can_move i c' = crowd.members.can_move i c"
proof -
  have "cr_locked c' = cr_locked c" using assms unfolding crowd.members.crowd_ok_def by metis
  then show ?thesis using assms(3) by (simp add: crowd.members.can_move_def)
qed

lemma work_members: "cr_members c' = cr_members c \<Longrightarrow> crowd.members.work c' = crowd.members.work c"
proof -
  have "crowd.members.holder_fuel s m = crowd.members.holder_fuel s' m" for s s' m
    by (simp add: crowd.members.holder_fuel_def)
  then have "crowd.members.holder_fuel s = crowd.members.holder_fuel s'" for s s' by blast
  then show "cr_members c' = cr_members c \<Longrightarrow> ?thesis" unfolding crowd.members.work_def by metis
qed

section \<open>During a time stamp\<close>

text \<open>
  \<open>w0\<close> is the system when the time stamp begins: the books are as they were, and the threads have made
  progress unless none of them could.
\<close>

definition meanwhile :: "fate \<Rightarrow> (byte list, plain) live \<Rightarrow> (byte list, plain) live \<Rightarrow> bool" where
  "meanwhile q w0 w \<longleftrightarrow> lv_crashed w = lv_crashed w0 \<and> lv_now w0 \<le> lv_now w \<and> lv_round w0 \<le> lv_round w \<and>
     lv_clients w = lv_clients w0 \<and> lv_accepted w = lv_accepted w0 \<and> lv_current w = lv_current w0 \<and>
     lv_started w = lv_started w0 \<and> lv_args w = lv_args w0 \<and> lv_stamps w = lv_stamps w0 \<and> lv_unlinked w = lv_unlinked w0 \<and>
     length (lv_members w) = length (lv_members w0) \<and>
     (\<forall>i < length (lv_members w0). member_ended (lv_members w0 ! i) \<longrightarrow> member_ended (lv_members w ! i)) \<and>
     ((crowd.members.work (lv_crowd w), crowd.members.work (lv_crowd w0)) \<in> work_order \<or>
      lv_members w = lv_members w0 \<and>
      (\<forall>j \<ge> lv_round w0. j < lv_round w \<longrightarrow> (\<forall>i \<in> set (ft_turns q j). \<not> crowd.members.can_move i (lv_crowd w0))))"

definition at_stamp ::
  "fate \<Rightarrow> (byte list, plain) live \<Rightarrow> byte list \<Rightarrow> stamp_pc \<Rightarrow> (byte list, plain) live \<Rightarrow> bool" where
  "at_stamp q w0 p pc w \<longleftrightarrow> crowd.members.crowd_ok (whole p pc w) \<and> meanwhile q w0 w \<and>
     (\<forall>v hs L. crowd.members.log_ok v hs L (whole p SLock w0) \<longrightarrow> (\<exists>L'. crowd.members.log_ok v hs L' (whole p pc w)))"

lemma at_stamp_start: "crowd.members.crowd_ok (whole p SLock w) \<Longrightarrow> at_stamp q w p SLock w"
  by (auto simp: at_stamp_def meanwhile_def)

text \<open>The threads run on, by a schedule \<open>is\<close>; \<open>n\<close> is the number of batches of a fair schedule that it counts for.\<close>

lemma at_stamp_run:
  assumes st: "at_stamp q w0 p pc w" and start: "crowd.members.crowd_ok (lv_crowd w0)"
    and run: "plain_turns is (lv_crowd w) = Some (Inr c')"
    and n: "n = lv_round w \<or> n = Suc (lv_round w) \<and> is = ft_turns q (lv_round w) \<and> \<not> main_holds w"
  shows "at_stamp q w0 p pc (w\<lparr>lv_crowd := c', lv_now := m + lv_now w, lv_round := n\<rparr>)" (is "at_stamp q w0 p pc ?w'")
proof -
  have ok: "crowd.members.crowd_ok (whole p pc w)" and mw: "meanwhile q w0 w" using st by (simp_all add: at_stamp_def)
  obtain c1 where c1: "plain_turns is (lv_crowd w) = Some (Inr c1)"
    "plain_turns (map Suc is) (whole p pc w) = Some (Inr (ahead (Stamper p pc (lv_own w)) c1))"
    "crowd.members.crowd_ok (ahead (Stamper p pc (lv_own w)) c1)" "length (cr_members c1) = length (lv_members w)"
    "\<And>i. i < length (lv_members w) \<Longrightarrow> member_ended (lv_members w ! i) \<Longrightarrow> member_ended (cr_members c1 ! i)"
    "(crowd.members.work c1, crowd.members.work (lv_crowd w)) \<in> work_order \<or>
      c1 = lv_crowd w \<and> (\<forall>i \<in> set is. \<not> crowd.members.can_move i (lv_crowd w))"
    using crowd.members.run_behind[OF ok[unfolded whole_def] refl, of "is"] unfolding file_turns whole_def lv_members_def by blast
  have [simp]: "c1 = c'" using c1(1) run by simp
  have w': "whole p pc ?w' = ahead (Stamper p pc (lv_own w)) c1" by (simp add: whole_def)
  have logs: "\<exists>L'. crowd.members.log_ok v hs L' (whole p pc ?w')" if "crowd.members.log_ok v hs L (whole p SLock w0)" for v hs L
  proof -
    obtain L1 where "crowd.members.log_ok v hs L1 (whole p pc w)" using st \<open>crowd.members.log_ok v hs L _\<close> by (auto simp: at_stamp_def)
    from crowd.members.log_run[OF this, of "map Suc is"] c1(2) show ?thesis unfolding w' by (simp add: file_turns)
  qed
  have work: "(crowd.members.work c1, crowd.members.work (lv_crowd w0)) \<in> work_order \<or>
      cr_members c1 = lv_members w0 \<and>
      (\<forall>j \<ge> lv_round w0. j < n \<longrightarrow> (\<forall>i \<in> set (ft_turns q j). \<not> crowd.members.can_move i (lv_crowd w0)))"
  proof (cases "(crowd.members.work c1, crowd.members.work (lv_crowd w0)) \<in> work_order")
    case False
    have trans: "trans work_order" by (intro trans_lex_prod) simp_all
    from False mw c1(6) have same: "lv_members w = lv_members w0" "c1 = lv_crowd w" "\<forall>i \<in> set is. \<not> crowd.members.can_move i (lv_crowd w)"
      "\<forall>j \<ge> lv_round w0. j < lv_round w \<longrightarrow> (\<forall>i \<in> set (ft_turns q j). \<not> crowd.members.can_move i (lv_crowd w0))"
      using work_members[of "lv_crowd w" "lv_crowd w0"] transD[OF trans, of "crowd.members.work c1"]
      unfolding meanwhile_def lv_members_def by metis+
    have "\<not> crowd.members.can_move i (lv_crowd w0)" if "n = Suc (lv_round w)" "i \<in> set (ft_turns q (lv_round w))" for i
    proof -
      have "\<not> main_holds w" "i \<in> set is" using n that by auto
      then have "crowd.members.crowd_ok (lv_crowd w)"
        using ok main_holds_whole[OF ok] crowd.members.crowd_ok_ahead[of "Stamper p pc (lv_own w)" "lv_crowd w"]
        by (auto simp: whole_def)
      then show ?thesis
        using can_move_members[OF start, of "lv_crowd w" i] same(1,3) \<open>i \<in> set is\<close> by (simp add: lv_members_def)
    qed
    with same n show ?thesis by (auto simp: lv_members_def less_Suc_eq)
  qed simp
  have "meanwhile q w0 ?w'"
    using mw c1(4,5) work n unfolding meanwhile_def by (auto simp: lv_members_def)
  with c1(3) w' logs show ?thesis by (simp add: at_stamp_def)
qed

text \<open>Before a call of the main thread.\<close>

lemma enter_stamp:
  assumes "at_stamp q w0 p pc w" "crowd.members.crowd_ok (lv_crowd w0)"
  shows "at_stamp q w0 p pc (enter file_kit q w)"
proof -
  define js where "js = (if main_holds w then ft_held q (lv_now w) else ft_turns q (lv_round w))"
  define n where "n = (if main_holds w then lv_round w else Suc (lv_round w))"
  have "crowd.members.crowd_ok (ahead (Stamper p pc (lv_own w)) (lv_crowd w))"
    using assms(1) by (simp add: at_stamp_def whole_def)
  from crowd.members.run_behind[OF this refl, of js] obtain c' where c': "plain_turns js (lv_crowd w) = Some (Inr c')"
    unfolding file_turns by blast
  then have "enter file_kit q w = w\<lparr>lv_crowd := c', lv_now := 1 + lv_now w, lv_round := n\<rparr>"
    by (simp add: enter_def js_def n_def)
  moreover have "n = lv_round w \<or> n = Suc (lv_round w) \<and> js = ft_turns q (lv_round w) \<and> \<not> main_holds w"
    by (simp add: n_def js_def)
  from at_stamp_run[OF assms c' this, of 1] have "at_stamp q w0 p pc (w\<lparr>lv_crowd := c', lv_now := 1 + lv_now w, lv_round := n\<rparr>)" .
  ultimately show ?thesis by simp
qed

text \<open>The thread that has the mutex lets it go after finitely many of its turns.\<close>

lemma let_go_ok:
  assumes "crowd.members.crowd_ok c"
  shows "\<exists>c' is. let_go file_kit c = Some (Inr c') \<and> \<not> cr_locked c' \<and> plain_turns is c = Some (Inr c')"
  using wf_trancl[OF crowd.members.wf_less_work] assms
proof (induction c rule: wf_induct_rule)
  case (less c)
  show ?case
  proof (cases "cr_locked c")
    case False
    then have "let_go file_kit c = Some (Inr c)" by (subst let_go.simps) simp
    with False show ?thesis by (intro exI[of _ c] exI[of _ "[]"]) simp
  next
    case True
    with less.prems obtain i where i: "i < length (cr_members c)" "member_holds (cr_members c ! i)"
      by (auto simp: crowd.members.crowd_ok_def)
    then have "crowd.members.can_move i c"
      using crowd.members.waits_free[OF i(2)] by (simp add: crowd.members.can_move_def)
    moreover have "i \<in> set (holders c)" using i by (simp add: holders_def)
    ultimately obtain c1 where c1: "plain_turns (holders c) c = Some (Inr c1)" "crowd.members.crowd_ok c1"
      "(c1, c) \<in> crowd.members.less_work\<^sup>+"
      using crowd.members.run_progress[OF less.prems, of "holders c"] unfolding file_turns by blast
    from less.IH[OF c1(3,2)] obtain c' "is" where c': "let_go file_kit c1 = Some (Inr c')" "\<not> cr_locked c'"
      "plain_turns is c1 = Some (Inr c')" by blast
    have "let_go file_kit c = Some (Inr c')" using True c1(1) c'(1) by (subst let_go.simps) simp
    moreover have "plain_turns (holders c @ is) c = Some (Inr c')" using c1(1) c'(3) by (simp add: run_schedule_append)
    ultimately show ?thesis using c'(2) by blast
  qed
qed

lemma wait_stamp:
  assumes "at_stamp q w0 p SLock w" "crowd.members.crowd_ok (lv_crowd w0)"
  shows "at_stamp q w0 p SLock (main_waits file_kit w)" "\<not> cr_locked (lv_crowd (main_waits file_kit w))"
proof -
  have "crowd.members.crowd_ok (lv_crowd w)"
    using assms(1) crowd.members.crowd_ok_ahead by (simp add: at_stamp_def whole_def)
  from let_go_ok[OF this] obtain c' "is" where c': "let_go file_kit (lv_crowd w) = Some (Inr c')" "\<not> cr_locked c'"
    "plain_turns is (lv_crowd w) = Some (Inr c')" by blast
  then have w': "main_waits file_kit w = w\<lparr>lv_crowd := c', lv_now := 0 + lv_now w, lv_round := lv_round w\<rparr>"
    by (simp add: main_waits_def)
  show "at_stamp q w0 p SLock (main_waits file_kit w)"
    unfolding w' by (rule at_stamp_run[OF assms c'(3)]) simp
  show "\<not> cr_locked (lv_crowd (main_waits file_kit w))" using c'(2) unfolding w' by simp
qed

text \<open>The call itself.\<close>

lemma call_stamp:
  assumes st: "at_stamp q w0 p pc w" and pc: "stamp_left pc \<noteq> 0" "pc = SLock \<Longrightarrow> \<not> cr_locked (lv_crowd w)"
    and run: "main_op file_kit (stamp_step plain_build plain_sys p pc) w = (pc', w')"
  shows "at_stamp q w0 p pc' w'"
proof -
  note t = turn_main[OF pc run]
  have t1: "run_schedule (member_move plain_build plain_sys crowd.sh) member_waits [0] (whole p pc w) = Some (Inr (whole p pc' w'))"
    using t(1) unfolding file_turns .
  have "crowd.members.crowd_ok (whole p pc w)" using st by (simp add: at_stamp_def)
  from crowd.members.run_ok[OF this, of "[0]"] have "crowd.members.crowd_ok (whole p pc' w')" unfolding t1 by simp
  moreover have "meanwhile q w0 w'"
    using st t(2-4) work_members[OF t(2)] unfolding at_stamp_def meanwhile_def booked_def lv_members_def by metis
  moreover have "\<exists>L'. crowd.members.log_ok v hs L' (whole p pc' w')" if "crowd.members.log_ok v hs L (whole p SLock w0)" for v hs L
    using st that crowd.members.log_run[OF _ t1] unfolding at_stamp_def by blast
  ultimately show ?thesis by (simp add: at_stamp_def)
qed

lemma step_stamp:
  assumes "at_stamp q w0 p pc w" "crowd.members.crowd_ok (lv_crowd w0)" "stamp_left pc \<noteq> 0"
    "stamp_step plain_build (live_file file_kit q) p pc w = (pc', w')"
  shows "at_stamp q w0 p pc' w'"
proof -
  note e = enter_stamp[OF assms(1,2)]
  show ?thesis
  proof (cases "pc = SLock")
    case True
    note m = wait_stamp[OF e[unfolded True] assms(2)]
    have "main_op file_kit (stamp_step plain_build plain_sys p SLock) (main_waits file_kit (enter file_kit q w)) = (pc', w')"
      using stamp_step_live[OF assms(3), of q p w] assms(4) True by simp
    from call_stamp[OF m(1) _ _ this] m(2) show ?thesis by simp
  next
    case False
    have "main_op file_kit (stamp_step plain_build plain_sys p pc) (enter file_kit q w) = (pc', w')"
      using stamp_step_live[OF assms(3), of q p w] assms(4) False by simp
    from call_stamp[OF e assms(3) _ this] False show ?thesis by simp
  qed
qed

lemma run_stamp:
  assumes "at_stamp q w0 p pc w" "crowd.members.crowd_ok (lv_crowd w0)"
  shows "\<exists>rc. at_stamp q w0 p (SReturned rc) (snd (stamp_run plain_build (live_file file_kit q) p pc w))"
  using assms(1)
proof (induction "stamp_left pc" arbitrary: pc w rule: less_induct)
  case less
  show ?case
  proof (cases "stamp_left pc = 0")
    case True
    then obtain rc where "pc = SReturned rc" by (cases pc) auto
    with less.prems show ?thesis by auto
  next
    case False
    obtain pc1 w1 where s: "stamp_step plain_build (live_file file_kit q) p pc w = (pc1, w1)"
      by (cases "stamp_step plain_build (live_file file_kit q) p pc w")
    have "stamp_left pc1 < stamp_left pc"
      using s False by (cases pc) (auto split: prod.splits)
    with less.hyps[OF this step_stamp[OF less.prems assms(2) False s]] s False show ?thesis by (simp add: stamp_run_step)
  qed
qed

section \<open>A whole time stamp\<close>

lemma time_text_line:
  assumes "time_text t \<noteq> []"
  shows "takeWhile (\<lambda>c. c \<noteq> 0) (time_text t) = time_text t" "last (time_text t) = newline" "length (time_text t) < 2 ^ 31"
proof -
  obtain cs where cs: "time_text t = filter (\<lambda>c. c \<noteq> 0) (take 254 cs) @ [newline]"
    using assms by (auto simp: time_text_def split: option.splits)
  have "length (filter (\<lambda>c. c \<noteq> 0) (take 254 cs)) \<le> 254"
    using length_filter_le[of "\<lambda>c. c \<noteq> 0" "take 254 cs"] by simp
  then show "takeWhile (\<lambda>c. c \<noteq> 0) (time_text t) = time_text t" "last (time_text t) = newline" "length (time_text t) < 2 ^ 31"
    unfolding cs by (auto simp: takeWhile_eq_all_conv newline_def)
qed

lemma stamper_starts: "time_text t \<noteq> [] \<Longrightarrow> crowd.member_ok s (Stamper (time_text t) SLock x)"
  using time_text_line by (simp add: crowd.member_ok_def crowd.stamper_ok_def)

lemma file_ok_live:
  assumes ok: "file_threads.live_ok u" and st: "at_stamp q (u\<lparr>lv_stamps := st\<rparr>) p (SReturned rc) w"
  shows "file_threads.live_ok w"
proof -
  have "crowd.members.crowd_ok (lv_crowd w)"
    using st crowd.members.crowd_ok_ahead[of "Stamper p (SReturned rc) (lv_own w)" "lv_crowd w"]
    by (simp add: at_stamp_def whole_def)
  then show ?thesis
    using ok st unfolding file_threads.live_ok_def at_stamp_def meanwhile_def by (auto simp: lv_members_def)
qed

lemma file_log_live:
  assumes ok: "file_threads.live_ok u" and log: "file_threads.live_log v u"
    and st: "at_stamp q (u\<lparr>lv_stamps := lv_stamps u @ [p]\<rparr>) p (SReturned rc) w" and p: "p = time_text t" "p \<noteq> []"
  shows "file_threads.live_log v w"
proof -
  let ?xs = "map client_past (map snd (lv_started u))"
  obtain L p0 rc0 x where L: "crowd.members.log_ok v (stamps_past (lv_stamps u) # ?xs) L (ahead (Stamper p0 (SReturned rc0) x) (lv_crowd u))"
    using log unfolding file_threads.live_log_def file_logged_def by blast
  have own: "no_faults (lv_own u)" using log by (simp add: file_threads.live_log_def)
  have "crowd.members.log_ok v ((stamps_past (lv_stamps u) # ?xs)[0 := (stamps_past (lv_stamps u))
      \<lparr>pa_plan := pa_plan (stamps_past (lv_stamps u)) @ crowd.member_plan (Stamper p SLock (lv_own u))\<rparr>]) L
      ((ahead (Stamper p0 (SReturned rc0) x) (lv_crowd u))\<lparr>cr_members :=
        (cr_members (ahead (Stamper p0 (SReturned rc0) x) (lv_crowd u)))[0 := Stamper p SLock (lv_own u)]\<rparr>)"
    using crowd.members.log_resume[OF L, of 0 "Stamper p SLock (lv_own u)"] own stamper_starts p
    by (simp add: crowd.member_plan_def crowd.member_good_def crowd.member_sent_def crowd.member_reply_def)
  moreover have "(ahead (Stamper p0 (SReturned rc0) x) (lv_crowd u))\<lparr>cr_members :=
        (cr_members (ahead (Stamper p0 (SReturned rc0) x) (lv_crowd u)))[0 := Stamper p SLock (lv_own u)]\<rparr> =
      whole p SLock (u\<lparr>lv_stamps := lv_stamps u @ [p]\<rparr>)" by (simp add: whole_def ahead_def)
  moreover have "(stamps_past (lv_stamps u))
      \<lparr>pa_plan := pa_plan (stamps_past (lv_stamps u)) @ crowd.member_plan (Stamper p SLock (lv_own u))\<rparr> =
      stamps_past (lv_stamps u @ [p])" by (simp add: stamps_past_def crowd.member_plan_def)
  ultimately obtain L' where L': "crowd.members.log_ok v (stamps_past (lv_stamps u @ [p]) # ?xs) L' (whole p (SReturned rc) w)"
    using st unfolding at_stamp_def by fastforce
  then have "crowd.members.logged v L' (cr_store (lv_crowd w)) 0 (stamps_past (lv_stamps u @ [p])) (Stamper p (SReturned rc) (lv_own w))"
    by (simp add: crowd.members.log_ok_def whole_def All_less_Suc2)
  then have "no_faults (lv_own w)" by (simp add: crowd.members.logged_def crowd.member_good_def)
  moreover have m: "lv_stamps w = lv_stamps u @ [p]" "lv_started w = lv_started u" "lv_clients w = lv_clients u"
    "lv_current w = lv_current u" using st by (simp_all add: at_stamp_def meanwhile_def)
  have "file_logged v (lv_stamps w) (map snd (lv_started w)) (lv_crowd w)"
    using L' unfolding m file_logged_def whole_def by blast
  ultimately show ?thesis using log m unfolding file_threads.live_log_def by simp
qed

lemma stamp_near:
  assumes ok: "file_threads.live_ok u" and st: "at_stamp q (u\<lparr>lv_stamps := lv_stamps u @ [p]\<rparr>) p (SReturned rc) w"
    and p: "p = time_text t" "p \<noteq> []"
  shows "file_threads.near q u w"
proof -
  have m: "lv_now u \<le> lv_now w" "lv_round u \<le> lv_round w" "lv_clients w = lv_clients u" "lv_accepted w = lv_accepted u"
    "lv_current w = lv_current u" "lv_started w = lv_started u" "prefix (lv_stamps u) (lv_stamps w)"
    "lv_unlinked w = lv_unlinked u" "length (lv_members w) = length (lv_members u)"
    "\<And>i. i < length (lv_members u) \<Longrightarrow> member_ended (lv_members u ! i) \<Longrightarrow> member_ended (lv_members w ! i)"
    "(crowd.members.work (lv_crowd w), crowd.members.work (lv_crowd u)) \<in> work_order \<or> lv_members w = lv_members u \<and>
      (\<forall>j \<ge> lv_round u. j < lv_round w \<longrightarrow> (\<forall>i \<in> set (ft_turns q j). \<not> crowd.members.can_move i (lv_crowd u)))"
    using st unfolding at_stamp_def meanwhile_def by (auto simp: lv_members_def)
  note w = file_ok_live[OF ok st]
  have "file_threads.goes_on u w"
    using m(1,3-8) w file_log_live[OF ok _ st p] by (simp add: file_threads.goes_on_def live_order_def)
  moreover have "(crowd.members.work (lv_crowd w), crowd.members.work (lv_crowd u)) \<in> work_order \<or>
      crowd.members.work (lv_crowd w) = crowd.members.work (lv_crowd u) \<and>
      (\<forall>i. crowd.members.can_move i (lv_crowd w) = crowd.members.can_move i (lv_crowd u)) \<and>
      (\<forall>j \<ge> lv_round u. j < lv_round w \<longrightarrow> (\<forall>i \<in> set (ft_turns q j). \<not> crowd.members.can_move i (lv_crowd u)))"
    using m(11) work_members[of "lv_crowd w" "lv_crowd u"] can_move_members[of "lv_crowd u" "lv_crowd w"] ok w
    unfolding file_threads.live_ok_def lv_members_def by metis
  moreover have "file_threads.all_over w" if "file_threads.all_over u"
    using that m(9,10) w by (simp add: file_threads.all_over_def all_set_conv_all_nth)
  ultimately show ?thesis using m(2) w by (simp add: file_threads.near_def file_threads.nearer_def)
qed

text \<open>A time stamp of the main thread is like any of its other calls.\<close>

lemma file_stamp: "file_threads.near q w (snd (write_time_stamp plain_build (live_os file_kit q) w))"
proof (cases "file_threads.live_ok w")
  case False
  then show ?thesis using live_stamp_books[of w plain_build file_kit q]
    by (simp add: file_threads.near_def file_threads.nearer_def file_threads.goes_on_def same_books_def)
next
  case True
  let ?u = "enter file_kit q w"
  have u: "file_threads.live_ok ?u" using file_threads.enter_ok[OF True] by blast
  have os: "os_strftime (live_os file_kit q) = live_strftime file_kit q" "os_file (live_os file_kit q) = live_file file_kit q"
    by (simp_all add: live_os_def)
  show ?thesis
  proof (rule live_strftime_cases[of file_kit q w])
    assume "live_strftime file_kit q w = ([], ?u)"
    then show ?thesis using file_threads.enter_near by (simp add: stamp_steps_are_the_function os)
  next
    fix p assume p: "p = time_text (ft_time q (lv_now w))" "p \<noteq> []"
      and tb: "live_strftime file_kit q w = (p, ?u\<lparr>lv_stamps := lv_stamps w @ [p]\<rparr>)"
    let ?w0 = "?u\<lparr>lv_stamps := lv_stamps ?u @ [p]\<rparr>"
    have "crowd.members.crowd_ok (lv_crowd ?w0)" using u by (simp add: file_threads.live_ok_def)
    moreover from this have "crowd.members.crowd_ok (whole p SLock ?w0)"
      using crowd.members.crowd_ok_ahead stamper_starts p by (simp add: whole_def)
    ultimately obtain rc where
      "at_stamp q ?w0 p (SReturned rc) (snd (stamp_run plain_build (live_file file_kit q) p SLock ?w0))"
      using run_stamp[OF at_stamp_start] by blast
    from stamp_near[OF u this p]
    have "file_threads.near q ?u (snd (stamp_run plain_build (live_file file_kit q) p SLock ?w0))" .
    moreover have tw: "takeWhile (\<lambda>c. c \<noteq> 0) p = p" using time_text_line(1) p by blast
    have "write_time_stamp plain_build (live_os file_kit q) w = stamp_run plain_build (live_file file_kit q) p SLock ?w0"
      using tb p(2) by (simp add: stamp_steps_are_the_function os tw)
    ultimately show ?thesis using file_threads.near_enter by simp
  qed
qed

end
