(* ===== verification/Live_File_Props.thy ===== *)
theory Live_File_Props
  imports Live_File Live_Demo
begin

text \<open>
  The properties of the whole server on a regular file with its mutex: its main thread, which also
  writes time stamps, and its client threads at work at the same time. It ends, and what the file
  holds then and what the clients were sent.
\<close>

section \<open>The start and the end\<close>

interpretation file_live: live_kit file_kit crowd.members.crowd_ok crowd.members.can_move crowd.members.work
  fit_world no_faults no_faults file_logged
  by unfold_locales (simp add: file_stamp)

lemma file_log_start:
  fixes x :: plain
  assumes "no_faults x"
  shows "file_logged f [] [] \<lparr>cr_store = f, cr_locked = False, cr_members = []\<rparr>"
proof -
  let ?m = "Stamper [newline] (SReturned 0) x"
  let ?c = "ahead ?m \<lparr>cr_store = f, cr_locked = False, cr_members = []\<rparr>"
  have "crowd.members.crowd_ok ?c"
    by (simp add: crowd.members.crowd_ok_def crowd.member_ok_def crowd.stamper_ok_def)
  from crowd.members.log_start[OF this] assms
  have "crowd.members.log_ok f [crowd.members.past_of ?m] [] ?c" by (simp add: crowd.member_good_def)
  moreover have "crowd.members.past_of ?m = stamps_past []"
    by (simp add: crowd.members.past_of_def stamps_past_def crowd.member_plan_def crowd.member_sent_def crowd.member_reply_def)
  ultimately show ?thesis by (auto simp: file_logged_def)
qed

text \<open>How the program ends on a file: the file is removed at the end, if \<open>unlink\<close> does so.\<close>

lemma file_main:
  assumes "\<forall>cl \<in> set cls. fit_world (lc_world cl)" "fair_turns q"
  obtains e s w where "main plain_build (live_os file_kit q) argv (initial_server (live_start f x cls)) = Some (Inr e)"
    "e = Return 0 s \<or> e = Exited 0 s" "linked_list s = None" "file_live.finished q (live_start f x cls) w"
    "env s = w \<or> env s = removed file_kit w"
    "file_threads.live_ok (live_start f x cls)" "live_order cls (live_start f x cls)"
    "\<forall>cl \<in> set cls. no_faults (lc_world cl) \<Longrightarrow> no_faults x \<Longrightarrow> file_threads.live_log f (live_start f x cls)"
proof -
  have s: "crowd.members.crowd_ok \<lparr>cr_store = f, cr_locked = False, cr_members = []\<rparr>"
    by (simp add: crowd.members.crowd_ok_def)
  note st = file_live.live_start_ok[OF s assms(1), where x = x]
  from file_live.main_finished[OF st(1,2) assms(2), of argv] obtain e where
    e: "main plain_build (live_os file_kit q) argv (initial_server (live_start f x cls)) = Some (Inr e)"
      "file_live.main_ends q (live_start f x cls) e" by auto
  from e(2) obtain s w where "linked_list s = None" "file_live.finished q (live_start f x cls) w"
    "env s = w \<or> env s = removed file_kit w" "e = Return 0 s \<or> e = Exited 0 s"
    unfolding file_live.main_ends_def by blast
  with that[OF e(1) this(4,1,2,3) st(1,3)] st(4) file_log_start show thesis by blast
qed

lemma removed_simps [simp]:
  "lv_crashed (removed k w) = lv_crashed w" "lv_members (removed k w) = lv_members w" "lv_args (removed k w) = lv_args w"
  "lv_started (removed k w) = lv_started w" "lv_accepted (removed k w) = lv_accepted w" "lv_closed (removed k w) = lv_closed w"
  "lv_stamps (removed k w) = lv_stamps w" "cr_locked (lv_crowd (removed k w)) = cr_locked (lv_crowd w)"
  "cr_store (lv_crowd (removed k w)) = kt_unlink k (cr_store (lv_crowd w))"
  "lv_unlinked (removed k w) = lv_unlinked w @ [cr_store (lv_crowd w)]"
  by (simp_all add: removed_def lv_members_def)

text \<open>What the log says when all threads have ended.\<close>

lemma client_ended:
  assumes "crowd.members.logged v L s i (client_past y) m" "member_ended m"
    "crowd.member_sent m = cs_outbox y @ answers (@) (\<lambda>f. f) i v L"
  shows "\<exists>t. m = Client Ended t \<and> cs_outbox (world t) = cs_outbox y @ answers (@) (\<lambda>f. f) i v L"
proof (cases m)
  case (Client pc t)
  then have "pc = Ended" using assms(2) by simp
  with Client assms(3) show ?thesis by (simp add: crowd.client_view settled_def)
next
  case (Stamper p pc x)
  then have "\<not> member_holds m" using assms(2) by simp
  with assms(1) Stamper have "(\<lambda>_. []) = (\<lambda>f :: byte list. f)"
    by (simp add: crowd.members.logged_def crowd.member_reply_def client_past_def split: if_splits)
  then show ?thesis by (metis list.distinct(1))
qed

lemma file_log_end:
  assumes log: "file_logged v st xs c" and ended: "\<forall>m \<in> set (cr_members c). member_ended m"
  obtains L where "cr_store c = v @ concat (map snd L)" "\<forall>e \<in> set L. fst e \<le> length xs" "own 0 L = st"
    "\<And>i. i < length xs \<Longrightarrow> own (Suc i) L = packets [] (cs_inbox (xs ! i)) \<and>
       (\<exists>t. cr_members c ! i = Client Ended t \<and>
          cs_outbox (world t) = cs_outbox (xs ! i) @ answers (@) (\<lambda>f. f) (Suc i) v L)"
proof -
  obtain L p rc x where L: "crowd.members.log_ok v (stamps_past st # map client_past xs) L (ahead (Stamper p (SReturned rc) x) c)"
    using log by (auto simp: file_logged_def)
  have e: "\<forall>m \<in> set (cr_members (ahead (Stamper p (SReturned rc) x) c)). member_ended m" using ended by simp
  note l = crowd.members.ended_entries[OF L e]
  have "\<forall>e \<in> set L. fst e \<le> length xs" using L by (auto simp: crowd.members.log_ok_def less_Suc_eq_le)
  moreover have "own 0 L = st" using l(3)[of 0] by (simp add: stamps_past_def)
  moreover have "own (Suc i) L = packets [] (cs_inbox (xs ! i)) \<and> (\<exists>t. cr_members c ! i = Client Ended t \<and>
      cs_outbox (world t) = cs_outbox (xs ! i) @ answers (@) (\<lambda>f. f) (Suc i) v L)" if i: "i < length xs" for i
  proof -
    have "crowd.members.logged v L (cr_store c) (Suc i) (client_past (xs ! i)) (cr_members c ! i)"
      using L i unfolding crowd.members.log_ok_def by fastforce
    moreover have "length (cr_members c) = length xs" using L by (simp add: crowd.members.log_ok_def)
    ultimately show ?thesis
      using l(3)[of "Suc i"] i ended client_ended by (simp add: client_past_def)
  qed
  ultimately show thesis using that l(1) by (simp add: foldl_append_concat)
qed

section \<open>Properties\<close>



section \<open>A run with a client and a time stamp\<close>

definition demo_file_client :: "plain live_client" where
  "demo_file_client = \<lparr>lc_ip = [127, 0, 0, 1], lc_world = demo_world [97, newline, 98, newline] [1, 2]\<rparr>"

lemma demo_file_fits:
  "\<forall>cl \<in> set [demo_file_client]. fit_world (lc_world cl)" "\<forall>cl \<in> set [demo_file_client]. no_faults (lc_world cl)"
  "no_faults (lc_world demo_file_client)"
  by (simp_all add: fit_world_def no_faults_def demo_file_client_def demo_world_def)

abbreviation demo_file_start :: "(byte list, plain) live" where
  "demo_file_start \<equiv> live_start [] (lc_world demo_file_client) [demo_file_client]"

lemma demo_file_run:
  "\<exists>s. main plain_build (live_os file_kit demo_fate) [] (initial_server demo_file_start) = Some (Inr (Return 0 s)) \<and>
     prefix [(4, lc_world demo_file_client)] (lv_started (env s)) \<and> [116, newline] \<in> set (lv_stamps (env s))"
  using file_live.demo_run[of "[]" demo_file_client "lc_world demo_file_client"] demo_file_fits(1)
  by (auto simp: crowd.members.crowd_ok_def)



end
