(* ===== verification/System_Calls.thy ===== *)
theory System_Calls
  imports Prelude
begin

text \<open>
  \<^verbatim>\<open>examples/systemcalls/systemcalls.c\<close>: running a command through \<open>system\<close>, or through \<open>fork\<close>,
  \<open>execv\<close> and \<open>waitpid\<close>. A C string is its bytes without the terminator, a pointer to one is
  optional, and the variable arguments are the list of them. After \<open>fork\<close> the same code runs in two
  processes; the answer of \<open>fork\<close> says which of them the model follows.
\<close>

unbundle bit_operations_syntax

section \<open>Exit status\<close>

definition WIFEXITED :: "32 word \<Rightarrow> bool" where
  "WIFEXITED s \<longleftrightarrow> s AND 0x7F = 0"

definition WEXITSTATUS :: "32 word \<Rightarrow> 32 word" where
  "WEXITSTATUS s = drop_bit 8 (s AND 0xFF00)"

text \<open>The status of a process that called \<open>exit\<close> with the value \<open>n\<close>.\<close>

definition exited :: "nat \<Rightarrow> 32 word" where
  "exited n = push_bit 8 (word_of_nat n)"

section \<open>The calls\<close>

text \<open>
  \<open>ex_execv\<close> has no result when it succeeds, since the process then runs another program.
  \<open>ex_open\<close> creates or truncates its file for writing.
\<close>

record 'w exec_os =
  ex_system :: "byte list option \<Rightarrow> 'w \<Rightarrow> 32 word \<times> 'w"
  ex_fork :: "'w \<Rightarrow> int \<times> 'w"
  ex_execv :: "byte list \<Rightarrow> byte list list \<Rightarrow> 'w \<Rightarrow> int option \<times> 'w"
  ex_waitpid :: "int \<Rightarrow> 'w \<Rightarrow> (int \<times> 32 word) \<times> 'w"
  ex_open :: "byte list option \<Rightarrow> 'w \<Rightarrow> int \<times> 'w"
  ex_dup2 :: "int \<Rightarrow> int \<Rightarrow> 'w \<Rightarrow> int \<times> 'w"
  ex_close :: "int \<Rightarrow> 'w \<Rightarrow> int \<times> 'w"

text \<open>How a process leaves a function: by a return, as another program, or by \<open>_exit\<close>.\<close>

datatype 'w exec_end =
    Returned bool 'w
  | Replaced "byte list" "byte list list" 'w
  | Child_exit nat 'w

section \<open>The functions\<close>

definition do_system :: "'w exec_os \<Rightarrow> byte list option \<Rightarrow> 'w \<Rightarrow> bool \<times> 'w" where
  "do_system os cmd w =
     (let (return_num, w1) = ex_system os cmd w
      in (if cmd = None then (if return_num = 0 then False else True)
          else if return_num = -1 then False
          else if \<not> WIFEXITED return_num then False
          else if WEXITSTATUS return_num = 127 then False
          else if WEXITSTATUS return_num \<noteq> 0 then False
          else True, w1))"

text \<open>\<open>argument[0]\<close>: the first byte, or the terminator.\<close>

definition first_char :: "byte list option \<Rightarrow> fault + byte" where
  "first_char argument = (case argument of None \<Rightarrow> Inl NullDeref | Some [] \<Rightarrow> Inr 0 | Some (c # _) \<Rightarrow> Inr c)"

definition slash :: byte where "slash = 47"

text \<open>
  The loops that fill \<open>command\<close>; \<open>Inr None\<close> is the early return of \<open>false\<close>. Reading more variable
  arguments than were passed is a fault.
\<close>

function fill_command ::
  "byte list option list \<Rightarrow> nat \<Rightarrow> nat \<Rightarrow> byte list option list \<Rightarrow> fault + byte list option list option" where
  "fill_command args count i command =
     (if i < count
      then
        if i < length args
        then
          bindE (if i = 0 then bindE (first_char (args ! i)) (\<lambda>c. Inr (c \<noteq> slash)) else Inr False) (\<lambda>bad.
            if bad then Inr None else fill_command args count (Suc i) (command @ [args ! i]))
        else Inl OutOfBounds
      else Inr (Some command))"
  by pat_completeness auto
termination by (relation "measure (\<lambda>(args, count, i, command). count - i)") auto

function fill_command_checked ::
  "byte list option list \<Rightarrow> nat \<Rightarrow> nat \<Rightarrow> byte list option list \<Rightarrow> fault + byte list option list option" where
  "fill_command_checked args count i command =
     (if i < count
      then
        if i < length args
        then
          if args ! i = None then Inr None
          else
            bindE (if i = 0 then bindE (first_char (args ! i)) (\<lambda>c. Inr (c \<noteq> slash)) else Inr False) (\<lambda>bad.
              if bad then Inr None else fill_command_checked args count (Suc i) (command @ [args ! i]))
        else Inl OutOfBounds
      else Inr (Some command))"
  by pat_completeness auto
termination by (relation "measure (\<lambda>(args, count, i, command). count - i)") auto

declare fill_command.simps [simp del] fill_command_checked.simps [simp del]

text \<open>The array \<open>argv\<close> as \<open>execv\<close> reads it: up to the first NULL.\<close>

definition argv_of :: "byte list option list \<Rightarrow> byte list list" where
  "argv_of command = map the (takeWhile (\<lambda>a. a \<noteq> None) command)"

definition run_execv :: "'w exec_os \<Rightarrow> byte list option list \<Rightarrow> 'w \<Rightarrow> fault + 'w exec_end" where
  "run_execv os command w =
     (case command ! 0 of
        None \<Rightarrow> Inl NullDeref
      | Some path \<Rightarrow>
          (case ex_execv os path (argv_of command) w of
             (None, w1) \<Rightarrow> Inr (Replaced path (argv_of command) w1)
           | (Some r, w1) \<Rightarrow> Inr (if r = -1 then Child_exit 127 w1 else Returned True w1)))"

definition wait_for_child :: "'w exec_os \<Rightarrow> int \<Rightarrow> 'w \<Rightarrow> bool \<times> 'w" where
  "wait_for_child os fork_pid w =
     (let ((waitpid_return, wstatus), w1) = ex_waitpid os fork_pid w
      in (if waitpid_return = -1 then False
          else if \<not> WIFEXITED wstatus then False
          else if WEXITSTATUS wstatus \<noteq> 0 then False
          else True, w1))"

definition do_exec :: "'w exec_os \<Rightarrow> int \<Rightarrow> byte list option list \<Rightarrow> 'w \<Rightarrow> fault + 'w exec_end" where
  "do_exec os count args w =
     (if count < 1 then Inr (Returned False w)
      else
        bindE (fill_command args (nat count) 0 []) (\<lambda>filled.
          case filled of
            None \<Rightarrow> Inr (Returned False w)
          | Some command \<Rightarrow>
              let (fork_pid, w1) = ex_fork os w
              in if fork_pid = -1 then Inr (Returned False w1)
                 else if fork_pid = 0 then run_execv os (command @ [None]) w1
                 else let (ok, w2) = wait_for_child os fork_pid w1 in Inr (Returned ok w2)))"

definition redirect_child ::
  "'w exec_os \<Rightarrow> byte list option \<Rightarrow> byte list option list \<Rightarrow> 'w \<Rightarrow> fault + 'w exec_end" where
  "redirect_child os outputfile command w =
     (let (fd, w1) = ex_open os outputfile w
      in if fd = -1 then Inr (Child_exit 127 w1)
         else let (dup_return, w2) = ex_dup2 os fd 1 w1
      in if dup_return = -1 then Inr (Child_exit 127 (snd (ex_close os fd w2)))
         else let (close_return, w3) = ex_close os fd w2
      in if close_return = -1 then Inr (Child_exit 127 w3)
         else run_execv os command w3)"

definition do_exec_redirect ::
  "'w exec_os \<Rightarrow> byte list option \<Rightarrow> int \<Rightarrow> byte list option list \<Rightarrow> 'w \<Rightarrow> fault + 'w exec_end" where
  "do_exec_redirect os outputfile count args w =
     (if count < 1 then Inr (Returned False w)
      else
        bindE (fill_command_checked args (nat count) 0 []) (\<lambda>filled.
          case filled of
            None \<Rightarrow> Inr (Returned False w)
          | Some command \<Rightarrow>
              let (fork_pid, w1) = ex_fork os w
              in if fork_pid = -1 then Inr (Returned False w1)
                 else if fork_pid = 0 then redirect_child os outputfile (command @ [None]) w1
                 else let (ok, w2) = wait_for_child os fork_pid w1 in Inr (Returned ok w2)))"

section \<open>Lemmas\<close>

lemma exit_zero_iff: "WIFEXITED s \<and> WEXITSTATUS s = 0 \<longleftrightarrow> s AND 0xFF7F = 0"
proof -
  let ?x = "s AND 0xFF00"
  have "take_bit 8 ?x = 0" by (simp add: take_bit_and)
  then have "push_bit 8 (drop_bit 8 ?x) = ?x" using bits_ident[of 8 ?x] by simp
  then have "drop_bit 8 ?x = 0 \<longleftrightarrow> ?x = 0" by (metis drop_bit_of_0 push_bit_of_0)
  moreover have "s AND 0xFF7F = (s AND 0x7F) OR ?x"
    unfolding bit.conj_disj_distrib[symmetric] by simp
  ultimately show ?thesis by (simp add: WIFEXITED_def WEXITSTATUS_def or_eq_0_iff)
qed

lemma fill_command_all:
  assumes "\<forall>a \<in> set args. a \<noteq> None" "args \<noteq> []" "first_char (args ! 0) = Inr slash" "i \<le> length args"
  shows "fill_command args (length args) i (take i args) = Inr (Some args)"
    "fill_command_checked args (length args) i (take i args) = Inr (Some args)"
  using assms(4)
proof (induction "length args - i" arbitrary: i)
  case 0
  { case 1 then show ?case using 0 by (subst fill_command.simps) simp
  next case 2 then show ?case using 0 by (subst fill_command_checked.simps) simp }
next
  case (Suc k)
  then have i: "i < length args" "k = length args - Suc i" "take i args @ [args ! i] = take (Suc i) args"
    by (simp_all add: take_Suc_conv_app_nth)
  { case 1
    have "fill_command args (length args) (Suc i) (take (Suc i) args) = Inr (Some args)"
      using Suc.hyps(1)[OF i(2)] i(1) by simp
    then show ?case using i assms by (subst fill_command.simps) auto
  next
    case 2
    have "fill_command_checked args (length args) (Suc i) (take (Suc i) args) = Inr (Some args)"
      using Suc.hyps(2)[OF i(2)] i(1) by simp
    moreover have "args ! i \<noteq> None" using assms(1) i(1) by simp
    ultimately show ?case using i assms by (subst fill_command_checked.simps) auto }
qed

lemma argv_of_all:
  assumes "\<forall>a \<in> set args. a \<noteq> None"
  shows "argv_of (args @ [None]) = map the args"
  using assms by (induction args) (simp_all add: argv_of_def)

lemma run_execv_all:
  assumes "\<forall>a \<in> set args. a \<noteq> None" "args = Some path # rest"
  shows "run_execv os (args @ [None]) w =
    (case ex_execv os path (map the args) w of
       (None, w1) \<Rightarrow> Inr (Replaced path (map the args) w1)
     | (Some r, w1) \<Rightarrow> Inr (if r = -1 then Child_exit 127 w1 else Returned True w1))"
proof -
  have "(args @ [None]) ! 0 = Some path" using assms(2) by simp
  then show ?thesis unfolding run_execv_def argv_of_all[OF assms(1)] by simp
qed

lemma wait_for_child_eq:
  "wait_for_child os pid w =
     (let ((rv, st), w1) = ex_waitpid os pid w in (rv \<noteq> -1 \<and> st AND 0xFF7F = 0, w1))"
  using exit_zero_iff by (auto simp: wait_for_child_def split: prod.splits)

section \<open>Properties\<close>

text \<open>
  \<open>do_system\<close> is true exactly when the shell could be run and the command exited normally with
  zero, which is one test of the bits of the status; for a NULL command it tells whether there is
  a shell.
\<close>

theorem do_system_true_iff:
  "fst (do_system os cmd w) =
     (let r = fst (ex_system os cmd w) in if cmd = None then r \<noteq> 0 else r AND 0xFF7F = 0)"
proof -
  have "(-1 :: 32 word) AND 0xFF7F \<noteq> 0" by simp
  then show ?thesis
    using exit_zero_iff[of "fst (ex_system os cmd w)"] by (auto simp: do_system_def Let_def split_beta)
qed

text \<open>
  C25. With as many arguments as \<open>count\<close> says, none of them NULL and the first an absolute path, the
  child runs that program with exactly these arguments, or ends with 127 when it cannot, and the
  parent waits for it and returns true exactly when it exited normally with zero.
\<close>

theorem do_exec_runs_command:
  assumes "\<forall>a \<in> set args. a \<noteq> None" "args \<noteq> []" "first_char (args ! 0) = Inr slash" "count = int (length args)"
  shows "do_exec os count args w =
    (let (pid, w1) = ex_fork os w
     in if pid = -1 then Inr (Returned False w1)
        else if pid = 0
        then case ex_execv os (the (hd args)) (map the args) w1 of
               (None, w2) \<Rightarrow> Inr (Replaced (the (hd args)) (map the args) w2)
             | (Some r, w2) \<Rightarrow> Inr (if r = -1 then Child_exit 127 w2 else Returned True w2)
        else let ((rv, st), w2) = ex_waitpid os pid w1 in Inr (Returned (rv \<noteq> -1 \<and> st AND 0xFF7F = 0) w2))"
proof -
  obtain path rest where a: "args = Some path # rest" using assms(1,2) by (cases args) auto
  have f: "fill_command args (length args) 0 [] = Inr (Some args)"
    using fill_command_all(1)[OF assms(1-3), of 0] by simp
  note r = run_execv_all[OF assms(1) a]
  have n: "nat count = length args" "\<not> count < 1" "the (hd args) = path" using a assms(4) by simp_all
  show ?thesis
    unfolding do_exec_def n f by (simp add: n(2) r wait_for_child_eq Let_def split_beta)
qed

text \<open>
  For the same arguments \<open>do_exec_redirect\<close> does the same, but in the child it first opens the
  output file, makes it the standard output and closes the extra descriptor; if one of these calls
  fails the program is not run and the child ends with 127.
\<close>

theorem do_exec_redirect_runs_command:
  assumes "\<forall>a \<in> set args. a \<noteq> None" "args \<noteq> []" "first_char (args ! 0) = Inr slash" "count = int (length args)"
    and parent: "ex_fork os w = (pid, w1)"
    and child: "ex_open os outputfile w1 = (fd, w2)" "ex_dup2 os fd 1 w2 = (d, w3)" "ex_close os fd w3 = (c, w4)"
  shows "do_exec_redirect os outputfile count args w =
    (if pid = -1 then Inr (Returned False w1)
     else if pid = 0
     then if fd = -1 then Inr (Child_exit 127 w2)
          else if d = -1 \<or> c = -1 then Inr (Child_exit 127 w4)
          else case ex_execv os (the (hd args)) (map the args) w4 of
                 (None, w5) \<Rightarrow> Inr (Replaced (the (hd args)) (map the args) w5)
               | (Some r, w5) \<Rightarrow> Inr (if r = -1 then Child_exit 127 w5 else Returned True w5)
     else let ((rv, st), w5) = ex_waitpid os pid w1 in Inr (Returned (rv \<noteq> -1 \<and> st AND 0xFF7F = 0) w5))"
proof -
  obtain path rest where a: "args = Some path # rest" using assms(1,2) by (cases args) auto
  have f: "fill_command_checked args (length args) 0 [] = Inr (Some args)"
    using fill_command_all(2)[OF assms(1-3), of 0] by simp
  note r = run_execv_all[OF assms(1) a]
  have n: "nat count = length args" "\<not> count < 1" "the (hd args) = path" using a assms(4) by simp_all
  show ?thesis
    unfolding do_exec_redirect_def n f
    by (simp add: n(2) redirect_child_def r wait_for_child_eq Let_def split_beta parent child)
qed

text \<open>
  The two functions differ on a NULL first argument: \<open>do_exec_redirect\<close> returns false before it
  forks, \<open>do_exec\<close> dereferences the pointer.
\<close>

theorem do_exec_null_argument:
  assumes "1 \<le> count" "args \<noteq> []" "hd args = None"
  shows "do_exec os count args w = Inl NullDeref \<and>
    do_exec_redirect os outputfile count args w = Inr (Returned False w)"
proof -
  have "args ! 0 = None" "0 < nat count" "0 < length args" using assms by (simp_all add: hd_conv_nth)
  then have "fill_command args (nat count) 0 [] = Inl NullDeref"
    "fill_command_checked args (nat count) 0 [] = Inr None"
    by (subst fill_command.simps fill_command_checked.simps; simp add: first_char_def)+
  then show ?thesis using assms(1) by (simp add: do_exec_def do_exec_redirect_def)
qed

text \<open>A system that answers the parent of \<open>/a -b\<close>, whose command exits with the value 1.\<close>

definition demo_exec :: "int \<Rightarrow> unit exec_os" where
  "demo_exec pid =
     \<lparr>ex_system = (\<lambda>c w. (0, w)), ex_fork = (\<lambda>w. (pid, w)), ex_execv = (\<lambda>p a w. (None, w)),
      ex_waitpid = (\<lambda>p w. ((p, exited 1), w)), ex_open = (\<lambda>f w. (5, w)), ex_dup2 = (\<lambda>a b w. (b, w)),
      ex_close = (\<lambda>fd w. (0, w))\<rparr>"

definition demo_args :: "byte list option list" where
  "demo_args = [Some [47, 97], Some [45, 98]]"

lemma demo_args_ok:
  "\<forall>a \<in> set demo_args. a \<noteq> None" "demo_args \<noteq> []" "first_char (demo_args ! 0) = Inr slash"
  "2 = int (length demo_args)"
  by (simp_all add: demo_args_def first_char_def slash_def)

theorem do_exec_runs_command_witness:
  "do_exec (demo_exec 9) 2 demo_args () = Inr (Returned False ()) \<and>
   do_exec (demo_exec 0) 2 demo_args () = Inr (Replaced [47, 97] [[47, 97], [45, 98]] ())"
  using do_exec_runs_command[OF demo_args_ok, of "demo_exec 9" "()"]
    do_exec_runs_command[OF demo_args_ok, of "demo_exec 0" "()"]
  by (simp add: demo_exec_def demo_args_def exited_def)

theorem do_exec_redirect_runs_command_witness:
  "do_exec_redirect (demo_exec 0) (Some [111]) 2 demo_args () = Inr (Replaced [47, 97] [[47, 97], [45, 98]] ())"
  using do_exec_redirect_runs_command[OF demo_args_ok, of "demo_exec 0" "()" 0 "()" "Some [111]" 5 "()" 1 "()" 0 "()"]
  by (simp add: demo_exec_def demo_args_def)

theorem do_exec_null_argument_witness:
  "do_exec (demo_exec 9) 1 [None] () = Inl NullDeref \<and>
   do_exec_redirect (demo_exec 9) (Some [111]) 1 [None] () = Inr (Returned False ())"
  by (rule do_exec_null_argument) simp_all

end
