(* ===== verification/Writer.thy ===== *)
theory Writer
  imports Prelude
begin

text \<open>
  \<^verbatim>\<open>finder-app/writer.c\<close>: write a string to a file. The file system is a map from paths to
  contents; its calls are those that POSIX documents for a regular file, and fail when the system
  says so. Messages go to the output and to the system log.
\<close>

unbundle bit_operations_syntax

section \<open>Files\<close>

record file_os =
  fo_files :: "byte list \<rightharpoonup> byte list"
  fo_fails_open :: bool
  fo_fails_write :: "nat option"
  fo_fails_close :: bool
  fo_output :: "byte list"
  fo_log :: "(int \<times> byte list) list"

definition O_WRONLY :: int where "O_WRONLY = 0x1"
definition O_CREAT :: int where "O_CREAT = 0x40"
definition O_TRUNC :: int where "O_TRUNC = 0x200"

text \<open>A descriptor is the path it was opened with; its position is the start of the file.\<close>

definition open_file :: "byte list \<Rightarrow> int \<Rightarrow> file_os \<Rightarrow> byte list option \<times> file_os" where
  "open_file path flags w =
     (if fo_fails_open w then (None, w)
      else
        case fo_files w path of
          None \<Rightarrow>
            if flags AND O_CREAT \<noteq> 0 then (Some path, w\<lparr>fo_files := (fo_files w)(path \<mapsto> [])\<rparr>) else (None, w)
        | Some old \<Rightarrow>
            if flags AND O_TRUNC \<noteq> 0 then (Some path, w\<lparr>fo_files := (fo_files w)(path \<mapsto> [])\<rparr>)
            else (Some path, w))"

text \<open>\<open>fo_fails_write\<close>: \<open>Some 0\<close> is an error, \<open>Some (Suc k)\<close> a write of at most \<open>k\<close> bytes.\<close>

definition write_file :: "byte list \<Rightarrow> byte list \<Rightarrow> file_os \<Rightarrow> int \<times> file_os" where
  "write_file path bs w =
     (case fo_fails_write w of
        Some 0 \<Rightarrow> (-1, w)
      | f \<Rightarrow>
          let n = (case f of Some (Suc k) \<Rightarrow> min k (length bs) | _ \<Rightarrow> length bs);
              old = the (fo_files w path)
          in (int n, w\<lparr>fo_files := (fo_files w)(path \<mapsto> take n bs @ drop n old)\<rparr>))"

section \<open>Messages\<close>

definition LOG_ERR :: int where "LOG_ERR = 3"
definition LOG_DEBUG :: int where "LOG_DEBUG = 7"

definition BUFFER_SIZE :: nat where "BUFFER_SIZE = 256"

abbreviation chars :: "string \<Rightarrow> byte list" where
  "chars \<equiv> map of_char"

text \<open>\<open>snprintf\<close> cuts the text so that it fits into the buffer with its terminator.\<close>

definition snprintf :: "nat \<Rightarrow> byte list \<Rightarrow> byte list" where
  "snprintf n text = take (n - 1) text"

definition print_and_log :: "int \<Rightarrow> byte list \<Rightarrow> file_os \<Rightarrow> file_os" where
  "print_and_log log_level content w =
     w\<lparr>fo_output := fo_output w @ content, fo_log := fo_log w @ [(log_level, content)]\<rparr>"

definition log_error :: "byte list \<Rightarrow> file_os \<Rightarrow> file_os" where
  "log_error text w = print_and_log LOG_ERR (snprintf BUFFER_SIZE text) w"

section \<open>The program\<close>

definition FILE_FLAGS :: int where
  "FILE_FLAGS = O_WRONLY OR O_CREAT"

definition writing_message :: "byte list \<Rightarrow> byte list \<Rightarrow> byte list" where
  "writing_message writestr writefile =
     chars ''Writing '' @ chars [CHR 0x27] @ writestr @ chars [CHR 0x27] @ chars '' to '' @
     chars [CHR 0x27] @ writefile @ chars [CHR 0x27] @ [newline]"

text \<open>\<open>strlen\<close> counts up to the terminator; the arguments are given without it.\<close>

definition writer_main :: "byte list list \<Rightarrow> file_os \<Rightarrow> int \<times> file_os" where
  "writer_main argv w =
     (if length argv < 2 then (1, log_error (chars ''Error: Missing writefile argument!'' @ [newline]) w)
      else if length argv < 3 then (1, log_error (chars ''Error: Missing writestr argument!'' @ [newline]) w)
      else
        let writefile = argv ! 1; writestr = argv ! 2;
            quoted = chars [CHR 0x27] @ writefile @ chars [CHR 0x27];
            (file_descriptor, w1) = open_file writefile FILE_FLAGS w
        in case file_descriptor of
             None \<Rightarrow> (1, log_error (chars ''Error: Failed to open file '' @ quoted @ chars ''!'' @ [newline]) w1)
           | Some fd \<Rightarrow>
               let w2 = print_and_log LOG_DEBUG (snprintf BUFFER_SIZE (writing_message writestr writefile)) w1;
                   write_length = length writestr;
                   (bytes_written, w3) = write_file fd writestr w2
               in if bytes_written = -1
                  then (1, log_error (chars ''Error: Failed to write to file '' @ quoted @ chars ''!'' @ [newline]) w3)
                  else if bytes_written \<noteq> int write_length
                  then (1, log_error
                          (chars ''Error: Failed to write all content to file '' @ quoted @ chars ''!'' @ [newline]) w3)
                  else if fo_fails_close w3
                  then (1, log_error (chars ''Error: Failed to close file '' @ quoted @ chars ''!'' @ [newline]) w3)
                  else (0, w3))"

section \<open>Properties\<close>

lemmas message_defs = print_and_log_def log_error_def snprintf_def BUFFER_SIZE_def

definition old_content :: "file_os \<Rightarrow> byte list \<Rightarrow> byte list" where
  "old_content w path = (case fo_files w path of None \<Rightarrow> [] | Some bs \<Rightarrow> bs)"

text \<open>
  C39. When no call fails, the program returns zero, changes no other file, and the string is at
  the start of the file; but the file is opened without \<open>O_TRUNC\<close>, so of a longer file that was
  there before the rest stays behind the string: the file's content is the string exactly when no
  longer file was there. The one message is what the program is about to do, with the string and
  the path in quotes, cut to 255 bytes.
\<close>

theorem writer_keeps_old_tail:
  assumes "\<not> fo_fails_open w" "fo_fails_write w = None" "\<not> fo_fails_close w"
  shows "\<exists>w'. writer_main [prog, path, str] w = (0, w') \<and>
    fo_files w' = (fo_files w)(path \<mapsto> str @ drop (length str) (old_content w path)) \<and>
    (fo_files w' path = Some str \<longleftrightarrow> length (old_content w path) \<le> length str) \<and>
    fo_log w' = fo_log w @ [(LOG_DEBUG, take 255 (writing_message str path))]"
  using assms
  by (auto simp: writer_main_def message_defs open_file_def write_file_def FILE_FLAGS_def O_WRONLY_def O_CREAT_def
      O_TRUNC_def old_content_def Let_def split: option.splits)

definition demo_files :: file_os where
  "demo_files = \<lparr>fo_files = [[102] \<mapsto> [97, 98, 99]], fo_fails_open = False, fo_fails_write = None, fo_fails_close = False,
     fo_output = [], fo_log = []\<rparr>"

theorem writer_keeps_old_tail_witness:
  "\<exists>w'. writer_main [[119], [102], [120]] demo_files = (0, w') \<and> fo_files w' [102] = Some [120, 98, 99] \<and>
    fo_log w' = [(7, [87, 114, 105, 116, 105, 110, 103, 32, 39, 120, 39, 32, 116, 111, 32, 39, 102, 39, 10])]"
  using writer_keeps_old_tail[of demo_files "[119]" "[102]" "[120]"]
  by (auto simp: demo_files_def old_content_def writing_message_def LOG_DEBUG_def newline_def)

text \<open>
  The program returns zero only when it was given a path and a string, the file could be opened,
  the whole string was written and the file was closed; in every other case it returns 1.
\<close>

theorem writer_exit_code:
  "fst (writer_main argv w) =
     (if length argv \<ge> 3 \<and> \<not> fo_fails_open w \<and> \<not> fo_fails_close w \<and>
         (case fo_fails_write w of None \<Rightarrow> True | Some 0 \<Rightarrow> False | Some (Suc k) \<Rightarrow> length (argv ! 2) \<le> k)
      then 0 else 1)"
  by (auto simp: writer_main_def message_defs open_file_def write_file_def FILE_FLAGS_def O_WRONLY_def O_CREAT_def
      O_TRUNC_def Let_def split: option.splits nat.splits)

text \<open>
  Every message goes to the output and to the log alike; a run that fails ends with an error
  message, one that does not has none.
\<close>

theorem writer_reports:
  assumes "fo_log w = []" "fo_output w = []" "writer_main argv w = (rc, w')"
  shows "fo_output w' = concat (map snd (fo_log w')) \<and> fo_log w' \<noteq> [] \<and>
    (rc = 0 \<longleftrightarrow> fst (last (fo_log w')) \<noteq> LOG_ERR)"
  using assms
  by (auto simp: writer_main_def message_defs open_file_def write_file_def LOG_ERR_def LOG_DEBUG_def
      Let_def split: if_splits option.splits nat.splits)

end
