(* ===== verification/Threading.thy ===== *)
theory Threading
  imports Prelude
begin

text \<open>
  \<^verbatim>\<open>examples/threading/threading.c\<close>: a thread that sleeps, takes a mutex, holds it for a time and
  releases it, and the function that starts such a thread. A mutex is a name; the data of the
  threads lives in a memory of its own.
\<close>

section \<open>State\<close>

record thread_data =
  mutex_ptr :: nat
  wait_to_obtain_ms :: int
  wait_to_release_ms :: int
  thread_complete_success :: bool

type_synonym data_heap = "addr \<rightharpoonup> thread_data"

text \<open>
  The system: \<open>usleep\<close> of a number of microseconds, the mutex calls, and for the function that
  starts the thread the allocator's answer and the result of \<open>pthread_create\<close> with the new thread's
  identifier.
\<close>

record 'w thread_os =
  th_usleep :: "32 word \<Rightarrow> 'w \<Rightarrow> int \<times> 'w"
  th_lock :: "nat \<Rightarrow> 'w \<Rightarrow> int \<times> 'w"
  th_unlock :: "nat \<Rightarrow> 'w \<Rightarrow> int \<times> 'w"
  th_malloc :: "data_heap \<Rightarrow> 'w \<Rightarrow> addr option \<times> 'w"
  th_create :: "addr \<Rightarrow> 'w \<Rightarrow> (int \<times> int) \<times> 'w"

section \<open>The functions\<close>

text \<open>The product is computed in \<open>int\<close> and converted to the unsigned argument of \<open>usleep\<close>.\<close>

definition microseconds :: "int \<Rightarrow> fault + 32 word" where
  "microseconds ms =
     (if - (2 ^ 31) \<le> ms * 1000 \<and> ms * 1000 < 2 ^ 31 then Inr (word_of_int (ms * 1000)) else Inl SignedOverflow)"

definition set_success :: "bool \<Rightarrow> addr \<Rightarrow> data_heap \<Rightarrow> data_heap" where
  "set_success b p h = h(p := map_option (\<lambda>d. d\<lparr>thread_complete_success := b\<rparr>) (h p))"

text \<open>The result is the address that the thread returns, the memory and the system.\<close>

definition threadfunc :: "'w thread_os \<Rightarrow> addr \<Rightarrow> data_heap \<Rightarrow> 'w \<Rightarrow> fault + addr \<times> data_heap \<times> 'w" where
  "threadfunc os thread_param h w =
     (case h thread_param of
        None \<Rightarrow> Inl UseAfterFree
      | Some d \<Rightarrow>
          bindE (microseconds (wait_to_obtain_ms d)) (\<lambda>us.
          let (usleep_return, w1) = th_usleep os us w
          in if usleep_return = -1 then Inr (thread_param, set_success False thread_param h, w1)
             else let (mutex_lock_return, w2) = th_lock os (mutex_ptr d) w1
          in if mutex_lock_return \<noteq> 0 then Inr (thread_param, set_success False thread_param h, w2)
             else bindE (microseconds (wait_to_release_ms d)) (\<lambda>us2.
             let (usleep_return2, w3) = th_usleep os us2 w2;
                 (mutex_unlock_return, w4) = th_unlock os (mutex_ptr d) w3
             in if usleep_return2 = -1 then Inr (thread_param, set_success False thread_param h, w4)
                else if mutex_unlock_return \<noteq> 0 then Inr (thread_param, set_success False thread_param h, w4)
                else Inr (thread_param, set_success True thread_param h, w4))))"

definition start_thread_obtaining_mutex ::
  "'w thread_os \<Rightarrow> nat \<Rightarrow> int \<Rightarrow> int \<Rightarrow> data_heap \<Rightarrow> 'w \<Rightarrow> fault + bool \<times> int option \<times> data_heap \<times> 'w" where
  "start_thread_obtaining_mutex os mutex obtain_ms release_ms h w =
     (let (thread_data_ptr, w1) = th_malloc os h w
      in case thread_data_ptr of
           None \<Rightarrow> Inr (False, None, h, w1)
         | Some p \<Rightarrow>
             let h1 = h(p \<mapsto> \<lparr>mutex_ptr = mutex, wait_to_obtain_ms = obtain_ms, wait_to_release_ms = release_ms,
                               thread_complete_success = False\<rparr>);
                 ((pthread_create_return, tid), w2) = th_create os p w1
             in if pthread_create_return \<noteq> 0
                then (case h1 p of
                        None \<Rightarrow> Inl BadFree
                      | Some _ \<Rightarrow> Inr (False, None, h1(p := None), w2))
                else Inr (True, Some tid, h1, w2))"

section \<open>What the mutex and the allocator promise\<close>

text \<open>
  \<open>owns w m\<close>: this thread holds the mutex. An unlock of a held mutex releases it, and sleeping
  changes nothing.
\<close>

locale thread_laws =
  fixes os :: "'w thread_os" and holds :: "'w \<Rightarrow> nat \<Rightarrow> bool"
  assumes usleep_law: "th_usleep os n w = (r, w') \<Longrightarrow> holds w' = holds w"
    and lock_law: "th_lock os m w = (r, w') \<Longrightarrow> \<not> holds w m \<Longrightarrow>
      holds w' = (if r = 0 then (holds w)(m := True) else holds w)"
    and unlock_law: "th_unlock os m w = (r, w') \<Longrightarrow> holds w m \<Longrightarrow> r = 0 \<and> holds w' = (holds w)(m := False)"
    and malloc_law: "th_malloc os h w = (ans, w') \<Longrightarrow> ans = Some p \<Longrightarrow> h p = None"
begin

lemma threadfunc_ok:
  assumes d: "h p = Some d" and free: "\<not> holds w (mutex_ptr d)"
    and ms: "microseconds (wait_to_obtain_ms d) = Inr us" "microseconds (wait_to_release_ms d) = Inr us2"
  shows "\<exists>b w'. threadfunc os p h w = Inr (p, h(p \<mapsto> d\<lparr>thread_complete_success := b\<rparr>), w') \<and> holds w' = holds w"
proof -
  let ?m = "mutex_ptr d"
  obtain r1 w1 where s1: "th_usleep os us w = (r1, w1)" by (cases "th_usleep os us w")
  obtain r2 w2 where l: "th_lock os ?m w1 = (r2, w2)" by (cases "th_lock os ?m w1")
  obtain r3 w3 where s2: "th_usleep os us2 w2 = (r3, w3)" by (cases "th_usleep os us2 w2")
  obtain r4 w4 where u: "th_unlock os ?m w3 = (r4, w4)" by (cases "th_unlock os ?m w3")
  have h1: "holds w1 = holds w" using usleep_law[OF s1] .
  then have h2: "holds w2 = (if r2 = 0 then (holds w)(?m := True) else holds w)"
    using lock_law[OF l] free by simp
  have h3: "holds w3 = holds w2" using usleep_law[OF s2] .
  have h4: "r2 = 0 \<longrightarrow> r4 = 0 \<and> holds w4 = holds w"
    using unlock_law[OF u] h2 h3 free by (auto simp: fun_upd_idem)
  have set: "set_success b p h = h(p \<mapsto> d\<lparr>thread_complete_success := b\<rparr>)" for b
    using d by (simp add: set_success_def)
  consider "r1 = -1" | "r1 \<noteq> -1" "r2 \<noteq> 0" | "r1 \<noteq> -1" "r2 = 0" "r3 = -1" | "r1 \<noteq> -1" "r2 = 0" "r3 \<noteq> -1"
    by blast
  then show ?thesis
  proof cases
    case 1
    then show ?thesis using d ms(1) s1 h1 set by (intro exI[of _ False] exI[of _ w1]) (simp add: threadfunc_def)
  next
    case 2
    then show ?thesis using d ms(1) s1 l h2 set
      by (intro exI[of _ False] exI[of _ w2]) (simp add: threadfunc_def)
  next
    case 3
    then show ?thesis using d ms s1 l s2 u h4 set
      by (intro exI[of _ False] exI[of _ w4]) (simp add: threadfunc_def)
  next
    case 4
    then show ?thesis using d ms s1 l s2 u h4 set
      by (intro exI[of _ True] exI[of _ w4]) (simp add: threadfunc_def)
  qed
qed

lemma start_thread_ok:
  "\<exists>b t h' w'. start_thread_obtaining_mutex os m o_ms r_ms h w = Inr (b, t, h', w') \<and>
     (if b then \<exists>p. h p = None \<and> h' = h(p \<mapsto> \<lparr>mutex_ptr = m, wait_to_obtain_ms = o_ms,
         wait_to_release_ms = r_ms, thread_complete_success = False\<rparr>) \<and> t \<noteq> None
      else h' = h \<and> t = None)"
proof -
  obtain ans w1 where a: "th_malloc os h w = (ans, w1)" by (cases "th_malloc os h w")
  show ?thesis
  proof (cases ans)
    case None
    with a show ?thesis by (intro exI[of _ False] exI[of _ None]) (simp add: start_thread_obtaining_mutex_def)
  next
    case (Some p)
    obtain r t w2 where c: "th_create os p w1 = ((r, t), w2)" by (metis prod.exhaust)
    have "h p = None" using malloc_law[OF a Some] .
    then have "h(p := None) = h" by (simp add: fun_upd_idem)
    with a c Some \<open>h p = None\<close> show ?thesis
      by (cases "r = 0") (auto simp: start_thread_obtaining_mutex_def Let_def)
  qed
qed

end

section \<open>A system with faults\<close>

text \<open>
  A system for one thread: the mutexes it holds and, for each call to come, whether it fails. A lock
  that fails is \<open>EINVAL\<close>; an unlock of a mutex that is not held is \<open>EPERM\<close>.
\<close>

record mutex_world =
  mw_held :: "nat \<Rightarrow> bool"
  mw_fail :: "bool list"
  mw_next :: int

definition mw_pop :: "mutex_world \<Rightarrow> bool \<times> mutex_world" where
  "mw_pop w = (case mw_fail w of [] \<Rightarrow> (False, w) | b # bs \<Rightarrow> (b, w\<lparr>mw_fail := bs\<rparr>))"

definition mutex_os :: "mutex_world thread_os" where
  "mutex_os =
     \<lparr>th_usleep = (\<lambda>us w. let (b, w1) = mw_pop w in (if b then -1 else 0, w1)),
      th_lock = (\<lambda>m w. let (b, w1) = mw_pop w
                  in if b then (22, w1) else (0, w1\<lparr>mw_held := (mw_held w1)(m := True)\<rparr>)),
      th_unlock = (\<lambda>m w. if mw_held w m then (0, w\<lparr>mw_held := (mw_held w)(m := False)\<rparr>) else (1, w)),
      th_malloc = (\<lambda>h w. let (b, w1) = mw_pop w in (if b then None else first_free h 0, w1)),
      th_create = (\<lambda>p w. let (b, w1) = mw_pop w
                    in if b then ((11, 0), w1) else ((0, mw_next w1), w1\<lparr>mw_next := mw_next w1 + 1\<rparr>))\<rparr>"

lemma mw_pop_held: "mw_pop w = (b, w') \<Longrightarrow> mw_held w' = mw_held w"
  by (auto simp: mw_pop_def split: list.splits)

interpretation mutex: thread_laws mutex_os mw_held
proof (unfold_locales, goal_cases)
  case (1 us w r w')
  then show ?case by (auto simp: mutex_os_def Let_def mw_pop_held split: prod.splits)
next
  case (2 m w r w')
  then show ?case by (auto simp: mutex_os_def Let_def mw_pop_held split: prod.splits if_splits)
next
  case (3 m w r w')
  then show ?case by (auto simp: mutex_os_def)
next
  case (4 h w ans w' p)
  then show ?case by (auto simp: mutex_os_def Let_def dest: first_free_Some split: prod.splits if_splits)
qed

section \<open>Properties\<close>

text \<open>
  C40. A thread whose times fit into \<open>int\<close> microseconds returns the address it was given, records its
  success or failure there, and holds no more mutexes than before it ran, on every path: a failed
  sleep while it holds the mutex still releases it.
\<close>

theorem threadfunc_releases_mutex:
  assumes "h p = Some d" "\<not> mw_held w (mutex_ptr d)"
    "microseconds (wait_to_obtain_ms d) = Inr us" "microseconds (wait_to_release_ms d) = Inr us2"
  shows "\<exists>b w'. threadfunc mutex_os p h w = Inr (p, h(p \<mapsto> d\<lparr>thread_complete_success := b\<rparr>), w') \<and>
    mw_held w' = mw_held w"
  by (rule mutex.threadfunc_ok[where h = h and p = p and d = d and w = w, OF assms])

theorem threadfunc_releases_mutex_witness:
  "\<exists>b w'. threadfunc mutex_os 0 [0 \<mapsto> \<lparr>mutex_ptr = 4, wait_to_obtain_ms = 10, wait_to_release_ms = 20,
        thread_complete_success = False\<rparr>] \<lparr>mw_held = (\<lambda>m. False), mw_fail = [False, False, True], mw_next = 1\<rparr> =
      Inr (0, [0 \<mapsto> \<lparr>mutex_ptr = 4, wait_to_obtain_ms = 10, wait_to_release_ms = 20,
        thread_complete_success = b\<rparr>], w') \<and> mw_held w' = (\<lambda>m. False)"
  using threadfunc_releases_mutex[of "[0 \<mapsto> \<lparr>mutex_ptr = 4, wait_to_obtain_ms = 10, wait_to_release_ms = 20,
        thread_complete_success = False\<rparr>]" 0 "\<lparr>mutex_ptr = 4, wait_to_obtain_ms = 10, wait_to_release_ms = 20,
        thread_complete_success = False\<rparr>" "\<lparr>mw_held = (\<lambda>m. False), mw_fail = [False, False, True], mw_next = 1\<rparr>"]
  by (simp add: microseconds_def)

text \<open>
  \<open>start_thread_obtaining_mutex\<close> returns true exactly when it has given the thread a new block with
  its parameters, and the thread's identifier; when it returns false the memory is as before.
\<close>

theorem start_thread_allocates_or_frees:
  "\<exists>b t h' w'. start_thread_obtaining_mutex mutex_os m o_ms r_ms h w = Inr (b, t, h', w') \<and>
     (if b then \<exists>p. h p = None \<and> h' = h(p \<mapsto> \<lparr>mutex_ptr = m, wait_to_obtain_ms = o_ms,
         wait_to_release_ms = r_ms, thread_complete_success = False\<rparr>) \<and> t \<noteq> None
      else h' = h \<and> t = None)"
  by (rule mutex.start_thread_ok)

end
