(* ===== verification/Autotest.thy ===== *)
theory Autotest
  imports Prelude
begin

text \<open>
  \<^verbatim>\<open>examples/autotest-validate/autotest-validate.c\<close>, its program and the unit test of \<^verbatim>\<open>student-test\<close> that uses
  it. The test compares with a string that a helper of the autotest submodule reads from
  \<^verbatim>\<open>conf/username.txt\<close>; that string is an argument.
\<close>

definition this_function_returns_true :: bool where
  "this_function_returns_true = True"

definition this_function_returns_false :: bool where
  "this_function_returns_false = False"

definition my_username :: string where
  "my_username = ''happyguyhere''"

text \<open>What the program prints.\<close>

definition truth :: "bool \<Rightarrow> string" where
  "truth b = (if b then ''true'' else ''false'')"

definition autotest_main :: string where
  "autotest_main =
     ''this_function_returns_true returned '' @ truth this_function_returns_true @ [CHR 0x0A] @
     ''this_function_returns_false returned '' @ truth this_function_returns_false @ [CHR 0x0A]"

text \<open>Whether the assertion of the test holds.\<close>

definition test_validate_my_username :: "string \<Rightarrow> bool" where
  "test_validate_my_username conf_username \<longleftrightarrow> my_username = conf_username"

text \<open>The test passes with the file of this repository, which has no newline at its end.\<close>

lemma username_of_repository: "test_validate_my_username ''happyguyhere''"
  by (simp add: test_validate_my_username_def my_username_def)

lemma username_with_newline: "\<not> test_validate_my_username (''happyguyhere'' @ [CHR 0x0A])"
  by (simp add: test_validate_my_username_def my_username_def)

end
